(* ===== verification/Awa_Prelude.thy ===== *)
theory Awa_Prelude
  imports Main "HOL-Library.Char_ord" "HOL-Library.List_Lexorder" "HOL-Library.Product_Lexorder"
    "HOL-Library.Multiset"
begin

section \<open>Shared types and lemmas\<close>

text \<open>
  What every component of the development shares: names for the scalar types of the Rust code,
  ordered maps (\<^verbatim>\<open>BTreeMap\<close> and \<^verbatim>\<open>serde_json::Map\<close>, which iterates in key order) as sorted
  association lists, decimal rendering and parsing of integers (\<^verbatim>\<open>format!\<close> and
  \<^verbatim>\<open>str::parse\<close>), saturating arithmetic on \<^verbatim>\<open>i16\<close>, and the fallible loop over a list.

  Strings are byte strings: a HOL \<^typ>\<open>string\<close> holds the UTF-8 bytes of a Rust \<^verbatim>\<open>str\<close>, and
  the lexicographic order of \<^typ>\<open>string\<close> is the byte order that Rust and \<^verbatim>\<open>BTreeMap\<close> use.
\<close>

named_theorems omap_simps \<open>characteristic equations of the ordered maps\<close>
named_theorems row_defs \<open>unfolding rules of the row conversions\<close>
named_theorems res_simps \<open>equations of the fallible combinators\<close>

type_synonym timestamp = int
type_synonym millis = int
type_synonym job_id = int
type_synonym bytes = string


subsection \<open>Ordered maps\<close>

type_synonym ('k, 'v) omap = "('k \<times> 'v) list"

fun omap_insert :: "'k::linorder \<Rightarrow> 'v \<Rightarrow> ('k, 'v) omap \<Rightarrow> ('k, 'v) omap" where
  "omap_insert k v [] = [(k, v)]"
| "omap_insert k v ((k', v') # m) =
     (if k < k' then (k, v) # (k', v') # m
      else if k = k' then (k, v) # m
      else (k', v') # omap_insert k v m)"

definition omap_remove :: "'k \<Rightarrow> ('k, 'v) omap \<Rightarrow> ('k, 'v) omap" where
  "omap_remove k m = filter (\<lambda>p. fst p \<noteq> k) m"

definition omap_update :: "'k::linorder \<Rightarrow> 'v \<Rightarrow> ('v \<Rightarrow> 'v) \<Rightarrow> ('k, 'v) omap \<Rightarrow> ('k, 'v) omap" where
  "omap_update k v0 f m =
     (case map_of m k of None \<Rightarrow> omap_insert k (f v0) m | Some v \<Rightarrow> omap_insert k (f v) m)"

definition omap_wf :: "('k::linorder, 'v) omap \<Rightarrow> bool" where
  "omap_wf m \<longleftrightarrow> sorted_wrt (<) (map fst m)"

lemma omap_wf_Nil [simp]: "omap_wf []"
  by (simp add: omap_wf_def)

lemma omap_wf_distinct: "omap_wf m \<Longrightarrow> distinct (map fst m)"
  by (auto simp: omap_wf_def strict_sorted_iff)

lemma set_fst_omap_insert [simp]: "fst ` set (omap_insert k v m) = insert k (fst ` set m)"
  by (induction k v m rule: omap_insert.induct) auto

lemma map_of_omap_insert [omap_simps]: "map_of (omap_insert k v m) = (map_of m)(k \<mapsto> v)"
  by (induction k v m rule: omap_insert.induct) auto

lemma omap_insert_wf [simp, intro]: "omap_wf m \<Longrightarrow> omap_wf (omap_insert k v m)"
proof (induction k v m rule: omap_insert.induct)
  case (1 k v)
  then show ?case by (simp add: omap_wf_def)
next
  case (2 k v k' v' m)
  show ?case
  proof (cases "k < k'")
    case True
    with 2 show ?thesis by (auto simp: omap_wf_def dest: order_less_trans)
  next
    case False
    show ?thesis
    proof (cases "k = k'")
      case True
      with 2 show ?thesis by (simp add: omap_wf_def)
    next
      case ne: False
      with 2 False have "omap_wf (omap_insert k v m)" by (simp add: omap_wf_def)
      moreover have "\<forall>x \<in> fst ` set (omap_insert k v m). k' < x"
        using 2 ne False by (auto simp: omap_wf_def)
      ultimately show ?thesis using ne False by (simp add: omap_wf_def)
    qed
  qed
qed

lemma map_of_omap_remove [omap_simps]: "map_of (omap_remove k m) = (map_of m)(k := None)"
  by (induction m) (auto simp: omap_remove_def fun_eq_iff)

lemma omap_remove_wf [simp, intro]: "omap_wf m \<Longrightarrow> omap_wf (omap_remove k m)"
  by (simp add: omap_wf_def omap_remove_def sorted_wrt_filter sorted_wrt_map)

lemma omap_update_wf [simp, intro]: "omap_wf m \<Longrightarrow> omap_wf (omap_update k v0 f m)"
  by (simp add: omap_update_def split: option.split)

lemma map_of_omap_update [omap_simps]:
  "map_of (omap_update k v0 f m) =
     (map_of m)(k \<mapsto> f (case map_of m k of None \<Rightarrow> v0 | Some v \<Rightarrow> v))"
  by (simp add: omap_update_def omap_simps split: option.split)


subsection \<open>Decimal numbers\<close>

definition digit_char :: "nat \<Rightarrow> char" where
  "digit_char d = char_of (48 + d)"

fun string_of_nat :: "nat \<Rightarrow> string" where
  "string_of_nat n =
     (if n < 10 then [digit_char n] else string_of_nat (n div 10) @ [digit_char (n mod 10)])"

declare string_of_nat.simps [simp del]

definition string_of_int :: "int \<Rightarrow> string" where
  "string_of_int i = (if i < 0 then CHR ''-'' # string_of_nat (nat (- i)) else string_of_nat (nat i))"

definition is_digit :: "char \<Rightarrow> bool" where
  "is_digit c \<longleftrightarrow> 48 \<le> (of_char c :: nat) \<and> (of_char c :: nat) \<le> 57"

fun parse_digits :: "nat \<Rightarrow> string \<Rightarrow> nat option" where
  "parse_digits acc [] = Some acc"
| "parse_digits acc (c # cs) =
     (if is_digit c then parse_digits (10 * acc + (of_char c - 48)) cs else None)"

lemma of_char_digit_char [simp]: "d < 10 \<Longrightarrow> (of_char (digit_char d) :: nat) = 48 + d"
  by (simp add: digit_char_def)

lemma is_digit_digit_char [simp]: "d < 10 \<Longrightarrow> is_digit (digit_char d)"
  by (simp add: is_digit_def)

lemma parse_digits_append:
  "parse_digits acc (xs @ ys) =
     (case parse_digits acc xs of None \<Rightarrow> None | Some a \<Rightarrow> parse_digits a ys)"
  by (induction xs arbitrary: acc) auto

lemma parse_string_of_nat [simp]: "parse_digits 0 (string_of_nat n) = Some n"
proof (induction n rule: string_of_nat.induct)
  case (1 n)
  then show ?case
    by (cases "n < 10") (simp_all add: string_of_nat.simps [of n] parse_digits_append)
qed

lemma string_of_nat_nonempty [simp]: "string_of_nat n \<noteq> []"
  by (subst string_of_nat.simps) simp

lemma string_of_nat_digits: "c \<in> set (string_of_nat n) \<Longrightarrow> is_digit c"
proof (induction n rule: string_of_nat.induct)
  case (1 n)
  then show ?case
    by (cases "n < 10") (auto simp: string_of_nat.simps [of n])
qed

lemma string_of_nat_inject [simp]: "string_of_nat m = string_of_nat n \<longleftrightarrow> m = n"
  by (metis option.inject parse_string_of_nat)


subsection \<open>Saturating arithmetic on 16-bit integers\<close>

definition i16_max :: int where "i16_max = 32767"
definition i16_min :: int where "i16_min = - 32768"

definition i16_saturate :: "int \<Rightarrow> int" where
  "i16_saturate x = max i16_min (min i16_max x)"

definition i16_saturating_add :: "int \<Rightarrow> int \<Rightarrow> int" where
  "i16_saturating_add a b = i16_saturate (a + b)"

definition i16_saturating_sub :: "int \<Rightarrow> int \<Rightarrow> int" where
  "i16_saturating_sub a b = i16_saturate (a - b)"

lemma i16_saturate_bounds: "i16_min \<le> i16_saturate x" "i16_saturate x \<le> i16_max"
  by (auto simp: i16_saturate_def i16_min_def i16_max_def)

lemma i16_saturating_sub_exact:
  "i16_min < a \<Longrightarrow> a \<le> i16_max \<Longrightarrow> i16_saturating_sub a 1 = a - 1"
  by (simp add: i16_saturating_sub_def i16_saturate_def i16_min_def i16_max_def)


subsection \<open>Fallible computations\<close>

definition res_bind :: "'e + 'a \<Rightarrow> ('a \<Rightarrow> 'e + 'b) \<Rightarrow> 'e + 'b" where
  "res_bind m f = (case m of Inl e \<Rightarrow> Inl e | Inr a \<Rightarrow> f a)"

fun res_map :: "('a \<Rightarrow> 'e + 'b) \<Rightarrow> 'a list \<Rightarrow> 'e + 'b list" where
  "res_map f [] = Inr []"
| "res_map f (x # xs) = res_bind (f x) (\<lambda>y. res_bind (res_map f xs) (\<lambda>ys. Inr (y # ys)))"

lemma res_bind_simps [simp, res_simps]:
  "res_bind (Inl e) f = Inl e"
  "res_bind (Inr a) f = f a"
  by (simp_all add: res_bind_def)

lemma res_bind_eq_Inr [res_simps]:
  "res_bind m f = Inr b \<longleftrightarrow> (\<exists>a. m = Inr a \<and> f a = Inr b)"
  by (cases m) auto

lemma res_map_Inr_length: "res_map f xs = Inr ys \<Longrightarrow> length ys = length xs"
  by (induction xs arbitrary: ys) (auto simp: res_bind_eq_Inr)

lemma res_map_Inr_nth: "res_map f xs = Inr ys \<Longrightarrow> i < length xs \<Longrightarrow> f (xs ! i) = Inr (ys ! i)"
proof (induction xs arbitrary: ys i)
  case (Cons x xs)
  then show ?case by (cases i) (auto simp: res_bind_eq_Inr)
qed simp

lemma res_map_Inl: "res_map f xs = Inl e \<Longrightarrow> \<exists>x \<in> set xs. f x = Inl e"
proof (induction xs)
  case (Cons x xs)
  then show ?case by (cases "f x"; cases "res_map f xs") auto
qed simp

end
