(* ===== verification/Awa_Job.thy ===== *)
theory Awa_Job
  imports Awa_Prelude "HOL-Library.Word"
begin

section \<open>Jobs, JSON values and errors\<close>

text \<open>
  The data the whole program is about: JSON values (\<^verbatim>\<open>serde_json::Value\<close>), the job states and
  rows of \<^verbatim>\<open>awa-model/src/job.rs\<close>, the kind derivation of \<^verbatim>\<open>kind.rs\<close>, the
  unique-key preimage of \<^verbatim>\<open>unique.rs\<close> and the error type of \<^verbatim>\<open>error.rs\<close>. The
  lemmas show that the textual job states round-trip, that the state bits are a bijection onto
  \<open>0..7\<close>, that kind derivation yields lower-case names and loses nothing but case, and that the
  bytes hashed into a unique key determine the fields that went into them.
\<close>

subsection \<open>JSON values\<close>

datatype json_number = PosInt nat | NegInt int | Float "64 word"

datatype json =
    JNull
  | JBool bool
  | JNumber json_number
  | JString string
  | JArray "json list"
  | JObject "(string \<times> json) list"

fun json_get :: "string \<Rightarrow> json \<Rightarrow> json option" where
  "json_get k (JObject m) = map_of m k"
| "json_get k _ = None"

fun is_null :: "json \<Rightarrow> bool" where
  "is_null JNull = True"
| "is_null _ = False"

fun is_object :: "json \<Rightarrow> bool" where
  "is_object (JObject _) = True"
| "is_object _ = False"

definition json_of_int :: "int \<Rightarrow> json" where
  "json_of_int i = JNumber (if i < 0 then NegInt i else PosInt (nat i))"

subsection \<open>Job states\<close>

datatype job_state =
  Scheduled | Available | Running | Completed | Retryable | Failed | Cancelled | WaitingExternal

fun as_str :: "job_state \<Rightarrow> string" where
  "as_str Scheduled = ''scheduled''"
| "as_str Available = ''available''"
| "as_str Running = ''running''"
| "as_str Completed = ''completed''"
| "as_str Retryable = ''retryable''"
| "as_str Failed = ''failed''"
| "as_str Cancelled = ''cancelled''"
| "as_str WaitingExternal = ''waiting_external''"

definition from_str :: "string \<Rightarrow> string + job_state" where
  "from_str s =
    (if s = ''scheduled'' then Inr Scheduled
     else if s = ''available'' then Inr Available
     else if s = ''running'' then Inr Running
     else if s = ''completed'' then Inr Completed
     else if s = ''retryable'' then Inr Retryable
     else if s = ''failed'' then Inr Failed
     else if s = ''cancelled'' then Inr Cancelled
     else if s = ''waiting_external'' then Inr WaitingExternal
     else Inl (''unknown job state: '' @ s))"

fun bit_position :: "job_state \<Rightarrow> nat" where
  "bit_position Scheduled = 0"
| "bit_position Available = 1"
| "bit_position Running = 2"
| "bit_position Completed = 3"
| "bit_position Retryable = 4"
| "bit_position Failed = 5"
| "bit_position Cancelled = 6"
| "bit_position WaitingExternal = 7"

fun is_terminal :: "job_state \<Rightarrow> bool" where
  "is_terminal Completed = True"
| "is_terminal Failed = True"
| "is_terminal Cancelled = True"
| "is_terminal _ = False"

instantiation job_state :: linorder
begin

definition less_eq_job_state :: "job_state \<Rightarrow> job_state \<Rightarrow> bool" where
  "less_eq_job_state a b \<longleftrightarrow> bit_position a \<le> bit_position b"

definition less_job_state :: "job_state \<Rightarrow> job_state \<Rightarrow> bool" where
  "less_job_state a b \<longleftrightarrow> bit_position a < bit_position b"

instance
proof
  fix x y :: job_state
  show "x \<le> y \<Longrightarrow> y \<le> x \<Longrightarrow> x = y"
    by (cases x; cases y) (simp_all add: less_eq_job_state_def)
qed (auto simp: less_eq_job_state_def less_job_state_def)

end

subsection \<open>Rows and options\<close>

record job_row =
  jr_id :: int
  jr_kind :: string
  jr_queue :: string
  jr_args :: json
  jr_state :: job_state
  jr_priority :: int
  jr_attempt :: int
  jr_run_lease :: int
  jr_max_attempts :: int
  jr_run_at :: timestamp
  jr_heartbeat_at :: "timestamp option"
  jr_deadline_at :: "timestamp option"
  jr_attempted_at :: "timestamp option"
  jr_finalized_at :: "timestamp option"
  jr_created_at :: timestamp
  jr_errors :: "json list option"
  jr_metadata :: json
  jr_tags :: "string list"
  jr_unique_key :: "bytes option"
  jr_unique_states :: "8 word option"
  jr_callback_id :: "string option"
  jr_callback_timeout_at :: "timestamp option"
  jr_callback_filter :: "string option"
  jr_callback_on_complete :: "string option"
  jr_callback_on_fail :: "string option"
  jr_callback_transform :: "string option"
  jr_progress :: "json option"
  jr_output :: "json option"

record unique_opts =
  by_queue :: bool
  by_args :: bool
  by_period :: "int option"
  uo_states :: "8 word"

record insert_opts =
  io_queue :: string
  io_priority :: int
  io_max_attempts :: int
  io_run_at :: "timestamp option"
  io_deadline_duration :: "int option"
  io_metadata :: json
  io_tags :: "string list"
  io_unique :: "unique_opts option"
  io_ordering_key :: "bytes option"

record insert_params =
  ip_kind :: string
  ip_args :: json
  ip_opts :: insert_opts

definition insert_opts_default :: insert_opts where
  "insert_opts_default =
    \<lparr> io_queue = ''default'', io_priority = 2, io_max_attempts = 25, io_run_at = None,
      io_deadline_duration = None, io_metadata = JObject [], io_tags = [], io_unique = None,
      io_ordering_key = None \<rparr>"

definition unique_opts_default :: unique_opts where
  "unique_opts_default = \<lparr> by_queue = False, by_args = True, by_period = None, uo_states = 31 \<rparr>"

definition states_bits :: "unique_opts \<Rightarrow> 8 word list" where
  "states_bits u = [uo_states u]"

subsection \<open>Errors\<close>

text \<open>
  The variants of \<^verbatim>\<open>sqlx::Error\<close> the code distinguishes, with every other variant as
  \<open>SqlxOther\<close>; a database error carries its SQLSTATE and the name of the violated constraint.
\<close>

datatype sqlx_error =
    SqlxIo string
  | PoolTimedOut
  | PoolClosed
  | Protocol string
  | Tls string
  | RowNotFound
  | DbError "string option" "string option"
  | SqlxOther string

datatype awa_error =
    JobNotFound int
  | CallbackNotFound string
  | UniqueConflict "string option"
  | SchemaNotMigrated int int
  | SchemaNewerThanBinary int int
  | LiveRuntimesRequireExclusiveWindow int int string int string
  | RuntimeVersionFloorNotMet int string int string
  | StorageNotFinalized string
  | UnknownJobKind string
  | Validation string
  | Serialization string
  | Database sqlx_error

fun is_deadlock :: "awa_error \<Rightarrow> bool" where
  "is_deadlock (Database (DbError code _)) = (code = Some ''40P01'')"
| "is_deadlock _ = False"

fun is_undefined_column :: "awa_error \<Rightarrow> bool" where
  "is_undefined_column (Database (DbError code _)) = (code = Some ''42703'')"
| "is_undefined_column _ = False"

fun is_connection_lost :: "awa_error \<Rightarrow> bool" where
  "is_connection_lost (Database (SqlxIo _)) = True"
| "is_connection_lost (Database PoolTimedOut) = True"
| "is_connection_lost (Database (Protocol _)) = True"
| "is_connection_lost (Database (Tls _)) = True"
| "is_connection_lost (Database (DbError code _)) =
    (case code of
       None \<Rightarrow> False
     | Some c \<Rightarrow> take 2 c = ''08'' \<or> c \<in> set [''57P01'', ''57P02'', ''57P03'', ''25006''])"
| "is_connection_lost _ = False"

fun map_sqlx_error :: "sqlx_error \<Rightarrow> awa_error" where
  "map_sqlx_error (DbError code constr) =
     (if code = Some ''23505'' then UniqueConflict constr else Database (DbError code constr))"
| "map_sqlx_error err = Database err"

subsection \<open>Outputs of a row\<close>

text \<open>
  The decoder \<open>dec\<close> is \<^verbatim>\<open>serde_json::from_value\<close> at the output type; \<open>kind\<close> is
  the kind that type declares.
\<close>

definition error_entry_output_key :: string where
  "error_entry_output_key = ''output''"

definition decode_output ::
  "string \<Rightarrow> (json \<Rightarrow> string + 'o) \<Rightarrow> job_row \<Rightarrow> json option \<Rightarrow> awa_error + 'o option" where
  "decode_output kind dec row out =
    (if jr_kind row \<noteq> kind
     then Inl (Validation (''job '' @ string_of_int (jr_id row) @ '' is of kind '' @ jr_kind row @
                           '', not '' @ kind))
     else case out of
            None \<Rightarrow> Inr None
          | Some v \<Rightarrow> (case dec v of Inl e \<Rightarrow> Inl (Serialization e) | Inr x \<Rightarrow> Inr (Some x)))"

definition output_as :: "string \<Rightarrow> (json \<Rightarrow> string + 'o) \<Rightarrow> job_row \<Rightarrow> awa_error + 'o option" where
  "output_as kind dec row = decode_output kind dec row (jr_output row)"

fun find_map :: "('a \<Rightarrow> 'b option) \<Rightarrow> 'a list \<Rightarrow> 'b option" where
  "find_map f [] = None"
| "find_map f (x # xs) = (case f x of None \<Rightarrow> find_map f xs | Some y \<Rightarrow> Some y)"

definition entry_output :: "json \<Rightarrow> json option" where
  "entry_output entry =
     (case json_get error_entry_output_key entry of
        None \<Rightarrow> None
      | Some v \<Rightarrow> (if is_null v then None else Some v))"

definition error_output_as ::
  "string \<Rightarrow> (json \<Rightarrow> string + 'o) \<Rightarrow> job_row \<Rightarrow> awa_error + 'o option" where
  "error_output_as kind dec row =
     decode_output kind dec row
       (find_map entry_output (rev (case jr_errors row of None \<Rightarrow> [] | Some es \<Rightarrow> es)))"

subsection \<open>Kind derivation\<close>

text \<open>
  Character classes on the ASCII range, which is the range of the identifiers the derive macro
  sees in practice; bytes outside it are neither upper nor lower case.
\<close>

definition is_uppercase :: "char \<Rightarrow> bool" where
  "is_uppercase c \<longleftrightarrow> 65 \<le> (of_char c :: nat) \<and> (of_char c :: nat) \<le> 90"

definition is_lowercase :: "char \<Rightarrow> bool" where
  "is_lowercase c \<longleftrightarrow> 97 \<le> (of_char c :: nat) \<and> (of_char c :: nat) \<le> 122"

definition to_lowercase :: "char \<Rightarrow> char" where
  "to_lowercase c = (if is_uppercase c then char_of ((of_char c :: nat) + 32) else c)"

definition needs_separator :: "string \<Rightarrow> nat \<Rightarrow> bool" where
  "needs_separator cs i \<longleftrightarrow>
     i > 0 \<and>
     ((is_lowercase (cs ! (i - 1)) \<or> is_digit (cs ! (i - 1))) \<or>
      (is_uppercase (cs ! (i - 1)) \<and> i + 1 < length cs \<and> is_lowercase (cs ! (i + 1))))"

definition camel_step :: "string \<Rightarrow> nat \<Rightarrow> string" where
  "camel_step cs i =
     (if is_uppercase (cs ! i)
      then (if needs_separator cs i then [CHR ''_''] else []) @ [to_lowercase (cs ! i)]
      else [cs ! i])"

definition camel_to_snake :: "string \<Rightarrow> string" where
  "camel_to_snake name = concat (map (camel_step name) [0..<length name])"

subsection \<open>Unique keys\<close>

text \<open>
  The bytes fed to the BLAKE3 hasher. The digest itself (\<open>blake3\<close>, the first 16 bytes of it) and the
  JSON text of the arguments (\<open>to_vec\<close>) belong to third-party crates and are arguments.
\<close>

definition le_bytes8 :: "int \<Rightarrow> bytes" where
  "le_bytes8 x = map (\<lambda>i. char_of (nat ((x div 256 ^ i) mod 256))) [0..<8]"

definition unique_key_input ::
  "(json \<Rightarrow> bytes) \<Rightarrow> string \<Rightarrow> string option \<Rightarrow> json option \<Rightarrow> int option \<Rightarrow> bytes" where
  "unique_key_input to_vec kind queue args period_bucket =
     kind
     @ (case queue of None \<Rightarrow> [] | Some q \<Rightarrow> CHR 0x00 # q)
     @ (case args of None \<Rightarrow> [] | Some a \<Rightarrow> CHR 0x00 # to_vec a)
     @ (case period_bucket of None \<Rightarrow> [] | Some p \<Rightarrow> CHR 0x00 # le_bytes8 p)"

definition compute_unique_key ::
  "(bytes \<Rightarrow> bytes) \<Rightarrow> (json \<Rightarrow> bytes) \<Rightarrow>
   string \<Rightarrow> string option \<Rightarrow> json option \<Rightarrow> int option \<Rightarrow> bytes" where
  "compute_unique_key blake3 to_vec kind queue args period_bucket =
     take 16 (blake3 (unique_key_input to_vec kind queue args period_bucket))"

subsection \<open>Properties of the job states\<close>

lemma as_str_inject [simp]: "as_str a = as_str b \<longleftrightarrow> a = b"
  by (cases a; cases b) simp_all

lemma bit_position_inject [simp]: "bit_position a = bit_position b \<longleftrightarrow> a = b"
  by (cases a; cases b) simp_all

lemma bit_position_less_8 [simp]: "bit_position a < 8"
  by (cases a) simp_all

lemma bit_position_surj: "n < 8 \<Longrightarrow> \<exists>a. bit_position a = n"
proof -
  assume "n < 8"
  then have "n \<in> bit_position ` {Scheduled, Available, Running, Completed, Retryable, Failed,
                               Cancelled, WaitingExternal}"
    by auto
  then show ?thesis by blast
qed

text \<open>
  The textual representation of job states round-trips. Parsing a text succeeds with a state
  exactly when the text is that state's canonical name, so the mapping to and from Postgres and JSON
  loses nothing and no two states share a name.
\<close>

theorem from_str_iff: "from_str t = Inr s \<longleftrightarrow> t = as_str s"
proof
  assume "from_str t = Inr s"
  then show "t = as_str s"
    by (auto simp: from_str_def split: if_splits)
next
  assume "t = as_str s"
  then show "from_str t = Inr s"
    by (cases s) (simp_all add: from_str_def)
qed

subsection \<open>Properties of the error classification\<close>

lemma map_sqlx_error_unique:
  "map_sqlx_error e = UniqueConflict c \<longleftrightarrow> e = DbError (Some ''23505'') c"
  by (cases e) auto

lemma deadlock_not_connection_lost: "is_deadlock e \<Longrightarrow> \<not> is_connection_lost e"
  by (cases e rule: is_connection_lost.cases) auto

lemma error_classes_disjoint:
  "is_deadlock e \<Longrightarrow> \<not> is_undefined_column e"
  "is_connection_lost e \<Longrightarrow> \<not> is_undefined_column e"
  "is_connection_lost e \<Longrightarrow> e \<noteq> UniqueConflict c"
  by (cases e rule: is_connection_lost.cases, auto)+

subsection \<open>Properties of kind derivation\<close>

lemma of_char_to_lowercase:
  "is_uppercase c \<Longrightarrow> (of_char (to_lowercase c) :: nat) = of_char c + 32"
  by (simp add: to_lowercase_def is_uppercase_def)

lemma to_lowercase_not_upper [simp]: "\<not> is_uppercase (to_lowercase c)"
  using of_char_to_lowercase [of c] by (auto simp: to_lowercase_def is_uppercase_def)

lemma to_lowercase_id: "\<not> is_uppercase c \<Longrightarrow> to_lowercase c = c"
  by (simp add: to_lowercase_def)

lemma underscore_char [simp]: "\<not> is_uppercase (CHR ''_'')" "\<not> is_lowercase (CHR ''_'')"
  by (simp_all add: is_uppercase_def is_lowercase_def)

lemma to_lowercase_underscore [simp]: "to_lowercase c = CHR ''_'' \<longleftrightarrow> c = CHR ''_''"
proof -
  have "is_uppercase c \<Longrightarrow> to_lowercase c \<noteq> CHR ''_''"
  proof
    assume u: "is_uppercase c" and "to_lowercase c = CHR ''_''"
    then have "(of_char (to_lowercase c) :: nat) = 95" by simp
    with u show False by (simp add: of_char_to_lowercase is_uppercase_def)
  qed
  then show ?thesis by (auto simp: to_lowercase_def split: if_splits)
qed

lemma camel_step_not_upper: "c \<in> set (camel_step cs i) \<Longrightarrow> \<not> is_uppercase c"
  by (auto simp: camel_step_def split: if_splits)

lemma camel_step_letters:
  "filter (\<lambda>c. c \<noteq> CHR ''_'') (camel_step cs i) =
     filter (\<lambda>c. c \<noteq> CHR ''_'') [to_lowercase (cs ! i)]"
  by (simp add: camel_step_def to_lowercase_id)

lemma map_nth_upt: "concat (map (\<lambda>i. f (cs ! i)) [0..<length cs]) = concat (map f cs)"
proof -
  have "map (\<lambda>i. f (cs ! i)) [0..<length cs] = map f cs"
    by (rule nth_equalityI) simp_all
  then show ?thesis by simp
qed

lemma camel_to_snake_lower: "c \<in> set (camel_to_snake name) \<Longrightarrow> \<not> is_uppercase c"
  unfolding camel_to_snake_def by (auto dest: camel_step_not_upper)

lemma camel_to_snake_letters:
  "filter (\<lambda>c. c \<noteq> CHR ''_'') (camel_to_snake name) =
     filter (\<lambda>c. c \<noteq> CHR ''_'') (map to_lowercase name)"
proof -
  have "filter (\<lambda>c. c \<noteq> CHR ''_'') (camel_to_snake name) =
        concat (map (\<lambda>i. filter (\<lambda>c. c \<noteq> CHR ''_'') [to_lowercase (name ! i)]) [0..<length name])"
    by (simp only: camel_to_snake_def filter_concat map_map o_def camel_step_letters)
  also have "\<dots> = concat (map (\<lambda>c. filter (\<lambda>c. c \<noteq> CHR ''_'') [to_lowercase c]) name)"
    by (rule map_nth_upt)
  also have "\<dots> = filter (\<lambda>c. c \<noteq> CHR ''_'') (map to_lowercase name)"
    by (induction name) auto
  finally show ?thesis .
qed

lemma camel_to_snake_fixed:
  assumes "\<And>c. c \<in> set name \<Longrightarrow> \<not> is_uppercase c"
  shows "camel_to_snake name = name"
proof -
  have "map (camel_step name) [0..<length name] = map (\<lambda>i. [name ! i]) [0..<length name]"
    using assms by (intro map_cong) (auto simp: camel_step_def)
  then show ?thesis
    by (simp only: camel_to_snake_def map_nth_upt [of "\<lambda>c. [c]"]) simp
qed

text \<open>
  The kind derived from a type name contains no upper-case letter, derivation is idempotent (an
  already derived kind is kept), and apart from the separators it inserts the derived kind spells the
  lower-cased name, so no letter is lost or reordered.
\<close>

theorem camel_to_snake_correct:
  "(\<nexists>c. c \<in> set (camel_to_snake name) \<and> is_uppercase c) \<and>
   camel_to_snake (camel_to_snake name) = camel_to_snake name \<and>
   filter (\<lambda>c. c \<noteq> CHR ''_'') (camel_to_snake name) =
     map to_lowercase (filter (\<lambda>c. c \<noteq> CHR ''_'') name)"
proof (intro conjI)
  show "\<nexists>c. c \<in> set (camel_to_snake name) \<and> is_uppercase c"
    using camel_to_snake_lower by blast
  show "camel_to_snake (camel_to_snake name) = camel_to_snake name"
    by (rule camel_to_snake_fixed) (rule camel_to_snake_lower)
  show "filter (\<lambda>c. c \<noteq> CHR ''_'') (camel_to_snake name) =
     map to_lowercase (filter (\<lambda>c. c \<noteq> CHR ''_'') name)"
    by (simp add: camel_to_snake_letters filter_map o_def)
qed

subsection \<open>Properties of unique keys\<close>

lemma le_bytes8_length [simp]: "length (le_bytes8 x) = 8"
  by (simp add: le_bytes8_def)

lemma mod_256_power_Suc: "(x :: int) mod 256 ^ Suc n = 256 ^ n * (x div 256 ^ n mod 256) + x mod 256 ^ n"
  by (simp add: zmod_zmult2_eq mult.commute [of 256])

lemma le_bytes_digits:
  "(\<forall>i < n. (x :: int) div 256 ^ i mod 256 = y div 256 ^ i mod 256) \<Longrightarrow> x mod 256 ^ n = y mod 256 ^ n"
proof (induction n)
  case (Suc n)
  then show ?case by (simp only: mod_256_power_Suc) simp
qed simp

lemma le_bytes8_inject:
  assumes "le_bytes8 x = le_bytes8 y" "- (2 ^ 63) \<le> x" "x < 2 ^ 63" "- (2 ^ 63) \<le> y" "y < 2 ^ 63"
  shows "x = y"
proof -
  have "x div 256 ^ i mod 256 = y div 256 ^ i mod 256" if "i < 8" for i
  proof -
    have "le_bytes8 x ! i = le_bytes8 y ! i" using assms(1) by simp
    then have "char_of (nat (x div 256 ^ i mod 256)) = (char_of (nat (y div 256 ^ i mod 256)) :: char)"
      using that by (simp add: le_bytes8_def)
    then have "nat (x div 256 ^ i mod 256) mod 256 = nat (y div 256 ^ i mod 256) mod 256"
      by (metis of_char_of)
    moreover have "nat (z div 256 ^ i mod 256) < 256" for z :: int
      by (simp add: nat_less_iff)
    ultimately have "nat (x div 256 ^ i mod 256) = nat (y div 256 ^ i mod 256)"
      by simp
    then show ?thesis by simp
  qed
  then have "x mod 256 ^ 8 = y mod 256 ^ 8" by (blast intro: le_bytes_digits)
  then have "2 ^ 64 dvd (x - y)" by (simp add: mod_eq_dvd_iff)
  then obtain k where "x - y = 2 ^ 64 * k" by blast
  moreover from this assms(2-) have "k = 0" by simp
  ultimately show ?thesis by simp
qed

lemma takeWhile_segment:
  "z \<notin> set xs \<Longrightarrow> t = [] \<or> hd t = z \<Longrightarrow> takeWhile (\<lambda>c. c \<noteq> z) (xs @ t) = xs"
  by (cases t) (auto simp: takeWhile_append takeWhile_eq_all_conv)

lemma split_segment:
  assumes "xs @ t = xs' @ t'" "z \<notin> set xs" "z \<notin> set xs'"
    "t = [] \<or> hd t = z" "t' = [] \<or> hd t' = z"
  shows "xs = xs' \<and> t = t'"
proof -
  have "xs = xs'"
    using takeWhile_segment [of z xs t] takeWhile_segment [of z xs' t'] assms by simp
  with assms(1) show ?thesis by simp
qed

definition nul_free :: "bytes \<Rightarrow> bool" where
  "nul_free s \<longleftrightarrow> CHR 0x00 \<notin> set s"

definition key_segment :: "bytes option \<Rightarrow> bytes" where
  "key_segment x = (case x of None \<Rightarrow> [] | Some s \<Rightarrow> CHR 0x00 # s)"

lemma key_segment_head:
  "key_segment x = [] \<or> hd (key_segment x) = CHR 0x00"
  "key_segment x @ key_segment y = [] \<or> hd (key_segment x @ key_segment y) = CHR 0x00"
  "key_segment x @ key_segment y @ key_segment w = [] \<or>
     hd (key_segment x @ key_segment y @ key_segment w) = CHR 0x00"
  by (cases x; cases y; cases w; simp add: key_segment_def)+

lemma drop_key_segment:
  assumes "key_segment x @ t = key_segment x' @ t'" "(x = None) = (x' = None)"
    "pred_option nul_free x" "pred_option nul_free x'"
    "t = [] \<or> hd t = CHR 0x00" "t' = [] \<or> hd t' = CHR 0x00"
  shows "x = x' \<and> t = t'"
proof (cases x)
  case None
  with assms(1,2) show ?thesis by (simp add: key_segment_def)
next
  case (Some s)
  with assms(2) obtain s' where x': "x' = Some s'" by auto
  with assms(1) Some have "s @ t = s' @ t'" by (simp add: key_segment_def)
  from split_segment [OF this _ _ assms(5,6)] assms(3,4) Some x' show ?thesis
    by (simp add: nul_free_def)
qed

lemma unique_key_input_segments:
  "unique_key_input to_vec k q a p =
     k @ key_segment q @ key_segment (map_option to_vec a) @ key_segment (map_option le_bytes8 p)"
  by (simp add: unique_key_input_def key_segment_def split: option.split)

text \<open>
  C30: the bytes hashed into a unique key determine the fields that went into them. Two jobs whose
  uniqueness options select the same fields feed the hasher the same bytes only if they have the
  same kind, the same queue, the same argument text and the same period bucket; so, up to a digest
  collision, equal unique keys mean equal fields. Texts that reach Postgres contain no NUL byte and
  JSON text escapes it, which are the two hypotheses on the texts; a period bucket is an \<^verbatim>\<open>i64\<close>.
\<close>

theorem unique_key_input_inject:
  assumes eq: "unique_key_input to_vec k q a p = unique_key_input to_vec k' q' a' p'"
    and shape: "(q = None) = (q' = None)" "(a = None) = (a' = None)" "(p = None) = (p' = None)"
    and nul: "nul_free k" "nul_free k'" "pred_option nul_free q" "pred_option nul_free q'"
    and json_nul: "\<And>v. nul_free (to_vec v)"
    and i64: "pred_option (\<lambda>x. - (2 ^ 63) \<le> x \<and> x < 2 ^ 63) p"
      "pred_option (\<lambda>x. - (2 ^ 63) \<le> x \<and> x < 2 ^ 63) p'"
  shows "k = k' \<and> q = q' \<and> map_option to_vec a = map_option to_vec a' \<and> p = p'"
proof -
  note head = key_segment_head and drop_seg = drop_key_segment and input = unique_key_input_segments
  have texts: "pred_option nul_free (map_option to_vec x)" for x
    using json_nul by (cases x) simp_all
  have 1: "k = k'" and 2: "key_segment q @ key_segment (map_option to_vec a) @ key_segment (map_option le_bytes8 p) =
      key_segment q' @ key_segment (map_option to_vec a') @ key_segment (map_option le_bytes8 p')"
    using split_segment [OF eq [unfolded input], of "CHR 0x00"] nul head
    by (simp_all add: nul_free_def)
  from drop_seg [OF 2 shape(1) nul(3,4) head(2) head(2)]
  have 3: "q = q'" and 4: "key_segment (map_option to_vec a) @ key_segment (map_option le_bytes8 p) =
      key_segment (map_option to_vec a') @ key_segment (map_option le_bytes8 p')"
    by simp_all
  from drop_seg [OF 4 _ texts texts head(1) head(1)] shape(2)
  have 5: "map_option to_vec a = map_option to_vec a'"
    and 6: "key_segment (map_option le_bytes8 p) = key_segment (map_option le_bytes8 p')"
    by simp_all
  have "p = p'"
  proof (cases p)
    case None
    with shape(3) show ?thesis by simp
  next
    case (Some x)
    with shape(3) obtain x' where p': "p' = Some x'" by auto
    with 6 Some have "le_bytes8 x = le_bytes8 x'" by (simp add: key_segment_def)
    from le_bytes8_inject [OF this] i64 Some p' show ?thesis by simp
  qed
  with 1 3 5 show ?thesis by simp
qed

theorem unique_key_input_inject_witness:
  "unique_key_input (\<lambda>_. ''{}'') ''email'' (Some ''q'') (Some (JObject [])) (Some (- 60)) =
     ''email'' @ [CHR 0x00, CHR ''q'', CHR 0x00] @ ''{}'' @ CHR 0x00 # le_bytes8 (- 60) \<and>
   ''email'' = ''email'' \<and> Some ''q'' = Some ''q'' \<and>
   map_option (\<lambda>_ :: json. ''{}'') (Some (JObject [])) = map_option (\<lambda>_ :: json. ''{}'') (Some (JObject [])) \<and>
   Some (- 60 :: int) = Some (- 60)"
  using unique_key_input_inject [of "\<lambda>_. ''{}''" "''email''" "Some ''q''" "Some (JObject [])" "Some (- 60)"
      "''email''" "Some ''q''" "Some (JObject [])" "Some (- 60)"]
  by (simp add: nul_free_def unique_key_input_def)

end
