(* ===== verification/Awa_Insert.thy ===== *)
theory Awa_Insert
  imports Awa_Job
begin

section \<open>Preparing and staging inserts\<close>

text \<open>
  \<^verbatim>\<open>awa-model/src/insert.rs\<close>: validation and preparation of a job insert (with the trace capture of
  \<^verbatim>\<open>trace.rs\<close> and the output validation of \<^verbatim>\<open>output.rs\<close>), and the CSV serialisation that feeds
  \<^verbatim>\<open>COPY ... WITH (FORMAT csv, NULL '__AWA_NULL__')\<close>. The lemmas show that validation accepts exactly
  the values without NUL, that a prepared row keeps every option, and that a CSV reader (the
  specification \<open>csv_records\<close>) recovers every column of every staged row, with NULL and the
  text of the sentinel kept apart.

  Third-party code is an argument: \<open>blake3\<close> and \<open>to_vec\<close> as in the unique keys, \<open>hex_encode\<close>
  (crate \<^verbatim>\<open>hex\<close>), \<open>rfc3339\<close> (\<^verbatim>\<open>chrono\<close>) and the ambient trace context.
\<close>

unbundle bit_operations_syntax

record insert_env =
  ie_blake3 :: "bytes \<Rightarrow> bytes"
  ie_to_vec :: "json \<Rightarrow> bytes"
  ie_hex_encode :: "bytes \<Rightarrow> string"
  ie_rfc3339 :: "timestamp \<Rightarrow> string"
  ie_trace_capture_env :: "string option"
  ie_current_traceparent :: "string option"

subsection \<open>Validation\<close>

definition nul_escape :: string where
  "nul_escape = CHR 0x5C # ''u0000''"

definition contains_nul_char :: "string \<Rightarrow> bool" where
  "contains_nul_char s \<longleftrightarrow> CHR 0x00 \<in> set s"

fun reject_null_bytes :: "json \<Rightarrow> awa_error + unit"
  and reject_null_bytes_items :: "json list \<Rightarrow> awa_error + unit"
  and reject_null_bytes_entries :: "(string \<times> json) list \<Rightarrow> awa_error + unit"
where
  "reject_null_bytes (JString s) =
     (if contains_nul_char s
      then Inl (Validation (''job args/metadata must not contain null bytes ('' @ nul_escape @
              ''): Postgres JSONB does not support them''))
      else Inr ())"
| "reject_null_bytes (JArray arr) = reject_null_bytes_items arr"
| "reject_null_bytes (JObject m) = reject_null_bytes_entries m"
| "reject_null_bytes _ = Inr ()"
| "reject_null_bytes_items [] = Inr ()"
| "reject_null_bytes_items (v # vs) =
     res_bind (reject_null_bytes v) (\<lambda>_. reject_null_bytes_items vs)"
| "reject_null_bytes_entries [] = Inr ()"
| "reject_null_bytes_entries ((k, v) # kvs) =
     (if contains_nul_char k
      then Inl (Validation (''job args/metadata keys must not contain null bytes ('' @ nul_escape @ '')''))
      else res_bind (reject_null_bytes v) (\<lambda>_. reject_null_bytes_entries kvs))"

fun contains_nul :: "json \<Rightarrow> bool"
  and contains_nul_items :: "json list \<Rightarrow> bool"
  and contains_nul_entries :: "(string \<times> json) list \<Rightarrow> bool"
where
  "contains_nul (JString s) = contains_nul_char s"
| "contains_nul (JArray items) = contains_nul_items items"
| "contains_nul (JObject m) = contains_nul_entries m"
| "contains_nul _ = False"
| "contains_nul_items [] = False"
| "contains_nul_items (v # vs) = (contains_nul v \<or> contains_nul_items vs)"
| "contains_nul_entries [] = False"
| "contains_nul_entries ((k, v) # kvs) =
     ((contains_nul_char k \<or> contains_nul v) \<or> contains_nul_entries kvs)"

datatype output_error = Invalid string | TooLarge nat nat | Sealed

definition max_output_bytes :: nat where
  "max_output_bytes = 4 * 1024"

definition serialized_len :: "(json \<Rightarrow> string + bytes) \<Rightarrow> json \<Rightarrow> output_error + nat" where
  "serialized_len to_vec value =
     (case to_vec value of Inl e \<Rightarrow> Inl (Invalid e) | Inr b \<Rightarrow> Inr (length b))"

definition validate_output ::
  "(json \<Rightarrow> string + bytes) \<Rightarrow> json \<Rightarrow> output_error + json option" where
  "validate_output to_vec value =
     (if is_null value then Inr None
      else if contains_nul value
           then Inl (Invalid (''strings and keys must not contain NUL ('' @ nul_escape @ '')''))
      else res_bind (serialized_len to_vec value)
             (\<lambda>size. if size > max_output_bytes then Inl (TooLarge size max_output_bytes)
                     else Inr (Some value)))"

subsection \<open>Trace capture\<close>

definition traceparent_metadata_key :: string where
  "traceparent_metadata_key = ''awa:traceparent''"

definition is_ascii_whitespace :: "char \<Rightarrow> bool" where
  "is_ascii_whitespace c \<longleftrightarrow>
     of_char c \<in> set [9 :: nat, 10, 11, 12, 13, 32]"

definition trim :: "string \<Rightarrow> string" where
  "trim s = rev (dropWhile is_ascii_whitespace (rev (dropWhile is_ascii_whitespace s)))"

definition capture_disabled :: "string option \<Rightarrow> bool" where
  "capture_disabled var =
     (case var of
        None \<Rightarrow> False
      | Some v \<Rightarrow> map to_lowercase (trim v) \<in> set [''off'', ''false'', ''0''])"

fun inject_traceparent :: "insert_env \<Rightarrow> json \<Rightarrow> json" where
  "inject_traceparent env (JObject m) =
     (if map_of m traceparent_metadata_key \<noteq> None then JObject m
      else if capture_disabled (ie_trace_capture_env env) then JObject m
      else case ie_current_traceparent env of
             None \<Rightarrow> JObject m
           | Some tp \<Rightarrow> JObject (omap_insert traceparent_metadata_key (JString tp) m))"
| "inject_traceparent env v = v"

definition traceparent_from_metadata :: "json \<Rightarrow> string option" where
  "traceparent_from_metadata metadata =
     (case json_get traceparent_metadata_key metadata of
        Some (JString s) \<Rightarrow> Some s
      | _ \<Rightarrow> None)"

subsection \<open>Preparation\<close>

record prepared_job_insert =
  pi_kind :: string
  pi_queue :: string
  pi_args :: json
  pi_state :: job_state
  pi_priority :: int
  pi_max_attempts :: int
  pi_run_at :: "timestamp option"
  pi_metadata :: json
  pi_tags :: "string list"
  pi_unique_key :: "bytes option"
  pi_unique_states :: "string option"
  pi_ordering_key :: "bytes option"

definition unique_states_bits :: "8 word \<Rightarrow> string" where
  "unique_states_bits m =
     map (\<lambda>n. if m AND push_bit n 1 \<noteq> 0 then CHR ''1'' else CHR ''0'') [0..<8]"

definition compute_unique_fields ::
  "insert_env \<Rightarrow> string \<Rightarrow> json \<Rightarrow> insert_opts \<Rightarrow> bytes option \<times> string option" where
  "compute_unique_fields env kind args opts =
     (map_option
        (\<lambda>u. compute_unique_key (ie_blake3 env) (ie_to_vec env) kind
                (if by_queue u then Some (io_queue opts) else None)
                (if by_args u then Some args else None)
                (by_period u))
        (io_unique opts),
      map_option (\<lambda>u. unique_states_bits (uo_states u)) (io_unique opts))"

definition prepare_raw_job_insert ::
  "insert_env \<Rightarrow> string \<Rightarrow> json \<Rightarrow> insert_opts \<Rightarrow> awa_error + prepared_job_insert" where
  "prepare_raw_job_insert env kind args opts0 =
     (let opts = opts0\<lparr>io_metadata := inject_traceparent env (io_metadata opts0)\<rparr> in
      res_bind (reject_null_bytes args) (\<lambda>_.
      res_bind (reject_null_bytes (io_metadata opts)) (\<lambda>_.
      let state = (if io_run_at opts \<noteq> None then Scheduled else Available);
          (unique_key, unique_states) = compute_unique_fields env kind args opts
      in Inr \<lparr> pi_kind = kind, pi_queue = io_queue opts, pi_args = args, pi_state = state,
               pi_priority = io_priority opts, pi_max_attempts = io_max_attempts opts,
               pi_run_at = io_run_at opts, pi_metadata = io_metadata opts,
               pi_tags = io_tags opts, pi_unique_key = unique_key,
               pi_unique_states = unique_states, pi_ordering_key = io_ordering_key opts \<rparr>)))"

definition precompute_rows ::
  "insert_env \<Rightarrow> insert_params list \<Rightarrow> awa_error + prepared_job_insert list" where
  "precompute_rows env jobs =
     res_map (\<lambda>job. prepare_raw_job_insert env (ip_kind job) (ip_args job) (ip_opts job)) jobs"

subsection \<open>CSV serialisation\<close>

definition copy_null_sentinel :: string where
  "copy_null_sentinel = ''__AWA_NULL__''"

definition dq :: char where "dq = CHR 0x22"
definition bslash :: char where "bslash = CHR 0x5C"
definition nl :: char where "nl = CHR 0x0A"
definition cr :: char where "cr = CHR 0x0D"

definition csv_needs_quotes :: "string \<Rightarrow> bool" where
  "csv_needs_quotes value \<longleftrightarrow>
     CHR '','' \<in> set value \<or> dq \<in> set value \<or> nl \<in> set value \<or> cr \<in> set value
     \<or> bslash \<in> set value \<or> value = copy_null_sentinel"

definition double_quotes :: "string \<Rightarrow> string" where
  "double_quotes value = concat (map (\<lambda>b. if b = dq then [dq, dq] else [b]) value)"

definition write_csv_field :: "string \<Rightarrow> string" where
  "write_csv_field value =
     (if csv_needs_quotes value then [dq] @ double_quotes value @ [dq] else value)"

definition eq_ignore_ascii_case :: "string \<Rightarrow> string \<Rightarrow> bool" where
  "eq_ignore_ascii_case a b \<longleftrightarrow> map to_lowercase a = map to_lowercase b"

definition array_needs_quotes :: "string \<Rightarrow> bool" where
  "array_needs_quotes val \<longleftrightarrow>
     val = [] \<or> CHR '','' \<in> set val \<or> dq \<in> set val \<or> bslash \<in> set val
     \<or> CHR ''{'' \<in> set val \<or> CHR ''}'' \<in> set val \<or> CHR '' '' \<in> set val
     \<or> eq_ignore_ascii_case val ''NULL''"

definition write_pg_text_elem :: "string \<Rightarrow> string" where
  "write_pg_text_elem val =
     (if array_needs_quotes val
      then [dq, dq]
           @ concat (map (\<lambda>ch. if ch = dq then [bslash, dq, dq]
                              else if ch = bslash then [bslash, bslash] else [ch]) val)
           @ [dq, dq]
      else val)"

fun comma_join :: "string list \<Rightarrow> string" where
  "comma_join [] = []"
| "comma_join [x] = x"
| "comma_join (x # y # xs) = x @ CHR '','' # comma_join (y # xs)"

definition write_pg_text_array :: "string list \<Rightarrow> string" where
  "write_pg_text_array vals = [dq, CHR ''{''] @ comma_join (map write_pg_text_elem vals) @ [CHR ''}'', dq]"

definition write_nullable :: "('a \<Rightarrow> string) \<Rightarrow> 'a option \<Rightarrow> string" where
  "write_nullable f x = (case x of None \<Rightarrow> copy_null_sentinel | Some v \<Rightarrow> write_csv_field (f v))"

definition bytea_hex :: "insert_env \<Rightarrow> bytes \<Rightarrow> string" where
  "bytea_hex env key = [bslash, CHR ''x''] @ ie_hex_encode env key"

definition write_csv_row :: "insert_env \<Rightarrow> prepared_job_insert \<Rightarrow> string" where
  "write_csv_row env row =
     write_csv_field (pi_kind row) @ '',''
     @ write_csv_field (pi_queue row) @ '',''
     @ write_csv_field (ie_to_vec env (pi_args row)) @ '',''
     @ write_csv_field (as_str (pi_state row)) @ '',''
     @ string_of_int (pi_priority row) @ '',''
     @ string_of_int (pi_max_attempts row) @ '',''
     @ write_nullable (ie_rfc3339 env) (pi_run_at row) @ '',''
     @ write_csv_field (ie_to_vec env (pi_metadata row)) @ '',''
     @ write_pg_text_array (pi_tags row) @ '',''
     @ write_nullable (bytea_hex env) (pi_unique_key row) @ '',''
     @ write_nullable (\<lambda>bits. bits) (pi_unique_states row) @ '',''
     @ write_nullable (bytea_hex env) (pi_ordering_key row) @ [nl]"

subsection \<open>Reading CSV back: the specification\<close>

text \<open>
  What Postgres documents of \<^verbatim>\<open>FORMAT csv\<close>: a field that starts with a quote runs to the closing
  quote and doubled quotes stand for one; an unquoted field equal to the NULL string is NULL; records
  end with a newline. \<open>csv_row n\<close> reads a record of \<open>n\<close> columns.
\<close>

fun csv_quoted :: "string \<Rightarrow> (string \<times> string) option" where
  "csv_quoted [] = None"
| "csv_quoted [c] = (if c = dq then Some ([], []) else None)"
| "csv_quoted (c # d # ds) =
     (if c = dq
      then (if d = dq then map_option (\<lambda>(v, r). (dq # v, r)) (csv_quoted ds) else Some ([], d # ds))
      else map_option (\<lambda>(v, r). (c # v, r)) (csv_quoted (d # ds)))"

definition csv_plain_char :: "char \<Rightarrow> bool" where
  "csv_plain_char c \<longleftrightarrow> c \<noteq> CHR '','' \<and> c \<noteq> nl \<and> c \<noteq> cr \<and> c \<noteq> dq"

definition csv_field :: "string \<Rightarrow> (string option \<times> string) option" where
  "csv_field s =
     (if s \<noteq> [] \<and> hd s = dq then map_option (\<lambda>(v, r). (Some v, r)) (csv_quoted (tl s))
      else let v = takeWhile csv_plain_char s
           in Some (if v = copy_null_sentinel then None else Some v, dropWhile csv_plain_char s))"

fun csv_row :: "nat \<Rightarrow> string \<Rightarrow> (string option list \<times> string) option" where
  "csv_row 0 s = None"
| "csv_row (Suc n) s =
     (case csv_field s of
        Some (v, c # r) \<Rightarrow>
          (if n = 0 then (if c = nl then Some ([v], r) else None)
           else if c = CHR '','' then map_option (\<lambda>(vs, r'). (v # vs, r')) (csv_row n r)
           else None)
      | _ \<Rightarrow> None)"

fun csv_records :: "nat \<Rightarrow> nat \<Rightarrow> string \<Rightarrow> string option list list option" where
  "csv_records cols 0 s = (if s = [] then Some [] else None)"
| "csv_records cols (Suc k) s =
     (case csv_row cols s of
        None \<Rightarrow> None
      | Some (vs, r) \<Rightarrow> map_option ((#) vs) (csv_records cols k r))"

definition pg_array_elem :: "string \<Rightarrow> string" where
  "pg_array_elem val =
     (if array_needs_quotes val
      then [dq] @ concat (map (\<lambda>ch. if ch = dq \<or> ch = bslash then [bslash, ch] else [ch]) val) @ [dq]
      else val)"

definition pg_array_literal :: "string list \<Rightarrow> string" where
  "pg_array_literal vals = [CHR ''{''] @ comma_join (map pg_array_elem vals) @ [CHR ''}'']"

definition csv_columns :: "insert_env \<Rightarrow> prepared_job_insert \<Rightarrow> string option list" where
  "csv_columns env row =
     [Some (pi_kind row), Some (pi_queue row), Some (ie_to_vec env (pi_args row)),
      Some (as_str (pi_state row)), Some (string_of_int (pi_priority row)),
      Some (string_of_int (pi_max_attempts row)), map_option (ie_rfc3339 env) (pi_run_at row),
      Some (ie_to_vec env (pi_metadata row)), Some (pg_array_literal (pi_tags row)),
      map_option (bytea_hex env) (pi_unique_key row), pi_unique_states row,
      map_option (bytea_hex env) (pi_ordering_key row)]"

text \<open>
  What Postgres documents of array input: an element in double quotes is taken literally after
  backslash escapes; an unquoted element loses leading and trailing white space, and is NULL when it
  is that word in any case. \<open>array_elems\<close> reads at most \<open>n\<close> elements.
\<close>

fun array_quoted :: "string \<Rightarrow> (string \<times> string) option" where
  "array_quoted [] = None"
| "array_quoted [c] = (if c = dq then Some ([], []) else None)"
| "array_quoted (c # d # ds) =
     (if c = dq then Some ([], d # ds)
      else if c = bslash then map_option (\<lambda>(v, r). (d # v, r)) (array_quoted ds)
      else map_option (\<lambda>(v, r). (c # v, r)) (array_quoted (d # ds)))"

definition array_plain_char :: "char \<Rightarrow> bool" where
  "array_plain_char c \<longleftrightarrow> c \<notin> set [CHR '','', CHR ''{'', CHR ''}'', dq, bslash]"

definition array_elem :: "string \<Rightarrow> (string option \<times> string) option" where
  "array_elem s =
     (if s \<noteq> [] \<and> hd s = dq then map_option (\<lambda>(v, r). (Some v, r)) (array_quoted (tl s))
      else let v = trim (takeWhile array_plain_char s)
           in if v = [] then None
              else Some (if eq_ignore_ascii_case v ''NULL'' then None else Some v,
                         dropWhile array_plain_char s))"

fun array_elems :: "nat \<Rightarrow> string \<Rightarrow> string option list option" where
  "array_elems 0 s = None"
| "array_elems (Suc n) s =
     (case array_elem s of
        Some (v, c # r) \<Rightarrow>
          (if c = CHR '','' then map_option ((#) v) (array_elems n r)
           else if c = CHR ''}'' \<and> r = [] then Some [v] else None)
      | _ \<Rightarrow> None)"

definition array_read :: "string \<Rightarrow> string option list option" where
  "array_read s =
     (case s of
        c # r \<Rightarrow> (if c \<noteq> CHR ''{'' then None
                  else if r = [CHR ''}''] then Some [] else array_elems (length r) r)
      | [] \<Rightarrow> None)"

subsection \<open>Validation accepts exactly the values without NUL\<close>

lemma reject_null_bytes_iff:
  "reject_null_bytes v = Inr () \<longleftrightarrow> \<not> contains_nul v"
  "reject_null_bytes_items vs = Inr () \<longleftrightarrow> \<not> contains_nul_items vs"
  "reject_null_bytes_entries kvs = Inr () \<longleftrightarrow> \<not> contains_nul_entries kvs"
  by (induction v and vs and kvs
        rule: reject_null_bytes_reject_null_bytes_items_reject_null_bytes_entries.induct)
     (auto simp: res_bind_eq_Inr)

lemma reject_null_bytes_cases: "reject_null_bytes v = Inr () \<or> (\<exists>m. reject_null_bytes v = Inl (Validation m))"
  "reject_null_bytes_items vs = Inr () \<or> (\<exists>m. reject_null_bytes_items vs = Inl (Validation m))"
  "reject_null_bytes_entries kvs = Inr () \<or> (\<exists>m. reject_null_bytes_entries kvs = Inl (Validation m))"
  by (induction v and vs and kvs
        rule: reject_null_bytes_reject_null_bytes_items_reject_null_bytes_entries.induct) auto

lemma unique_states_bits_length [simp]: "length (unique_states_bits m) = 8"
  by (simp add: unique_states_bits_def)

lemma unique_states_bits_nth:
  "n < 8 \<Longrightarrow> unique_states_bits m ! n = (if bit m n then CHR ''1'' else CHR ''0'')"
  by (simp add: unique_states_bits_def bit_iff_and_push_bit_not_eq_0)

lemma inject_traceparent_object [simp]: "is_object (inject_traceparent env v) = is_object v"
  by (cases v) (auto split: option.split)

lemma prepare_raw_job_insert_Inr:
  "prepare_raw_job_insert env kind args opts = Inr row \<Longrightarrow>
     \<not> contains_nul (pi_args row) \<and> \<not> contains_nul (pi_metadata row) \<and>
     pi_kind row = kind \<and> pi_args row = args \<and> pi_queue row = io_queue opts \<and>
     pi_priority row = io_priority opts \<and> pi_max_attempts row = io_max_attempts opts \<and>
     pi_run_at row = io_run_at opts \<and> pi_tags row = io_tags opts \<and>
     pi_ordering_key row = io_ordering_key opts \<and>
     pi_metadata row = inject_traceparent env (io_metadata opts) \<and>
     (pi_state row = Scheduled \<longleftrightarrow> pi_run_at row \<noteq> None) \<and>
     (pi_state row = Available \<longleftrightarrow> pi_run_at row = None) \<and>
     (pi_unique_key row = None \<longleftrightarrow> io_unique opts = None) \<and>
     (pi_unique_states row = None \<longleftrightarrow> io_unique opts = None)"
  by (auto simp: prepare_raw_job_insert_def compute_unique_fields_def Let_def res_bind_eq_Inr
      reject_null_bytes_iff split: prod.splits if_splits)


subsection \<open>CSV round trip\<close>

lemma char_consts [simp]:
  "dq \<noteq> nl" "nl \<noteq> dq" "dq \<noteq> CHR '',''" "nl \<noteq> CHR '',''" "cr \<noteq> nl" "cr \<noteq> CHR '',''" "cr \<noteq> dq"
  "bslash \<noteq> dq" "dq \<noteq> bslash" "dq \<noteq> CHR ''{''" "dq \<noteq> CHR ''}''" "bslash \<noteq> CHR ''{''" "bslash \<noteq> CHR ''}''"
  "CHR '','' \<noteq> dq" "CHR '','' \<noteq> nl" "CHR ''}'' \<noteq> dq"
  "CHR ''{'' \<noteq> dq"
  by (simp_all add: dq_def nl_def cr_def bslash_def)

lemma csv_quoted_double_quotes:
  "c \<noteq> dq \<Longrightarrow> csv_quoted (double_quotes v @ dq # c # r) = Some (v, c # r)"
proof (induction v)
  case (Cons x v)
  then obtain d ds where "double_quotes v @ dq # c # r = d # ds"
    by (cases "double_quotes v @ dq # c # r") auto
  with Cons show ?case by (simp add: double_quotes_def)
qed (simp add: double_quotes_def)

lemma csv_plain_field:
  assumes "\<And>x. x \<in> set v \<Longrightarrow> csv_plain_char x" "\<not> csv_plain_char c" "c \<noteq> dq"
  shows "csv_field (v @ c # r) = Some (if v = copy_null_sentinel then None else Some v, c # r)"
proof -
  have "hd (v @ c # r) \<noteq> dq"
    using assms by (cases v) (auto simp: csv_plain_char_def)
  moreover have "takeWhile csv_plain_char (v @ c # r) = v" "dropWhile csv_plain_char (v @ c # r) = c # r"
    using assms by (auto simp: takeWhile_append dropWhile_append)
  ultimately show ?thesis by (simp add: csv_field_def Let_def)
qed

lemma csv_field_quoted:
  "c \<noteq> dq \<Longrightarrow> csv_field (dq # double_quotes v @ dq # c # r) = Some (Some v, c # r)"
  by (simp add: csv_field_def csv_quoted_double_quotes)

lemma csv_field_write [simp]:
  assumes "c = CHR '','' \<or> c = nl"
  shows "csv_field (write_csv_field v @ c # r) = Some (Some v, c # r)"
proof (cases "csv_needs_quotes v")
  case True
  then show ?thesis using assms csv_field_quoted [of c v r] by (auto simp: write_csv_field_def)
next
  case False
  have "csv_field (v @ c # r) = Some (if v = copy_null_sentinel then None else Some v, c # r)"
    using assms False by (intro csv_plain_field) (auto simp: csv_plain_char_def csv_needs_quotes_def)
  then show ?thesis using False by (simp add: write_csv_field_def csv_needs_quotes_def)
qed

lemma csv_field_sentinel:
  "c = CHR '','' \<or> c = nl \<Longrightarrow> csv_field (copy_null_sentinel @ c # r) = Some (None, c # r)"
  by (subst csv_plain_field)
     (auto simp: csv_plain_char_def copy_null_sentinel_def nl_def cr_def dq_def)

lemma csv_field_nullable [simp]:
  "c = CHR '','' \<or> c = nl \<Longrightarrow> csv_field (write_nullable f x @ c # r) = Some (map_option f x, c # r)"
  by (cases x) (auto simp: write_nullable_def csv_field_sentinel)

lemma string_of_int_chars: "x \<in> set (string_of_int i) \<Longrightarrow> is_digit x \<or> x = CHR ''-''"
  by (auto simp: string_of_int_def dest: string_of_nat_digits split: if_splits)

lemma digit_plain: "is_digit x \<or> x = CHR ''-'' \<Longrightarrow> csv_plain_char x \<and> x \<noteq> CHR ''_''"
  by (auto simp: is_digit_def csv_plain_char_def nl_def cr_def dq_def)

lemma csv_field_int [simp]:
  assumes "c = CHR '','' \<or> c = nl"
  shows "csv_field (string_of_int i @ c # r) = Some (Some (string_of_int i), c # r)"
proof -
  have "CHR ''_'' \<in> set copy_null_sentinel" by (simp add: copy_null_sentinel_def)
  then have "string_of_int i \<noteq> copy_null_sentinel"
    using string_of_int_chars digit_plain by metis
  then show ?thesis
    using assms string_of_int_chars digit_plain
    by (subst csv_plain_field) (auto simp: csv_plain_char_def)
qed

lemma double_quotes_Nil [simp]: "double_quotes [] = []"
  by (simp add: double_quotes_def)

lemma double_quotes_append [simp]: "double_quotes (a @ b) = double_quotes a @ double_quotes b"
  by (simp add: double_quotes_def)

lemma double_quotes_id: "dq \<notin> set v \<Longrightarrow> double_quotes v = v"
  by (induction v) (auto simp: double_quotes_def)

lemma double_quotes_Cons: "double_quotes (x # v) = (if x = dq then [dq, dq] else [x]) @ double_quotes v"
  by (simp add: double_quotes_def)

lemma write_pg_text_elem_eq: "write_pg_text_elem v = double_quotes (pg_array_elem v)"
proof (cases "array_needs_quotes v")
  case True
  have "concat (map (\<lambda>ch. if ch = dq then [bslash, dq, dq]
           else if ch = bslash then [bslash, bslash] else [ch]) v) =
        double_quotes (concat (map (\<lambda>ch. if ch = dq \<or> ch = bslash then [bslash, ch] else [ch]) v))"
    by (induction v) (auto simp: double_quotes_Cons double_quotes_def)
  with True show ?thesis
    by (simp add: write_pg_text_elem_def pg_array_elem_def double_quotes_Cons)
next
  case False
  then show ?thesis
    by (simp add: write_pg_text_elem_def pg_array_elem_def array_needs_quotes_def double_quotes_id)
qed

lemma comma_join_double_quotes: "comma_join (map double_quotes xs) = double_quotes (comma_join xs)"
  by (induction xs rule: comma_join.induct) (auto simp: double_quotes_Cons double_quotes_def)

lemma write_pg_text_array_eq: "write_pg_text_array ts = dq # double_quotes (pg_array_literal ts) @ [dq]"
proof -
  have "comma_join (map write_pg_text_elem ts) = double_quotes (comma_join (map pg_array_elem ts))"
    unfolding comma_join_double_quotes [symmetric] by (simp add: o_def write_pg_text_elem_eq cong: map_cong)
  then show ?thesis
    by (simp add: write_pg_text_array_def pg_array_literal_def double_quotes_Cons)
qed

lemma csv_field_array [simp]:
  "c = CHR '','' \<or> c = nl \<Longrightarrow>
     csv_field (write_pg_text_array ts @ c # r) = Some (Some (pg_array_literal ts), c # r)"
  using csv_field_quoted [of c "pg_array_literal ts" r] by (auto simp: write_pg_text_array_eq)

lemma csv_row_write: "csv_row 12 (write_csv_row env row @ r) = Some (csv_columns env row, r)"
  by (simp add: write_csv_row_def csv_columns_def numeral_eq_Suc option.map_ident)

text \<open>
  C31: bulk staging loses nothing. Reading the CSV text that is sent to Postgres gives back, for every
  prepared row and in order, exactly its twelve columns: every text byte for byte whatever commas,
  quotes, newlines or backslashes it contains, and NULL exactly where the option was absent, even when
  a text equals the NULL sentinel itself.
\<close>

theorem csv_staging_roundtrip:
  "csv_records 12 (length rows) (concat (map (write_csv_row env) rows)) =
     Some (map (csv_columns env) rows)"
  by (induction rows) (simp_all add: csv_row_write)

subsection \<open>Array literals\<close>

lemma array_quoted_escape:
  "array_quoted (concat (map (\<lambda>ch. if ch = dq \<or> ch = bslash then [bslash, ch] else [ch]) v) @ dq # c # r) =
     Some (v, c # r)"
proof (induction v)
  case (Cons x v)
  let ?rest = "concat (map (\<lambda>ch. if ch = dq \<or> ch = bslash then [bslash, ch] else [ch]) v) @ dq # c # r"
  obtain d ds where "?rest = d # ds" by (cases ?rest) auto
  with Cons show ?case by auto
qed simp

lemma array_elem_write:
  assumes "array_needs_quotes v \<or> trim v = v" "c = CHR '','' \<or> c = CHR ''}''"
  shows "array_elem (pg_array_elem v @ c # r) = Some (Some v, c # r)"
proof (cases "array_needs_quotes v")
  case True
  then show ?thesis by (simp add: array_elem_def pg_array_elem_def array_quoted_escape)
next
  case False
  then have "v \<noteq> []" and plain: "\<And>x. x \<in> set v \<Longrightarrow> array_plain_char x"
    by (auto simp: array_needs_quotes_def array_plain_char_def)
  moreover from this have "hd (v @ c # r) \<noteq> dq"
    using assms(2) by (cases v) (auto simp: array_plain_char_def)
  moreover have "takeWhile array_plain_char (v @ c # r) = v" "dropWhile array_plain_char (v @ c # r) = c # r"
    using plain assms(2) by (auto simp: takeWhile_append dropWhile_append array_plain_char_def)
  ultimately show ?thesis
    using False assms(1)
    by (simp add: array_elem_def pg_array_elem_def Let_def) (simp add: array_needs_quotes_def)
qed

lemma array_elems_write:
  assumes "list_all (\<lambda>t. array_needs_quotes t \<or> trim t = t) ts" "ts \<noteq> []" "length ts \<le> n"
  shows "array_elems n (comma_join (map pg_array_elem ts) @ [CHR ''}'']) = Some (map Some ts)"
  using assms
proof (induction ts arbitrary: n rule: induct_list012)
  case (2 x)
  then show ?case by (cases n) (simp_all add: array_elem_write)
next
  case (3 x y zs)
  then obtain m where "n = Suc m" by (cases n) auto
  with 3 show ?case by (simp add: array_elem_write)
qed simp

lemma pg_array_elem_nonempty [simp]: "pg_array_elem v \<noteq> []"
  by (auto simp: pg_array_elem_def array_needs_quotes_def)

lemma comma_join_length: "length ts \<le> length (comma_join (map pg_array_elem ts))"
proof (induction ts rule: induct_list012)
  case (2 x)
  then show ?case by (simp add: Suc_leI)
qed auto

text \<open>
  the array literal written for the tags of a staged row reads back as exactly those tags, none of
  them NULL, whenever no tag that is written without quotes begins or ends with white space. (Tags
  containing a space, a comma, quotes, braces, backslashes, the empty tag and the word NULL are all
  quoted and need no condition.)
\<close>

theorem tags_literal_roundtrip:
  assumes "list_all (\<lambda>t. array_needs_quotes t \<or> trim t = t) tags"
  shows "array_read (pg_array_literal tags) = Some (map Some tags)"
proof (cases tags)
  case Nil
  then show ?thesis by (simp add: array_read_def pg_array_literal_def)
next
  case (Cons t ts)
  let ?body = "comma_join (map pg_array_elem tags)"
  have "?body \<noteq> []" using comma_join_length [of tags] Cons by auto
  moreover have "array_elems (length (?body @ [CHR ''}''])) (?body @ [CHR ''}'']) = Some (map Some tags)"
    using assms Cons comma_join_length [of tags] by (intro array_elems_write) auto
  ultimately show ?thesis by (simp add: array_read_def pg_array_literal_def)
qed

theorem tags_literal_roundtrip_witness:
  "list_all (\<lambda>t. array_needs_quotes t \<or> trim t = t) [''a,b'', [], ''null'', ''x''] \<and>
   array_read (pg_array_literal [''a,b'', [], ''null'', ''x'']) =
     Some [Some ''a,b'', Some [], Some ''null'', Some ''x'']"
proof -
  have h: "list_all (\<lambda>t. array_needs_quotes t \<or> trim t = t) [''a,b'', [], ''null'', ''x'']"
    by code_simp
  from tags_literal_roundtrip [OF h] h show ?thesis by simp
qed

text \<open>
  A tag that starts with a tab is written without quotes, so the array reader drops the tab: the
  condition of the round trip is needed.
\<close>

lemma tags_literal_tab_lost:
  "array_read (pg_array_literal [[CHR 0x09, CHR ''a'']]) = Some [Some ''a'']"
  by code_simp

end
