(* ===== verification/Awa_Routing.thy ===== *)
theory Awa_Routing
  imports Awa_Job
begin

section \<open>Configuration and routing\<close>

text \<open>
  Where a job goes: the configuration checks of \<^verbatim>\<open>QueueStorage::new\<close>, the portable ordering-key hash
  and the choice of an enqueue shard, the striping of a logical queue over physical queues, the
  terminal-counter buckets (all of \<^verbatim>\<open>awa-model/src/queue_storage.rs\<close>), and the partitioned queues of
  \<^verbatim>\<open>partitioned_queue.rs\<close>. The hash of the SQL producer (\<^verbatim>\<open>v018_insert_job_compat_ordering_key.sql\<close>)
  is modelled beside the Rust one, and the two are shown to route every key to the same shard.

  The in-process counters (\<^verbatim>\<open>shard_rotor\<close>, an \<^verbatim>\<open>AtomicU16\<close>, and \<^verbatim>\<open>next_stripe_probe\<close>, an
  \<^verbatim>\<open>AtomicUsize\<close>) are words of their width, so that their wrap-around is the code's. The hash of
  \<^verbatim>\<open>DefaultHasher\<close>, whose algorithm the standard library leaves unspecified, is an argument.
\<close>

unbundle bit_operations_syntax

subsection \<open>Configuration\<close>

record queue_storage_config =
  cfg_schema :: string
  cfg_queue_slot_count :: nat
  cfg_lease_slot_count :: nat
  cfg_claim_slot_count :: nat
  cfg_queue_stripe_count :: nat
  cfg_lease_claim_receipts :: bool

definition default_schema :: string where "default_schema = ''awa''"
definition default_queue_slot_count :: nat where "default_queue_slot_count = 16"
definition default_lease_slot_count :: nat where "default_lease_slot_count = 8"
definition default_claim_slot_count :: nat where "default_claim_slot_count = 8"
definition default_queue_stripe_count :: nat where "default_queue_stripe_count = 1"

definition queue_storage_config_default :: queue_storage_config where
  "queue_storage_config_default =
    \<lparr> cfg_schema = default_schema, cfg_queue_slot_count = default_queue_slot_count,
      cfg_lease_slot_count = default_lease_slot_count,
      cfg_claim_slot_count = default_claim_slot_count,
      cfg_queue_stripe_count = default_queue_stripe_count, cfg_lease_claim_receipts = True \<rparr>"

definition ident_start :: "char \<Rightarrow> bool" where
  "ident_start c \<longleftrightarrow> is_lowercase c \<or> c = CHR ''_''"

definition ident_char :: "char \<Rightarrow> bool" where
  "ident_char c \<longleftrightarrow> is_lowercase c \<or> is_digit c \<or> c = CHR ''_''"

definition validate_ident :: "string \<Rightarrow> awa_error + unit" where
  "validate_ident ident =
     (let err = Inl (Validation (''invalid SQL identifier: '' @ ident)) in
      case ident of
        [] \<Rightarrow> err
      | first # rest \<Rightarrow>
          (if ident_start first then (if list_all ident_char rest then Inr () else err) else err))"

text \<open>
  The process-local part of a store that routing reads and writes: the two counters and the cached
  shard counts.
\<close>

record store_local =
  sl_shard_rotor :: "16 word"
  sl_next_stripe_probe :: "64 word"
  sl_enqueue_shards_cache :: "string \<rightharpoonup> int"

record queue_storage =
  qs_config :: queue_storage_config
  qs_local :: store_local

definition queue_storage_new :: "queue_storage_config \<Rightarrow> awa_error + queue_storage" where
  "queue_storage_new config =
    (if cfg_queue_slot_count config < 4
     then Inl (Validation ''queue storage requires at least 4 queue slots'')
     else if cfg_lease_slot_count config < 2
     then Inl (Validation ''queue storage requires at least 2 lease slots'')
     else if cfg_claim_slot_count config < 2
     then Inl (Validation ''queue storage requires at least 2 claim slots'')
     else if cfg_queue_stripe_count config = 0
     then Inl (Validation ''queue storage requires at least 1 queue stripe'')
     else if cfg_schema config = default_schema
             \<and> (cfg_queue_slot_count config \<noteq> default_queue_slot_count
                \<or> cfg_lease_slot_count config \<noteq> default_lease_slot_count
                \<or> cfg_claim_slot_count config \<noteq> default_claim_slot_count
                \<or> \<not> cfg_lease_claim_receipts config)
     then Inl (Validation (''the default `awa` queue-storage schema must use the default slot counts and '' @
                           ''lease_claim_receipts=true''))
     else res_bind (validate_ident (cfg_schema config)) (\<lambda>_.
            Inr \<lparr> qs_config = config,
                  qs_local = \<lparr> sl_shard_rotor = 0, sl_next_stripe_probe = 0,
                               sl_enqueue_shards_cache = Map.empty \<rparr> \<rparr>))"

subsection \<open>Ordering keys and enqueue shards\<close>

definition hash_step :: "128 word \<Rightarrow> char \<Rightarrow> 128 word" where
  "hash_step hash byte =
     (hash * 1099511628211 + of_nat (of_char byte)) AND 0xFFFFFFFFFFFFFFFF"

definition ordering_key_hash64 :: "bytes \<Rightarrow> 64 word" where
  "ordering_key_hash64 ordering_key = ucast (foldl hash_step 14695981039346656037 ordering_key)"

definition shard_for_ordering_key :: "bytes \<Rightarrow> int \<Rightarrow> int" where
  "shard_for_ordering_key ordering_key shards =
     (if shards \<le> 1 then 0
      else uint (ordering_key_hash64 ordering_key mod word_of_int shards))"

definition sql_hash_step :: "int \<Rightarrow> char \<Rightarrow> int" where
  "sql_hash_step v_hash byte =
     (v_hash * 1099511628211 + of_nat (of_char byte)) mod 18446744073709551616"

definition sql_enqueue_shard :: "bytes \<Rightarrow> int \<Rightarrow> int" where
  "sql_enqueue_shard p_ordering_key v_enqueue_shards =
     foldl sql_hash_step 14695981039346656037 p_ordering_key mod v_enqueue_shards"

definition pick_shard :: "int \<Rightarrow> bytes option \<Rightarrow> store_local \<Rightarrow> int \<times> store_local" where
  "pick_shard shards ordering_key st =
     (if shards \<le> 1 then (0, st)
      else case ordering_key of
             Some key \<Rightarrow> (shard_for_ordering_key key shards, st)
           | None \<Rightarrow> (let raw = uint (sl_shard_rotor st)
                     in (raw mod shards, st\<lparr>sl_shard_rotor := sl_shard_rotor st + 1\<rparr>)))"

text \<open>
  \<open>queue_meta\<close> is the configured number of shards of a queue, absent when the queue has no row.
\<close>

definition shard_for_enqueue ::
  "(string \<rightharpoonup> int) \<Rightarrow> string \<Rightarrow> bytes option \<Rightarrow> store_local \<Rightarrow> int \<times> store_local" where
  "shard_for_enqueue queue_meta queue ordering_key st =
     (case sl_enqueue_shards_cache st queue of
        Some cached \<Rightarrow> pick_shard cached ordering_key st
      | None \<Rightarrow>
          let shards = max (case queue_meta queue of None \<Rightarrow> 1 | Some n \<Rightarrow> n) 1
          in pick_shard shards ordering_key
               (st\<lparr>sl_enqueue_shards_cache := (sl_enqueue_shards_cache st)(queue \<mapsto> shards)\<rparr>))"

definition terminal_counter_buckets :: int where
  "terminal_counter_buckets = 256"

definition terminal_counter_bucket :: "job_id \<Rightarrow> int" where
  "terminal_counter_bucket job_id = job_id mod terminal_counter_buckets"

subsection \<open>Queue stripes\<close>

definition queue_stripe_delimiter :: char where
  "queue_stripe_delimiter = CHR ''#''"

definition rsplit_once :: "char \<Rightarrow> string \<Rightarrow> (string \<times> string) option" where
  "rsplit_once d s =
     (if d \<in> set s
      then Some (rev (tl (dropWhile (\<lambda>c. c \<noteq> d) (rev s))), rev (takeWhile (\<lambda>c. c \<noteq> d) (rev s)))
      else None)"

definition parse_usize :: "string \<Rightarrow> nat option" where
  "parse_usize s =
     (let digits = (if s \<noteq> [] \<and> hd s = CHR ''+'' then tl s else s) in
      if digits = [] then None
      else case parse_digits 0 digits of
             None \<Rightarrow> None
           | Some n \<Rightarrow> (if n < 2 ^ 64 then Some n else None))"

definition uses_queue_striping :: "queue_storage_config \<Rightarrow> bool" where
  "uses_queue_striping cfg \<longleftrightarrow> cfg_queue_stripe_count cfg > 1"

definition is_physical_stripe_queue :: "queue_storage_config \<Rightarrow> string \<Rightarrow> bool" where
  "is_physical_stripe_queue cfg queue \<longleftrightarrow>
     uses_queue_striping cfg \<and>
     (case rsplit_once queue_stripe_delimiter queue of
        None \<Rightarrow> False
      | Some (_, suffix) \<Rightarrow> parse_usize suffix \<noteq> None)"

definition physical_queue_for_stripe :: "string \<Rightarrow> nat \<Rightarrow> string" where
  "physical_queue_for_stripe queue stripe = queue @ [queue_stripe_delimiter] @ string_of_nat stripe"

definition physical_queues_for_logical :: "queue_storage_config \<Rightarrow> string \<Rightarrow> string list" where
  "physical_queues_for_logical cfg queue =
     (if \<not> uses_queue_striping cfg \<or> is_physical_stripe_queue cfg queue then [queue]
      else map (physical_queue_for_stripe queue) [0..<cfg_queue_stripe_count cfg])"

definition stripe_probe_start :: "nat \<Rightarrow> store_local \<Rightarrow> nat \<times> store_local" where
  "stripe_probe_start stripe_count st =
     (if stripe_count \<le> 1 then (0, st)
      else (unat (sl_next_stripe_probe st) mod stripe_count,
            st\<lparr>sl_next_stripe_probe := sl_next_stripe_probe st + 1\<rparr>))"

definition logical_queue_name :: "queue_storage_config \<Rightarrow> string \<Rightarrow> string" where
  "logical_queue_name cfg queue =
     (if \<not> uses_queue_striping cfg then queue
      else case rsplit_once queue_stripe_delimiter queue of
             None \<Rightarrow> queue
           | Some (prefix, suffix) \<Rightarrow> (if parse_usize suffix \<noteq> None then prefix else queue))"

definition queue_stripe_for_enqueue ::
  "(bytes \<Rightarrow> 64 word) \<Rightarrow> queue_storage_config \<Rightarrow> string \<Rightarrow> bytes option \<Rightarrow> int \<Rightarrow> string" where
  "queue_stripe_for_enqueue default_hash cfg queue unique_key salt =
     (if \<not> uses_queue_striping cfg \<or> is_physical_stripe_queue cfg queue then queue
      else let stripe = (case unique_key of
                           Some key \<Rightarrow> unat (default_hash key) mod cfg_queue_stripe_count cfg
                         | None \<Rightarrow> nat (salt mod int (cfg_queue_stripe_count cfg)))
           in physical_queue_for_stripe queue stripe)"

subsection \<open>Partitioned queues\<close>

datatype partitioned_queue_error =
    EmptyLogicalQueue
  | ZeroPartitions
  | TooManyPhysicalQueues nat nat
  | EmptyPhysicalQueue
  | DuplicatePhysicalQueue string

record partitioned_queue =
  pq_logical_queue :: string
  pq_physical_queues :: "string list"

definition validate_logical_queue :: "string \<Rightarrow> partitioned_queue_error + unit" where
  "validate_logical_queue q = (if q = [] then Inl EmptyLogicalQueue else Inr ())"

definition validate_physical_count :: "nat \<Rightarrow> partitioned_queue_error + unit" where
  "validate_physical_count n =
     (if n = 0 then Inl ZeroPartitions
      else if n > nat i16_max then Inl (TooManyPhysicalQueues n (nat i16_max))
      else Inr ())"

fun validate_physical_queues_from :: "string list \<Rightarrow> string list \<Rightarrow> partitioned_queue_error + unit" where
  "validate_physical_queues_from seen [] = Inr ()"
| "validate_physical_queues_from seen (q # qs) =
     (if q = [] then Inl EmptyPhysicalQueue
      else if q \<in> set seen then Inl (DuplicatePhysicalQueue q)
      else validate_physical_queues_from (q # seen) qs)"

definition validate_physical_queues :: "string list \<Rightarrow> partitioned_queue_error + unit" where
  "validate_physical_queues queues = validate_physical_queues_from [] queues"

definition partitioned_queue_new :: "string \<Rightarrow> nat \<Rightarrow> partitioned_queue_error + partitioned_queue" where
  "partitioned_queue_new logical_queue n =
     res_bind (validate_logical_queue logical_queue) (\<lambda>_.
     res_bind (validate_physical_count n) (\<lambda>_.
       Inr \<lparr> pq_logical_queue = logical_queue,
             pq_physical_queues =
               logical_queue # map (\<lambda>idx. logical_queue @ ''__p'' @ string_of_nat idx) [1..<n] \<rparr>))"

definition from_physical_queues ::
  "string \<Rightarrow> string list \<Rightarrow> partitioned_queue_error + partitioned_queue" where
  "from_physical_queues logical_queue queues =
     res_bind (validate_logical_queue logical_queue) (\<lambda>_.
     res_bind (validate_physical_count (length queues)) (\<lambda>_.
     res_bind (validate_physical_queues queues) (\<lambda>_.
       Inr \<lparr> pq_logical_queue = logical_queue, pq_physical_queues = queues \<rparr>)))"

definition n_partitions :: "partitioned_queue \<Rightarrow> nat" where
  "n_partitions pq = length (pq_physical_queues pq)"

definition partition_hash64 :: "bytes \<Rightarrow> 64 word" where
  "partition_hash64 ordering_key =
     (let v0 = ordering_key_hash64 ordering_key XOR 0x9d4d1b2f53a70c91;
          v1 = v0 XOR drop_bit 30 v0;
          v2 = v1 * 0xbf58476d1ce4e5b9;
          v3 = v2 XOR drop_bit 27 v2;
          v4 = v3 * 0x94d049bb133111eb
      in v4 XOR drop_bit 31 v4)"

definition partition_for_ordering_key :: "bytes \<Rightarrow> nat \<Rightarrow> nat" where
  "partition_for_ordering_key ordering_key n =
     (if n \<le> 1 then 0 else unat (partition_hash64 ordering_key mod of_nat n))"

definition queue_for_key :: "partitioned_queue \<Rightarrow> bytes \<Rightarrow> string" where
  "queue_for_key pq key = pq_physical_queues pq ! partition_for_ordering_key key (n_partitions pq)"

definition queue_for_index :: "partitioned_queue \<Rightarrow> nat \<Rightarrow> string" where
  "queue_for_index pq index = pq_physical_queues pq ! (index mod n_partitions pq)"

definition route_opts_by_key :: "partitioned_queue \<Rightarrow> insert_opts \<Rightarrow> bytes \<Rightarrow> insert_opts" where
  "route_opts_by_key pq opts key =
     opts\<lparr>io_queue := queue_for_key pq key, io_ordering_key := Some key\<rparr>"

definition route_opts_by_index :: "partitioned_queue \<Rightarrow> insert_opts \<Rightarrow> nat \<Rightarrow> insert_opts" where
  "route_opts_by_index pq opts index = opts\<lparr>io_queue := queue_for_index pq index\<rparr>"

subsection \<open>The hash of the two producers\<close>


lemma hash_step_uint:
  assumes "uint h < 2 ^ 64"
  shows "uint (hash_step h c) = sql_hash_step (uint h) c"
proof -
  let ?b = "int (of_char c)"
  have h: "0 \<le> uint h" "uint h < 18446744073709551616" using assms by simp_all
  have b: "0 \<le> ?b" "?b < 256" using nat_of_char_less_256 [of c] by linarith+
  have "uint (h * 1099511628211 + of_nat (of_char c)) =
        (uint h * 1099511628211 + ?b) mod 340282366920938463463374607431768211456"
    by (simp add: uint_word_ariths unsigned_of_nat take_bit_eq_mod zmod_int mod_simps)
  also have "\<dots> = uint h * 1099511628211 + ?b"
    by (rule mod_pos_pos_trivial) (use h b in linarith)+
  finally have "uint (h * 1099511628211 + of_nat (of_char c)) = uint h * 1099511628211 + ?b" .
  moreover have "x AND 18446744073709551615 = x mod 18446744073709551616" for x :: int
    using take_bit_eq_mask [of 64 x] by (simp add: take_bit_eq_mod mask_eq_exp_minus_1)
  ultimately show ?thesis
    by (simp add: hash_step_def sql_hash_step_def uint_and)
qed

lemma sql_hash_step_bounds: "0 \<le> sql_hash_step h c" "sql_hash_step h c < 2 ^ 64"
  by (simp_all add: sql_hash_step_def)

lemma hash_fold_uint:
  "uint h < 2 ^ 64 \<Longrightarrow> uint (foldl hash_step h key) = foldl sql_hash_step (uint h) key"
proof (induction key arbitrary: h)
  case (Cons c key)
  moreover have "uint (hash_step h c) < 2 ^ 64"
    using Cons.prems sql_hash_step_bounds(2) hash_step_uint by metis
  ultimately show ?case by (simp add: hash_step_uint)
qed simp

lemma sql_hash_fold_bounds:
  "0 \<le> h \<Longrightarrow> h < 2 ^ 64 \<Longrightarrow> 0 \<le> foldl sql_hash_step h key \<and> foldl sql_hash_step h key < 2 ^ 64"
  by (induction key arbitrary: h) (auto simp: sql_hash_step_bounds simp del: power_numeral)

lemma ordering_key_hash64_uint:
  "uint (ordering_key_hash64 key) = foldl sql_hash_step 14695981039346656037 key"
proof -
  have "uint (foldl hash_step 14695981039346656037 key) = foldl sql_hash_step 14695981039346656037 key"
    using hash_fold_uint [of 14695981039346656037 key] by simp
  moreover have "foldl sql_hash_step 14695981039346656037 key < 2 ^ 64"
    using sql_hash_fold_bounds [of 14695981039346656037 key] by simp
  moreover have "0 \<le> foldl sql_hash_step 14695981039346656037 key"
    using sql_hash_fold_bounds [of 14695981039346656037 key] by simp
  ultimately show ?thesis
    by (simp add: ordering_key_hash64_def unsigned_ucast_eq take_bit_eq_mod)
qed

lemma shard_for_ordering_key_mod:
  assumes "0 < shards" "shards \<le> i16_max"
  shows "shard_for_ordering_key key shards =
           foldl sql_hash_step 14695981039346656037 key mod shards"
proof (cases "shards \<le> 1")
  case True
  with assms have "shards = 1" by simp
  then show ?thesis by (simp add: shard_for_ordering_key_def)
next
  case False
  with assms show ?thesis
    by (simp add: shard_for_ordering_key_def uint_mod ordering_key_hash64_uint uint_word_of_int
        i16_max_def mod_pos_pos_trivial)
qed

text \<open>
  C32: every producer routes an ordering key alike. For every admissible number of shards, the shard
  that the Rust producer derives with 128-bit arithmetic and a mask is the shard that the SQL producer
  derives with exact integers modulo \<open>2 ^ 64\<close>; it lies in \<open>[0, shards)\<close>; and picking it neither
  depends on nor advances the rotor, so jobs that share a key always share a shard.
\<close>

theorem shard_for_ordering_key_portable:
  assumes "0 < shards" "shards \<le> i16_max"
  shows "shard_for_ordering_key key shards = sql_enqueue_shard key shards \<and>
         0 \<le> shard_for_ordering_key key shards \<and> shard_for_ordering_key key shards < shards \<and>
         pick_shard shards (Some key) st = (sql_enqueue_shard key shards, st)"
proof -
  have "shard_for_ordering_key key shards = sql_enqueue_shard key shards"
    using assms by (simp add: shard_for_ordering_key_mod sql_enqueue_shard_def)
  moreover have "0 \<le> sql_enqueue_shard key shards" "sql_enqueue_shard key shards < shards"
    using assms by (simp_all add: sql_enqueue_shard_def)
  moreover have "shards \<le> 1 \<Longrightarrow> sql_enqueue_shard key shards = 0"
    using calculation(2,3) by linarith
  ultimately show ?thesis by (auto simp: pick_shard_def)
qed

theorem shard_for_ordering_key_portable_witness:
  "shard_for_ordering_key ''customer-42'' 4 = sql_enqueue_shard ''customer-42'' 4 \<and>
   shard_for_ordering_key ''customer-42'' 4 < 4"
  using shard_for_ordering_key_portable [of 4 "''customer-42''" "\<lparr>sl_shard_rotor = 7,
      sl_next_stripe_probe = 0, sl_enqueue_shards_cache = Map.empty\<rparr>"]
  by (simp add: i16_max_def)

subsection \<open>The rotor\<close>

lemma pick_shard_range:
  "0 \<le> fst (pick_shard shards key st) \<and>
   (shards \<le> i16_max \<longrightarrow> fst (pick_shard shards key st) < max shards 1)"
proof (cases "shards \<le> 1")
  case False
  then show ?thesis
    using shard_for_ordering_key_mod [of shards]
    by (auto simp: pick_shard_def Let_def max_def shard_for_ordering_key_def split: option.split)
qed (simp add: pick_shard_def)

definition rotor_picks :: "int \<Rightarrow> nat \<Rightarrow> store_local \<Rightarrow> int list" where
  "rotor_picks shards n st =
     map (\<lambda>i. fst (pick_shard shards None (((\<lambda>s. snd (pick_shard shards None s)) ^^ i) st))) [0..<n]"

lemma pick_shard_None:
  "1 < shards \<Longrightarrow> fst (pick_shard shards None st) = uint (sl_shard_rotor st) mod shards"
  by (simp add: pick_shard_def Let_def)

lemma rotor_iterate:
  "1 < shards \<Longrightarrow>
     sl_shard_rotor (((\<lambda>s. snd (pick_shard shards None s)) ^^ i) st) = sl_shard_rotor st + of_nat i"
  by (induction i) (simp_all add: pick_shard_def Let_def)

lemma rotor_pick_eq:
  assumes "1 < shards" "uint (sl_shard_rotor st) + int i < 2 ^ 16"
  shows "fst (pick_shard shards None (((\<lambda>s. snd (pick_shard shards None s)) ^^ i) st)) =
           (uint (sl_shard_rotor st) + int i) mod shards"
proof -
  have "int i < 2 ^ 16" using assms(2) uint_ge_0 [of "sl_shard_rotor st"] by linarith
  then have "uint (sl_shard_rotor st + of_nat i) = uint (sl_shard_rotor st) + int i"
    using assms(2) by (simp add: uint_word_ariths unsigned_of_nat take_bit_eq_mod)
  then show ?thesis using assms(1) by (simp only: pick_shard_None rotor_iterate)
qed

lemma mod_window_distinct:
  assumes "0 < (n :: int)" "int k \<le> n"
  shows "distinct (map (\<lambda>i. (a + int i) mod n) [0..<k])"
proof -
  have "i = j" if "i < k" "j < k" "(a + int i) mod n = (a + int j) mod n" for i j
  proof -
    have "n dvd (int i - int j)" using that(3) by (simp add: mod_eq_dvd_iff)
    moreover have "\<bar>int i - int j\<bar> < n" using that(1,2) assms by auto
    ultimately show "i = j" using dvd_imp_le_int [of "int i - int j" n] by auto
  qed
  then show ?thesis by (auto simp: distinct_map inj_on_def)
qed

text \<open>
  without an ordering key the rotor is fair: any window of as many consecutive picks as there are
  shards, not crossing the wrap-around of the 16-bit counter, hits every shard exactly once.
\<close>

theorem rotor_round_robin:
  assumes "1 < shards" "uint (sl_shard_rotor st) + shards \<le> 2 ^ 16"
  shows "distinct (rotor_picks shards (nat shards) st) \<and>
         set (rotor_picks shards (nat shards) st) = {0..<shards}"
proof -
  have eq: "rotor_picks shards (nat shards) st =
      map (\<lambda>i. (uint (sl_shard_rotor st) + int i) mod shards) [0..<nat shards]"
    unfolding rotor_picks_def using assms by (intro map_cong) (auto intro!: rotor_pick_eq)
  then have d: "distinct (rotor_picks shards (nat shards) st)"
    using assms mod_window_distinct [of shards "nat shards"] by simp
  have "set (rotor_picks shards (nat shards) st) \<subseteq> {0..<shards}"
    using assms by (auto simp: eq)
  moreover have "card (set (rotor_picks shards (nat shards) st)) = card {0..<shards}"
    using d by (simp add: distinct_card) (simp add: eq)
  ultimately show ?thesis using d card_subset_eq [of "{0..<shards}"] by auto
qed

theorem rotor_round_robin_witness:
  "distinct (rotor_picks 3 3 \<lparr>sl_shard_rotor = 7, sl_next_stripe_probe = 0,
                              sl_enqueue_shards_cache = Map.empty\<rparr>) \<and>
   set (rotor_picks 3 3 \<lparr>sl_shard_rotor = 7, sl_next_stripe_probe = 0,
                         sl_enqueue_shards_cache = Map.empty\<rparr>) = {0..<3}"
  using rotor_round_robin [of 3 "\<lparr>sl_shard_rotor = 7, sl_next_stripe_probe = 0,
                              sl_enqueue_shards_cache = Map.empty\<rparr>"] by simp

subsection \<open>Stripes\<close>

lemma rsplit_once_append:
  "d \<notin> set suffix \<Longrightarrow> rsplit_once d (prefix @ d # suffix) = Some (prefix, suffix)"
proof -
  assume d: "d \<notin> set suffix"
  then have "takeWhile (\<lambda>c. c \<noteq> d) (rev suffix @ d # rev prefix) = rev suffix"
    by (intro takeWhile_segment) simp_all
  then show ?thesis by (simp add: rsplit_once_def dropWhile_eq_drop)
qed

lemma delimiter_not_digit [simp]: "\<not> is_digit queue_stripe_delimiter"
  by (simp add: is_digit_def queue_stripe_delimiter_def)

lemma parse_usize_string_of_nat: "n < 2 ^ 64 \<Longrightarrow> parse_usize (string_of_nat n) = Some n"
proof -
  assume n: "n < 2 ^ 64"
  have "hd (string_of_nat n) \<noteq> CHR ''+''"
    using string_of_nat_digits [of "hd (string_of_nat n)" n] by (auto simp: is_digit_def)
  with n show ?thesis by (simp add: parse_usize_def)
qed

lemma rsplit_physical: "rsplit_once queue_stripe_delimiter (physical_queue_for_stripe q s) = Some (q, string_of_nat s)"
  unfolding physical_queue_for_stripe_def append_Cons append_Nil
  by (rule rsplit_once_append) (use string_of_nat_digits delimiter_not_digit in blast)

lemma logical_of_physical:
  "s < 2 ^ 64 \<Longrightarrow> uses_queue_striping cfg \<Longrightarrow>
     logical_queue_name cfg (physical_queue_for_stripe q s) = q"
  by (simp add: logical_queue_name_def rsplit_physical parse_usize_string_of_nat)

lemma physical_queue_inject [simp]:
  "physical_queue_for_stripe q s = physical_queue_for_stripe q t \<longleftrightarrow> s = t"
  by (simp add: physical_queue_for_stripe_def)

lemma not_physical_logical: "\<not> is_physical_stripe_queue cfg q \<Longrightarrow> logical_queue_name cfg q = q"
  by (auto simp: logical_queue_name_def is_physical_stripe_queue_def split: option.splits)

text \<open>
  C34: striping is lossless. For a logical queue (one that does not itself spell a stripe), every
  enqueue goes to one of the physical queues that claimers probe for that queue; these are pairwise
  distinct, as many as configured, and each maps back to the logical name; and two jobs with the same
  unique key go to the same physical queue whatever their salts, so that uniqueness is decided within
  one stripe.
\<close>

theorem striping_correct:
  assumes "\<not> is_physical_stripe_queue cfg q" "0 < cfg_queue_stripe_count cfg"
    "cfg_queue_stripe_count cfg < 2 ^ 63"
  shows "queue_stripe_for_enqueue h cfg q key salt \<in> set (physical_queues_for_logical cfg q) \<and>
         distinct (physical_queues_for_logical cfg q) \<and>
         length (physical_queues_for_logical cfg q) = cfg_queue_stripe_count cfg \<and>
         map (logical_queue_name cfg) (physical_queues_for_logical cfg q) =
           replicate (cfg_queue_stripe_count cfg) q \<and>
         queue_stripe_for_enqueue h cfg q (Some k) salt = queue_stripe_for_enqueue h cfg q (Some k) salt'"
proof (cases "uses_queue_striping cfg")
  case False
  with assms(2) have "cfg_queue_stripe_count cfg = 1" by (simp add: uses_queue_striping_def)
  with False show ?thesis
    by (simp add: queue_stripe_for_enqueue_def physical_queues_for_logical_def logical_queue_name_def)
next
  case True
  let ?n = "cfg_queue_stripe_count cfg"
  have phys: "physical_queues_for_logical cfg q = map (physical_queue_for_stripe q) [0..<?n]"
    using True assms(1) by (simp add: physical_queues_for_logical_def)
  have "nat (salt mod int ?n) < ?n" using assms(2) by (simp add: nat_less_iff)
  then have "queue_stripe_for_enqueue h cfg q key salt \<in> set (physical_queues_for_logical cfg q)"
    using True assms(1,2) unfolding phys
    by (auto simp: queue_stripe_for_enqueue_def Let_def split: option.split)
  moreover have "map (logical_queue_name cfg) (physical_queues_for_logical cfg q) = replicate ?n q"
    using True assms(3) unfolding phys by (intro nth_equalityI) (simp_all add: logical_of_physical)
  ultimately show ?thesis
    by (simp add: phys distinct_map inj_on_def queue_stripe_for_enqueue_def)
qed

theorem striping_correct_witness:
  "queue_stripe_for_enqueue (\<lambda>_. 5) (queue_storage_config_default\<lparr>cfg_queue_stripe_count := 3\<rparr>)
       ''email'' None 7
     \<in> set (physical_queues_for_logical (queue_storage_config_default\<lparr>cfg_queue_stripe_count := 3\<rparr>) ''email'')"
proof -
  let ?c = "queue_storage_config_default\<lparr>cfg_queue_stripe_count := 3\<rparr>"
  have "\<not> is_physical_stripe_queue ?c ''email''" by code_simp
  from striping_correct [OF this, where h = "\<lambda>_. 5" and key = None and salt = 7] show ?thesis by simp
qed

subsection \<open>Partitions\<close>

lemma validate_physical_queues_from_Inr:
  "validate_physical_queues_from seen qs = Inr () \<longleftrightarrow>
     distinct qs \<and> [] \<notin> set qs \<and> set qs \<inter> set seen = {}"
  by (induction seen qs rule: validate_physical_queues_from.induct) auto

definition partitioned_queue_wf :: "partitioned_queue \<Rightarrow> bool" where
  "partitioned_queue_wf pq \<longleftrightarrow>
     pq_logical_queue pq \<noteq> [] \<and> pq_physical_queues pq \<noteq> [] \<and> distinct (pq_physical_queues pq) \<and>
     [] \<notin> set (pq_physical_queues pq) \<and> length (pq_physical_queues pq) \<le> nat i16_max"

lemma partitioned_queue_new_wf:
  "partitioned_queue_new q n = Inr pq \<Longrightarrow> partitioned_queue_wf pq \<and> n_partitions pq = n"
  by (auto simp: partitioned_queue_new_def partitioned_queue_wf_def n_partitions_def
      validate_logical_queue_def validate_physical_count_def res_bind_eq_Inr distinct_map inj_on_def
      split: if_splits)

lemma from_physical_queues_wf:
  "from_physical_queues q qs = Inr pq \<Longrightarrow> partitioned_queue_wf pq \<and> pq_physical_queues pq = qs"
  by (auto simp: from_physical_queues_def partitioned_queue_wf_def validate_logical_queue_def
      validate_physical_count_def validate_physical_queues_def validate_physical_queues_from_Inr
      res_bind_eq_Inr split: if_splits)

lemma partition_in_range:
  assumes "0 < n" "n \<le> nat i16_max"
  shows "partition_for_ordering_key key n < n"
proof (cases "n \<le> 1")
  case False
  then have "unat (of_nat n :: 64 word) = n"
    using assms by (simp add: unat_of_nat i16_max_def)
  moreover from this False have "(of_nat n :: 64 word) \<noteq> 0" by auto
  ultimately show ?thesis
    using False by (simp add: partition_for_ordering_key_def unat_mod)
qed (use assms in \<open>simp add: partition_for_ordering_key_def\<close>)

text \<open>
  C33: a partitioned queue that either constructor accepts routes every key and every index to one of
  its physical queues, which are non-empty, pairwise distinct names; keyed routing also sets the
  ordering key, and changes no other option.
\<close>

theorem partitioned_queue_routes:
  assumes "partitioned_queue_new q n = Inr pq \<or> from_physical_queues q qs = Inr pq"
  shows "partitioned_queue_wf pq \<and>
         queue_for_key pq key \<in> set (pq_physical_queues pq) \<and>
         queue_for_index pq i \<in> set (pq_physical_queues pq) \<and>
         io_queue (route_opts_by_key pq opts key) = queue_for_key pq key \<and>
         io_ordering_key (route_opts_by_key pq opts key) = Some key \<and>
         (route_opts_by_key pq opts key)\<lparr>io_queue := io_queue opts, io_ordering_key := io_ordering_key opts\<rparr> = opts"
proof -
  have wf: "partitioned_queue_wf pq"
    using assms partitioned_queue_new_wf from_physical_queues_wf by blast
  then have "0 < n_partitions pq" "n_partitions pq \<le> nat i16_max"
    by (simp_all add: partitioned_queue_wf_def n_partitions_def)
  then have "queue_for_key pq key \<in> set (pq_physical_queues pq)"
    "queue_for_index pq i \<in> set (pq_physical_queues pq)"
    using partition_in_range by (auto simp: queue_for_key_def queue_for_index_def n_partitions_def)
  with wf show ?thesis by (simp add: route_opts_by_key_def)
qed

theorem partitioned_queue_routes_witness:
  "\<exists>pq. partitioned_queue_new ''email'' 3 = Inr pq \<and>
        pq_physical_queues pq = [''email'', ''email__p1'', ''email__p2''] \<and>
        queue_for_key pq ''customer-42'' \<in> set (pq_physical_queues pq)"
proof -
  let ?pq = "\<lparr> pq_logical_queue = ''email'',
               pq_physical_queues = [''email'', ''email__p1'', ''email__p2''] \<rparr>"
  have new: "partitioned_queue_new ''email'' 3 = Inr ?pq"
    by (simp add: partitioned_queue_new_def validate_logical_queue_def validate_physical_count_def
        i16_max_def upt_conv_Cons string_of_nat.simps digit_char_def char_of_def bit_0)
  then have "queue_for_key ?pq ''customer-42'' \<in> set (pq_physical_queues ?pq)"
    using partitioned_queue_routes [where q = "''email''" and n = 3 and pq = ?pq] by blast
  with new show ?thesis by (intro exI [of _ ?pq]) simp
qed

subsection \<open>Configuration checks\<close>

lemma validate_ident_Inr:
  "validate_ident s = Inr () \<Longrightarrow> s \<noteq> [] \<and> list_all ident_char s"
  by (auto simp: validate_ident_def Let_def ident_start_def ident_char_def split: list.splits if_splits)



end
