(* ===== verification/Awa_Payload.thy ===== *)
theory Awa_Payload
  imports Awa_Insert
begin

section \<open>Runtime payloads\<close>

text \<open>
  The JSON envelope that travels with a job through every table: metadata, tags, error entries and
  progress (\<^verbatim>\<open>RuntimePayload\<close> of \<^verbatim>\<open>awa-model/src/queue_storage.rs\<close>), how it is decoded, encoded
  compactly and stored, the error entries a failed attempt appends, and the state mask test. The
  lemmas show that the compact encoding round-trips, that error entries keep at most one output, that
  the mask written at insert is the mask tested later, and when a terminal payload may be elided.

  The derived \<^verbatim>\<open>Deserialize\<close> of the struct accepts an object (unknown keys ignored, missing keys
  defaulted) or a positional array; the texts of its errors are not modelled. The current time as
  RFC 3339 text (\<^verbatim>\<open>Utc::now().to_rfc3339()\<close>) is an argument.
\<close>

record runtime_payload =
  rp_metadata :: json
  rp_tags :: "string list"
  rp_errors :: "json list"
  rp_progress :: "json option"

definition default_payload_metadata :: json where
  "default_payload_metadata = JObject []"

definition runtime_payload_default :: runtime_payload where
  "runtime_payload_default =
    \<lparr> rp_metadata = default_payload_metadata, rp_tags = [], rp_errors = [], rp_progress = None \<rparr>"

definition is_empty_json_object :: "json \<Rightarrow> bool" where
  "is_empty_json_object v \<longleftrightarrow> v = JObject []"

fun is_compact_receipt_completion_metadata :: "json \<Rightarrow> bool" where
  "is_compact_receipt_completion_metadata (JObject m) =
     list_all (\<lambda>(k, _). k = ''_awa_original_priority'' \<or> k = ''_awa_original_queue'') m"
| "is_compact_receipt_completion_metadata _ = False"

subsection \<open>Decoding and encoding\<close>

definition serde_error :: awa_error where
  "serde_error = Serialization ''runtime payload''"

fun string_of_json :: "json \<Rightarrow> awa_error + string" where
  "string_of_json (JString s) = Inr s"
| "string_of_json _ = Inl serde_error"

fun de_tags :: "json option \<Rightarrow> awa_error + string list" where
  "de_tags None = Inr []"
| "de_tags (Some (JArray vs)) = res_map string_of_json vs"
| "de_tags (Some _) = Inl serde_error"

fun de_errors :: "json option \<Rightarrow> awa_error + json list" where
  "de_errors None = Inr []"
| "de_errors (Some (JArray vs)) = Inr vs"
| "de_errors (Some _) = Inl serde_error"

definition de_progress :: "json option \<Rightarrow> json option" where
  "de_progress v = (case v of None \<Rightarrow> None | Some j \<Rightarrow> (if is_null j then None else Some j))"

definition de_fields ::
  "json option \<Rightarrow> json option \<Rightarrow> json option \<Rightarrow> json option \<Rightarrow> awa_error + runtime_payload" where
  "de_fields metadata tags errors progress =
     res_bind (de_tags tags) (\<lambda>ts.
     res_bind (de_errors errors) (\<lambda>es.
       Inr \<lparr> rp_metadata = (case metadata of None \<Rightarrow> default_payload_metadata | Some m \<Rightarrow> m),
             rp_tags = ts, rp_errors = es, rp_progress = de_progress progress \<rparr>))"

definition nth_opt :: "'a list \<Rightarrow> nat \<Rightarrow> 'a option" where
  "nth_opt xs i = (if i < length xs then Some (xs ! i) else None)"

fun runtime_payload_from_value :: "json \<Rightarrow> awa_error + runtime_payload" where
  "runtime_payload_from_value (JObject m) =
     de_fields (map_of m ''metadata'') (map_of m ''tags'') (map_of m ''errors'') (map_of m ''progress'')"
| "runtime_payload_from_value (JArray vs) =
     (if length vs > 4 then Inl serde_error
      else de_fields (nth_opt vs 0) (nth_opt vs 1) (nth_opt vs 2) (nth_opt vs 3))"
| "runtime_payload_from_value _ = Inl serde_error"

definition payload_from_json :: "json \<Rightarrow> awa_error + runtime_payload" where
  "payload_from_json v =
     (if is_null v then Inr runtime_payload_default
      else res_bind (runtime_payload_from_value v) (\<lambda>p.
             if \<not> is_object (rp_metadata p)
             then Inl (Validation ''queue storage payload metadata must be a JSON object'')
             else Inr p))"

definition payload_into_json :: "runtime_payload \<Rightarrow> json" where
  "payload_into_json p =
     JObject
       ((if rp_errors p = [] then [] else [(''errors'', JArray (rp_errors p))])
        @ (if is_empty_json_object (rp_metadata p) then [] else [(''metadata'', rp_metadata p)])
        @ (case rp_progress p of None \<Rightarrow> [] | Some v \<Rightarrow> [(''progress'', v)])
        @ (if rp_tags p = [] then [] else [(''tags'', JArray (map JString (rp_tags p)))]))"

definition errors_option :: "runtime_payload \<Rightarrow> json list option" where
  "errors_option p = (if rp_errors p = [] then None else Some (rp_errors p))"

subsection \<open>Changing a payload\<close>

fun strip_error_output :: "json \<Rightarrow> json" where
  "strip_error_output (JObject m) = JObject (omap_remove error_entry_output_key m)"
| "strip_error_output v = v"

definition strip_error_outputs :: "json list \<Rightarrow> json list" where
  "strip_error_outputs errors = map strip_error_output errors"

definition push_error :: "runtime_payload \<Rightarrow> json \<Rightarrow> runtime_payload" where
  "push_error p error =
     (let errors = (if json_get error_entry_output_key error \<noteq> None
                    then strip_error_outputs (rp_errors p) else rp_errors p)
      in p\<lparr>rp_errors := errors @ [error]\<rparr>)"

definition set_progress :: "runtime_payload \<Rightarrow> json option \<Rightarrow> runtime_payload" where
  "set_progress p progress = p\<lparr>rp_progress := progress\<rparr>"

fun json_insert :: "string \<Rightarrow> json \<Rightarrow> json \<Rightarrow> json" where
  "json_insert k v (JObject m) = JObject (omap_insert k v m)"
| "json_insert k v j = j"

text \<open>
  \<^verbatim>\<open>insert_callback_result\<close> expects an object, which every payload that was decoded has; on another
  value the code panics, which is the \<open>None\<close> here.
\<close>

definition insert_callback_result :: "runtime_payload \<Rightarrow> json option \<Rightarrow> runtime_payload option" where
  "insert_callback_result p payload =
     (if is_object (rp_metadata p)
      then Some (p\<lparr>rp_metadata := json_insert ''_awa_callback_result''
                   (case payload of None \<Rightarrow> JNull | Some v \<Rightarrow> v) (rp_metadata p)\<rparr>)
      else None)"

definition materialize_runtime_payload ::
  "json \<Rightarrow> json option \<Rightarrow> json option \<Rightarrow> awa_error + runtime_payload" where
  "materialize_runtime_payload payload progress callback_result =
     res_bind (payload_from_json payload) (\<lambda>p.
       let p1 = (case progress of None \<Rightarrow> p | Some v \<Rightarrow> set_progress p (Some v))
       in Inr (case callback_result of
                 None \<Rightarrow> p1
               | Some r \<Rightarrow> (case insert_callback_result p1 (Some r) of None \<Rightarrow> p1 | Some p2 \<Rightarrow> p2)))"

definition payload_with_attempt_state :: "json \<Rightarrow> json option \<Rightarrow> awa_error + json" where
  "payload_with_attempt_state payload progress =
     res_bind (payload_from_json payload) (\<lambda>p.
       Inr (payload_into_json (case progress of None \<Rightarrow> p | Some v \<Rightarrow> set_progress p (Some v))))"

definition payload_from_parts ::
  "json \<Rightarrow> string list \<Rightarrow> json list option \<Rightarrow> json option \<Rightarrow> awa_error + json" where
  "payload_from_parts metadata tags errors progress =
     Inr (payload_into_json \<lparr> rp_metadata = metadata, rp_tags = tags,
            rp_errors = (case errors of None \<Rightarrow> [] | Some es \<Rightarrow> es), rp_progress = progress \<rparr>)"

definition with_progress :: "json \<Rightarrow> json option \<Rightarrow> awa_error + json" where
  "with_progress payload progress =
     res_bind (payload_from_json payload) (\<lambda>p. Inr (payload_into_json (set_progress p progress)))"

subsection \<open>Error entries\<close>

record attempt_error =
  ae_message :: string
  ae_output :: "json option"

definition lifecycle_error :: "string \<Rightarrow> string \<Rightarrow> int \<Rightarrow> bool \<Rightarrow> json" where
  "lifecycle_error now_text error attempt terminal =
     (let value = JObject [(''at'', JString now_text), (''attempt'', json_of_int attempt),
                           (''error'', JString error)]
      in if terminal then json_insert ''terminal'' (JBool True) value else value)"

definition lifecycle_entry :: "string \<Rightarrow> attempt_error \<Rightarrow> int \<Rightarrow> bool \<Rightarrow> json" where
  "lifecycle_entry now_text error attempt terminal =
     (let value = lifecycle_error now_text (ae_message error) attempt terminal
      in case ae_output error of
           None \<Rightarrow> value
         | Some out \<Rightarrow> json_insert error_entry_output_key out value)"

subsection \<open>State masks and stored payloads\<close>

definition unique_state_claims :: "string option \<Rightarrow> job_state \<Rightarrow> bool" where
  "unique_state_claims unique_states state =
     (case unique_states of
        None \<Rightarrow> False
      | Some bitmask \<Rightarrow> nth_opt bitmask (bit_position state) = Some (CHR ''1''))"

definition is_storage_payload_empty :: "json \<Rightarrow> bool" where
  "is_storage_payload_empty v \<longleftrightarrow> is_null v \<or> is_empty_json_object v"

definition storage_payload :: "json \<Rightarrow> json option" where
  "storage_payload v = (if is_storage_payload_empty v then None else Some v)"

definition terminal_storage_payload :: "json \<Rightarrow> json option \<Rightarrow> json option" where
  "terminal_storage_payload v ready_payload =
     (if is_storage_payload_empty v \<or> ready_payload = Some v then None else Some v)"

text \<open>
  The payload a read of a terminal row returns: \<^verbatim>\<open>COALESCE(done.payload, ready.payload, '{}')\<close>.
\<close>

definition read_terminal_payload :: "json option \<Rightarrow> json option \<Rightarrow> json" where
  "read_terminal_payload done_payload ready_payload =
     (case done_payload of
        Some v \<Rightarrow> v
      | None \<Rightarrow> (case ready_payload of Some v \<Rightarrow> v | None \<Rightarrow> JObject []))"

subsection \<open>The compact encoding round-trips\<close>

definition payload_wf :: "runtime_payload \<Rightarrow> bool" where
  "payload_wf p \<longleftrightarrow> is_object (rp_metadata p) \<and> rp_progress p \<noteq> Some JNull"

lemma res_map_JString [simp]: "res_map string_of_json (map JString ts) = Inr ts"
  by (induction ts) simp_all

lemma is_null_iff [simp]: "is_null v \<longleftrightarrow> v = JNull"
  by (cases v) simp_all

lemma de_progress_wf: "de_progress v \<noteq> Some JNull"
  by (auto simp: de_progress_def split: option.splits)

lemma de_fields_wf: "de_fields m t e pr = Inr p \<Longrightarrow> rp_progress p \<noteq> Some JNull"
  by (auto simp: de_fields_def res_bind_eq_Inr de_progress_wf)

lemma payload_from_json_wf: "payload_from_json v = Inr p \<Longrightarrow> payload_wf p"
  by (cases v)
     (auto simp: payload_from_json_def payload_wf_def res_bind_eq_Inr runtime_payload_default_def
       default_payload_metadata_def dest: de_fields_wf split: if_splits)

lemma de_progress_wf_id: "pr \<noteq> Some JNull \<Longrightarrow> de_progress pr = pr"
  by (auto simp: de_progress_def split: option.split)

lemma de_errors_Some: "de_errors (if es = [] then None else Some (JArray es)) = Inr es"
  by simp

lemma de_tags_Some: "de_tags (if ts = [] then None else Some (JArray (map JString ts))) = Inr ts"
  by simp

lemma payload_into_json_fields:
  "payload_into_json p = JObject m \<Longrightarrow>
     map_of m ''metadata'' = (if rp_metadata p = JObject [] then None else Some (rp_metadata p)) \<and>
     map_of m ''tags'' = (if rp_tags p = [] then None else Some (JArray (map JString (rp_tags p)))) \<and>
     map_of m ''errors'' = (if rp_errors p = [] then None else Some (JArray (rp_errors p))) \<and>
     map_of m ''progress'' = rp_progress p"
  by (auto simp: payload_into_json_def is_empty_json_object_def split: option.splits)

lemma payload_roundtrip [simp]:
  assumes "payload_wf p"
  shows "payload_from_json (payload_into_json p) = Inr p"
proof -
  obtain m where m: "payload_into_json p = JObject m" by (simp add: payload_into_json_def)
  note fields = payload_into_json_fields [OF m]
  have meta: "(case map_of m ''metadata'' of None \<Rightarrow> default_payload_metadata | Some x \<Rightarrow> x) = rp_metadata p"
    using fields by (simp add: default_payload_metadata_def)
  have "de_fields (map_of m ''metadata'') (map_of m ''tags'') (map_of m ''errors'') (map_of m ''progress'') = Inr p"
    using fields assms unfolding de_fields_def meta
    by (simp add: de_progress_wf_id payload_wf_def del: de_tags.simps de_errors.simps
        add: de_tags_Some de_errors_Some)
  then show ?thesis
    using assms by (simp add: m payload_from_json_def payload_wf_def)
qed

text \<open>
  C36: decoding and compactly re-encoding a payload loses nothing: whatever value a stored payload
  decodes from (compact, expanded or null), the compact encoding of the result decodes to the same
  metadata, tags, error entries and progress.
\<close>

theorem payload_reencode_stable:
  assumes "payload_from_json v = Inr p"
  shows "payload_from_json (payload_into_json p) = Inr p \<and> is_object (rp_metadata p)"
  using payload_from_json_wf [OF assms] by (simp add: payload_wf_def)

theorem payload_reencode_stable_witness:
  "payload_from_json (payload_into_json
      \<lparr> rp_metadata = JObject [(''k'', JNull)], rp_tags = [''fast''], rp_errors = [], rp_progress = None \<rparr>) =
    Inr \<lparr> rp_metadata = JObject [(''k'', JNull)], rp_tags = [''fast''], rp_errors = [], rp_progress = None \<rparr>"
proof -
  have "payload_from_json (JObject [(''errors'', JArray []), (''metadata'', JObject [(''k'', JNull)]),
      (''progress'', JNull), (''tags'', JArray [JString ''fast''])]) =
    Inr \<lparr> rp_metadata = JObject [(''k'', JNull)], rp_tags = [''fast''], rp_errors = [], rp_progress = None \<rparr>"
    by (simp add: payload_from_json_def de_fields_def de_progress_def)
  from payload_reencode_stable [OF this] show ?thesis by simp
qed

subsection \<open>Error entries keep one output\<close>

definition has_output :: "json \<Rightarrow> bool" where
  "has_output e \<longleftrightarrow> json_get error_entry_output_key e \<noteq> None"

definition output_count :: "runtime_payload \<Rightarrow> nat" where
  "output_count p = length (filter has_output (rp_errors p))"

lemma strip_error_output_none [simp]: "\<not> has_output (strip_error_output e)"
  by (cases e) (simp_all add: has_output_def omap_simps)

lemma strip_error_outputs_none [simp]: "filter has_output (strip_error_outputs es) = []"
  by (simp add: strip_error_outputs_def filter_map o_def)

lemma push_error_output_count:
  "output_count (push_error p e) = (if has_output e then 1 else output_count p)"
  by (auto simp: push_error_def output_count_def Let_def has_output_def [of e])

lemma push_error_latest:
  "find has_output (rev (rp_errors (push_error p e))) =
     (if has_output e then Some e else find has_output (rev (rp_errors p)))"
  by (auto simp: push_error_def Let_def has_output_def [of e])

lemma push_error_errors:
  "length (rp_errors (push_error p e)) = Suc (length (rp_errors p))"
  "map (json_get ''error'') (rp_errors (push_error p e)) =
     map (json_get ''error'') (rp_errors p) @ [json_get ''error'' e]"
proof -
  have "json_get ''error'' (strip_error_output x) = json_get ''error'' x" for x
    by (cases x) (simp_all add: omap_simps error_entry_output_key_def)
  then show "length (rp_errors (push_error p e)) = Suc (length (rp_errors p))"
    "map (json_get ''error'') (rp_errors (push_error p e)) =
       map (json_get ''error'') (rp_errors p) @ [json_get ''error'' e]"
    by (simp_all add: push_error_def Let_def strip_error_outputs_def)
qed

text \<open>
  C37: however many failed attempts append error entries, the payload keeps at most one recorded
  output, that of the latest attempt to record one: appending an entry never raises the number of
  outputs above one, keeps the number of entries growing by exactly one, and keeps the message of
  every earlier entry.
\<close>

theorem push_errors_bounded:
  "output_count (foldl push_error runtime_payload_default es) \<le> 1 \<and>
   find has_output (rev (rp_errors (foldl push_error runtime_payload_default es))) =
     find has_output (rev es) \<and>
   length (rp_errors (foldl push_error runtime_payload_default es)) = length es \<and>
   map (json_get ''error'') (rp_errors (foldl push_error runtime_payload_default es)) =
     map (json_get ''error'') es"
proof (induction es rule: rev_induct)
  case Nil
  then show ?case by (simp add: output_count_def runtime_payload_default_def)
next
  case (snoc e es)
  then show ?case by (simp add: push_error_output_count push_error_errors push_error_latest)
qed

subsection \<open>The mask written is the mask tested\<close>

text \<open>
  The state mask written at insert time as a bit string is read back consistently: a job claims
  its unique key in a state exactly when the mask of its uniqueness options has that state's bit set.
\<close>

theorem unique_state_claims_mask:
  "unique_state_claims (Some (unique_states_bits m)) s \<longleftrightarrow> bit m (bit_position s)"
  by (simp add: unique_state_claims_def nth_opt_def unique_states_bits_nth)

subsection \<open>Eliding terminal payloads\<close>

lemma read_terminal_payload_elided:
  "read_terminal_payload (terminal_storage_payload v r) r =
     (if is_storage_payload_empty v then (case r of Some w \<Rightarrow> w | None \<Rightarrow> JObject []) else v)"
  by (auto simp: read_terminal_payload_def terminal_storage_payload_def)

lemma payload_from_json_empty: "is_storage_payload_empty v \<Longrightarrow> payload_from_json v = Inr runtime_payload_default"
  by (auto simp: is_storage_payload_empty_def is_empty_json_object_def payload_from_json_def de_fields_def
      de_progress_def runtime_payload_default_def default_payload_metadata_def)

text \<open>
  C38: a terminal row stores no payload when its payload is empty or equal to the payload of the ready
  row behind it, and a read falls back to the ready row. The payload read back decodes to the payload
  that was written exactly when the written payload is not empty, or there is no ready row, or the
  ready row's payload is itself empty in content. In the remaining case, an empty terminal payload in
  front of a ready payload that is not empty, the read returns the ready row's stale content.
\<close>

theorem terminal_payload_elision:
  "payload_from_json (read_terminal_payload (terminal_storage_payload v r) r) = payload_from_json v \<longleftrightarrow>
     \<not> (is_storage_payload_empty v \<and> r \<noteq> None \<and> payload_from_json (the r) \<noteq> Inr runtime_payload_default)"
proof (cases "is_storage_payload_empty v")
  case True
  then show ?thesis
    using payload_from_json_empty [of v] payload_from_json_empty [of "JObject []"]
    by (auto simp: read_terminal_payload_elided is_storage_payload_empty_def is_empty_json_object_def
        split: option.splits)
qed (simp add: read_terminal_payload_elided)

end
