(* ===== verification/Awa_Ring.thy ===== *)
theory Awa_Ring
  imports Awa_Routing
begin

section \<open>Ring rotation\<close>

text \<open>
  The three rings of partitions of \<^verbatim>\<open>queue_storage.rs\<close>: the queue ring (ready and terminal rows),
  the lease ring and the claim ring.  A ring's cursor is a pair of an open slot and a generation; rotation
  opens the next slot, pruning truncates the oldest sealed one.  The cursor has two representations
  during a rolling upgrade, the columns of the \<^verbatim>\<open>ring_state\<close> row and the append-only ledger
  \<^verbatim>\<open>ring_rotations\<close>, and \<^verbatim>\<open>ring_cursor_authority\<close> says which one counts.  The theory models
  the ring arithmetic, the cursor and its compare-and-swap under both authorities, the rotation of
  each ring with its cadence, busy and idle gates, the fold of the ledgers, the one-way flip of the
  authority, and the pruning of the lease and claim rings.

  A partition is seen through what these operations ask of it: its number of rows, the sum of the
  count column of a batch relation, and whether it holds storage a truncation would reclaim.
\<close>


subsection \<open>Ring arithmetic\<close>

definition rem_euclid :: "int \<Rightarrow> int \<Rightarrow> int" where
  "rem_euclid a n = a mod \<bar>n\<bar>"

definition ring_slot_index :: "int \<Rightarrow> int \<Rightarrow> string \<Rightarrow> awa_error + int" where
  "ring_slot_index slot slot_count ring =
    (if slot < 0 then
       Inl (Validation (''invalid '' @ ring @ '' ring slot '' @ string_of_int slot @
                        '': slot must be non-negative''))
     else if slot \<ge> slot_count then
       Inl (Validation (''invalid '' @ ring @ '' ring slot '' @ string_of_int slot @
                        '': configured slot count is '' @ string_of_int slot_count))
     else Inr slot)"

definition oldest_initialized_ring_slot :: "int \<Rightarrow> int \<Rightarrow> int \<Rightarrow> (int \<times> int) option" where
  "oldest_initialized_ring_slot current_slot generation slot_count =
    (if slot_count \<le> 1 then None
     else
       let initialized_slots = min (generation + 1) slot_count in
       if initialized_slots \<le> 1 then None
       else
         let offset = initialized_slots - 1;
             oldest_slot = rem_euclid (current_slot - offset) slot_count;
             oldest_generation = generation - offset in
         if oldest_generation < 0 then None else Some (oldest_slot, oldest_generation))"

definition ring_slot_generation :: "int \<Rightarrow> int \<Rightarrow> int \<Rightarrow> int \<Rightarrow> int option" where
  "ring_slot_generation current_slot generation slot_count slot =
    (if slot_count \<le> 0 \<or> slot < 0 \<or> slot \<ge> slot_count then None
     else
       let offset = rem_euclid (current_slot - slot) slot_count;
           slot_generation = generation - offset in
       if slot_generation \<ge> 0 then Some slot_generation else None)"

definition initialized_sealed_ring_slots :: "int \<Rightarrow> int \<Rightarrow> int \<Rightarrow> (int \<times> int) list" where
  "initialized_sealed_ring_slots current_slot generation slot_count =
    (if slot_count \<le> 1 then []
     else
       let initialized_slots = min (generation + 1) slot_count in
       map (\<lambda>offset. (rem_euclid (current_slot - offset) slot_count, generation - offset))
         (rev [1..initialized_slots - 1]))"


subsection \<open>Families, relations and outcomes\<close>

datatype ring_family = Queue | Lease | Claim

fun family_name :: "ring_family \<Rightarrow> string" where
  "family_name Queue = ''queue''"
| "family_name Lease = ''lease''"
| "family_name Claim = ''claim''"

datatype ring_authority = Columns | Ledger

datatype ring_relation =
    ReadyEntries | ReadyClaimAttemptBatches | DoneEntries | ReadyTombstones | ReadySegments
  | ReceiptCompletionBatches | ReceiptCompletionTombstones | QueueTerminalCountDeltas
  | Leases
  | LeaseClaims | LeaseClaimBatches | LeaseClaimClosures | LeaseClaimClosureBatches

fun family_relations :: "ring_family \<Rightarrow> ring_relation list" where
  "family_relations Queue =
    [ReadyEntries, ReadyClaimAttemptBatches, DoneEntries, ReadyTombstones, ReadySegments,
     ReceiptCompletionBatches, ReceiptCompletionTombstones, QueueTerminalCountDeltas]"
| "family_relations Lease = [Leases]"
| "family_relations Claim =
    [LeaseClaims, LeaseClaimBatches, LeaseClaimClosures, LeaseClaimClosureBatches]"

record busy_counts =
  queue_ready :: int
  queue_claim_attempt_batches :: int
  queue_done :: int
  queue_tombstones :: int
  queue_ready_segments :: int
  queue_receipt_completion_batches :: int
  queue_receipt_completion_tombstones :: int
  queue_terminal_deltas :: int
  bc_leases :: int
  bc_claims :: int
  bc_closures :: int
  bc_closure_batches :: int

definition busy_default :: busy_counts where
  "busy_default =
    \<lparr>queue_ready = 0, queue_claim_attempt_batches = 0, queue_done = 0, queue_tombstones = 0,
     queue_ready_segments = 0, queue_receipt_completion_batches = 0,
     queue_receipt_completion_tombstones = 0, queue_terminal_deltas = 0, bc_leases = 0,
     bc_claims = 0, bc_closures = 0, bc_closure_batches = 0\<rparr>"

datatype rotate_outcome =
    Rotated int int
  | SkippedBusy int busy_counts
  | SkippedIdle int int
  | SkippedFilling int int

datatype skip_reason =
    QueueActiveLeases | QueueUnclosedClaimRefs | QueuePendingReady
  | LeaseCurrent | LeaseActive | ClaimCurrent | ClaimOpen

fun skip_reason_str :: "skip_reason \<Rightarrow> string" where
  "skip_reason_str QueueActiveLeases = ''queue.active_leases''"
| "skip_reason_str QueueUnclosedClaimRefs = ''queue.unclosed_claim_refs''"
| "skip_reason_str QueuePendingReady = ''queue.pending_ready''"
| "skip_reason_str LeaseCurrent = ''lease.current''"
| "skip_reason_str LeaseActive = ''lease.active''"
| "skip_reason_str ClaimCurrent = ''claim.current''"
| "skip_reason_str ClaimOpen = ''claim.open''"

record prune_durations =
  pd_lock :: millis
  pd_truncate :: millis
  pd_commit :: millis

datatype prune_outcome =
    Noop
  | Pruned int int nat prune_durations
  | Blocked int
  | SkippedActive int skip_reason int

text \<open>Cadence of the rotation; durations are in milliseconds.\<close>

record ring_rotation_cadence =
  min_slot_age :: millis
  target_slot_bytes :: nat
  min_slot_rows :: nat
  max_slot_age :: millis

definition cadence_eager :: ring_rotation_cadence where
  "cadence_eager =
    \<lparr>min_slot_age = 0, target_slot_bytes = 0, min_slot_rows = 0, max_slot_age = 0\<rparr>"

definition cadence_default :: ring_rotation_cadence where
  "cadence_default =
    \<lparr>min_slot_age = 5000, target_slot_bytes = 2 * 1024 * 1024, min_slot_rows = 256,
     max_slot_age = 60000\<rparr>"

record slot_fill_observation =
  so_cursor :: "int \<times> int"
  first_nonempty_at :: millis

definition is_lock_contention_error :: "sqlx_error \<Rightarrow> bool" where
  "is_lock_contention_error err = (case err of DbError code _ \<Rightarrow> code = Some ''55P03'' | _ \<Rightarrow> False)"

definition busy_indicator :: "bool \<Rightarrow> int" where
  "busy_indicator has_rows = (if has_rows then 1 else 0)"

subsection \<open>Ring state, cursor and append\<close>

text \<open>
  A row of a ring: the \<^verbatim>\<open>ring_state\<close> singleton, the \<^verbatim>\<open>ring_slots\<close> rows as (slot, generation)
  and the rows of the rotation ledger as (generation, slot, rotated_at) in insertion order, keyed by
  generation.
\<close>

record ring_state =
  rs_slot_count :: int
  rs_current_slot :: int
  rs_generation :: int
  rs_slots :: "(int \<times> int) list"
  rs_ledger :: "(int \<times> int \<times> timestamp) list"

definition ledger_max :: "(int \<times> int \<times> timestamp) list \<Rightarrow> int option" where
  "ledger_max l = (if l = [] then None else Some (Max (set (map fst l))))"

definition ledger_rows :: "int list \<Rightarrow> int \<Rightarrow> timestamp \<Rightarrow> (int \<times> int \<times> timestamp) list" where
  "ledger_rows gs n now = map (\<lambda>g. (g, g mod n, now)) gs"

text \<open>\<^verbatim>\<open>INSERT ... ON CONFLICT (generation) DO NOTHING\<close>\<close>

fun ledger_insert ::
  "(int \<times> int \<times> timestamp) list \<Rightarrow> (int \<times> int \<times> timestamp) list \<Rightarrow> (int \<times> int \<times> timestamp) list" where
  "ledger_insert l [] = l"
| "ledger_insert l (r # rs) =
     (if fst r \<in> set (map fst l) then ledger_insert l rs else ledger_insert (l @ [r]) rs)"

definition ledger_cursor :: "ring_state \<Rightarrow> awa_error + int \<times> int" where
  "ledger_cursor st =
    (case ledger_max (rs_ledger st) of
       None \<Rightarrow> Inl (map_sqlx_error RowNotFound)
     | Some g \<Rightarrow> (case map_of (rs_ledger st) g of
                   None \<Rightarrow> Inl (map_sqlx_error RowNotFound)
                 | Some (slot, _) \<Rightarrow> Inr (slot, g)))"

definition columns_cursor :: "ring_state \<Rightarrow> awa_error + int \<times> int" where
  "columns_cursor st = Inr (rs_current_slot st, rs_generation st)"

fun ring_cursor :: "ring_authority \<Rightarrow> ring_state \<Rightarrow> awa_error + int \<times> int" where
  "ring_cursor Ledger st = ledger_cursor st"
| "ring_cursor Columns st = columns_cursor st"

definition ledger_append :: "timestamp \<Rightarrow> int \<Rightarrow> int \<Rightarrow> ring_state \<Rightarrow> bool \<times> ring_state" where
  "ledger_append now next_generation next_slot st =
    (if next_generation \<in> set (map fst (rs_ledger st)) then (False, st)
     else (True, st\<lparr>rs_ledger := rs_ledger st @ [(next_generation, next_slot, now)]\<rparr>))"

definition reconcile_ledger :: "timestamp \<Rightarrow> int \<Rightarrow> ring_state \<Rightarrow> ring_state" where
  "reconcile_ledger now last_generation st =
    st\<lparr>rs_ledger := ledger_insert (rs_ledger st)
        (ledger_rows [(case ledger_max (rs_ledger st) of None \<Rightarrow> - 1 | Some g \<Rightarrow> g) + 1..last_generation]
           (rs_slot_count st) now)\<rparr>"

definition stamp_slot :: "int \<Rightarrow> int \<Rightarrow> (int \<times> int) list \<Rightarrow> (int \<times> int) list" where
  "stamp_slot slot g slots = map (\<lambda>(s, g'). if s = slot then (s, g) else (s, g')) slots"

definition columns_append :: "timestamp \<Rightarrow> int \<Rightarrow> int \<Rightarrow> ring_state \<Rightarrow> bool \<times> ring_state" where
  "columns_append now next_generation next_slot st =
    (if rs_generation st \<noteq> next_generation - 1 then (False, st)
     else
       (True,
        reconcile_ledger now next_generation
          (st\<lparr>rs_current_slot := next_slot, rs_generation := next_generation,
              rs_slots := stamp_slot next_slot next_generation (rs_slots st)\<rparr>)))"

fun append_ring_rotation ::
  "ring_authority \<Rightarrow> timestamp \<Rightarrow> int \<Rightarrow> int \<Rightarrow> ring_state \<Rightarrow> bool \<times> ring_state" where
  "append_ring_rotation Ledger now g slot st = ledger_append now g slot st"
| "append_ring_rotation Columns now g slot st = columns_append now g slot st"

text \<open>
  The fold of one ledger: rows older than one wrap below the newest generation are deleted.  With
  an empty ledger the comparison with \<^verbatim>\<open>NULL\<close> deletes nothing.
\<close>

definition fold_ledger :: "ring_state \<Rightarrow> nat \<times> ring_state" where
  "fold_ledger st =
    (case ledger_max (rs_ledger st) of
       None \<Rightarrow> (0, st)
     | Some g \<Rightarrow>
         let kept = filter (\<lambda>r. \<not> fst r < g - (rs_slot_count st - 1)) (rs_ledger st) in
         (length (rs_ledger st) - length kept, st\<lparr>rs_ledger := kept\<rparr>))"


subsection \<open>The schema the ring operations act on\<close>

record claim_slot_cursors =
  rescue_cursor :: "timestamp option \<times> job_id \<times> int"
  deadline_cursor :: "timestamp option \<times> job_id \<times> int"
  batch_deadline_cursor :: "timestamp option \<times> int"

record ring_db =
  db_authority :: string
  db_ring :: "ring_family \<Rightarrow> ring_state"
  db_rows :: "ring_relation \<Rightarrow> int \<Rightarrow> nat"
  db_batched :: "ring_relation \<Rightarrow> int \<Rightarrow> int"
  db_storage :: "ring_relation \<Rightarrow> int \<Rightarrow> bool"
  db_claim_cursors :: "(int \<times> claim_slot_cursors) list"

text \<open>
  What an operation observes of the world outside the schema: whether the advisory lock was free,
  the database clock, the local monotonic clock, and the physical size of a partition.
\<close>

record rotate_env =
  re_lock_free :: bool
  re_db_now :: timestamp
  re_now :: millis
  re_bytes :: "ring_relation \<Rightarrow> int \<Rightarrow> int"

type_synonym fill_observations = "ring_family \<Rightarrow> slot_fill_observation option"

definition ring_authority_of :: "ring_db \<Rightarrow> ring_authority" where
  "ring_authority_of db = (if db_authority db = ''ledger'' then Ledger else Columns)"

definition acquire_ring_serializer :: "bool \<Rightarrow> ring_db \<Rightarrow> ring_authority \<times> bool" where
  "acquire_ring_serializer lock_free db =
    (case ring_authority_of db of
       Columns \<Rightarrow> (Columns, True)
     | Ledger \<Rightarrow> (Ledger, lock_free))"

definition relation_has_rows :: "ring_db \<Rightarrow> ring_relation \<Rightarrow> int \<Rightarrow> bool" where
  "relation_has_rows db r slot \<longleftrightarrow> 0 < db_rows db r slot"

definition parent_slots :: "ring_db \<Rightarrow> ring_family \<Rightarrow> int list" where
  "parent_slots db f = [0..rs_slot_count (db_ring db f) - 1]"

fun relations_all_empty :: "ring_db \<Rightarrow> ring_family \<Rightarrow> ring_relation list \<Rightarrow> bool" where
  "relations_all_empty db f [] = True"
| "relations_all_empty db f (r # rs) =
     (if \<exists>slot \<in> set (parent_slots db f). relation_has_rows db r slot then False
      else relations_all_empty db f rs)"

subsection \<open>Rotation\<close>

definition sampled_rows :: "ring_db \<Rightarrow> ring_relation list \<Rightarrow> int \<Rightarrow> nat \<Rightarrow> nat" where
  "sampled_rows db children slot limit = sum_list (map (\<lambda>r. min (db_rows db r slot) limit) children)"

definition slot_still_filling ::
  "rotate_env \<Rightarrow> ring_db \<Rightarrow> ring_family \<Rightarrow> int \<times> int \<Rightarrow> ring_rotation_cadence \<Rightarrow> fill_observations \<Rightarrow>
     bool \<times> fill_observations" where
  "slot_still_filling env db family cursor cadence observations =
    (if min_slot_age cadence = 0 then (False, observations)
     else
       let children = family_relations family;
           sample_limit = min (max (min_slot_rows cadence) 1) (2 ^ 63 - 1);
           sampled = sampled_rows db children (fst cursor) sample_limit;
           bytes = (if sampled > 0
                    then sum_list (map (\<lambda>r. re_bytes env r (fst cursor)) children) else 0);
           opened = map_of (rs_ledger (db_ring db family)) (snd cursor) in
       if sampled = 0 then (False, observations(family := None))
       else
         let fresh = \<lparr>so_cursor = cursor, first_nonempty_at = re_now env\<rparr>;
             entry = (case observations family of None \<Rightarrow> fresh | Some seen \<Rightarrow> seen);
             observation = (if so_cursor entry \<noteq> cursor then fresh else entry);
             observations' = observations(family := Some observation);
             age = max 0 (re_now env - first_nonempty_at observation);
             open_for = (case opened of
                           None \<Rightarrow> 0
                         | Some (_, rotated_at) \<Rightarrow> max 0 (re_db_now env - rotated_at)) in
         if target_slot_bytes cadence > 0 \<and> nat bytes \<ge> target_slot_bytes cadence
         then (False, observations')
         else if max_slot_age cadence \<noteq> 0 \<and> max age open_for \<ge> max_slot_age cadence
         then (False, observations')
         else if age < min_slot_age cadence then (True, observations')
         else if sampled < min_slot_rows cadence then (True, observations')
         else (False, observations'))"

definition next_slot_busy :: "ring_db \<Rightarrow> ring_family \<Rightarrow> int \<Rightarrow> bool" where
  "next_slot_busy db family slot = (\<exists>r \<in> set (family_relations family). relation_has_rows db r slot)"

fun busy_counts_of :: "ring_db \<Rightarrow> ring_family \<Rightarrow> int \<Rightarrow> busy_counts" where
  "busy_counts_of db Queue slot =
    (let ind = (\<lambda>r. busy_indicator (relation_has_rows db r slot)) in
     busy_default\<lparr>
       queue_ready := ind ReadyEntries,
       queue_claim_attempt_batches := ind ReadyClaimAttemptBatches,
       queue_done := ind DoneEntries,
       queue_tombstones := ind ReadyTombstones,
       queue_ready_segments := ind ReadySegments,
       queue_receipt_completion_batches := ind ReceiptCompletionBatches,
       queue_receipt_completion_tombstones := ind ReceiptCompletionTombstones,
       queue_terminal_deltas := ind QueueTerminalCountDeltas\<rparr>)"
| "busy_counts_of db Lease slot =
     busy_default\<lparr>bc_leases := busy_indicator (relation_has_rows db Leases slot)\<rparr>"
| "busy_counts_of db Claim slot =
     busy_default\<lparr>
       bc_claims := busy_indicator (relation_has_rows db LeaseClaims slot
                                  \<or> relation_has_rows db LeaseClaimBatches slot),
       bc_closures := busy_indicator (relation_has_rows db LeaseClaimClosures slot),
       bc_closure_batches := busy_indicator (relation_has_rows db LeaseClaimClosureBatches slot)\<rparr>"

definition set_ring :: "ring_family \<Rightarrow> ring_state \<Rightarrow> ring_db \<Rightarrow> ring_db" where
  "set_ring f st db = db\<lparr>db_ring := (db_ring db)(f := st)\<rparr>"

text \<open>
  The three rotations run the same steps on the relations of their ring.  They differ in the idle
  gate, a probe of every partition for the queue and claim rings and the physical-storage probe
  for the lease ring, and in the evidence reported when the compare-and-swap is lost.
\<close>

definition rotate_ring ::
  "ring_family \<Rightarrow> (ring_db \<Rightarrow> bool) \<Rightarrow> (ring_db \<Rightarrow> int \<Rightarrow> busy_counts) \<Rightarrow> rotate_env \<Rightarrow>
     ring_rotation_cadence \<Rightarrow> ring_db \<times> fill_observations \<Rightarrow>
     (awa_error + rotate_outcome) \<times> ring_db \<times> fill_observations" where
  "rotate_ring family idle lost_busy env cadence s =
    (let (db, obs) = s;
         (authority, acquired) = acquire_ring_serializer (re_lock_free env) db;
         st = db_ring db family;
         slot_count = rs_slot_count st in
     case ring_cursor authority st of
       Inl e \<Rightarrow> (Inl e, db, obs)
     | Inr (current_slot, generation) \<Rightarrow>
         let next_slot = rem_euclid (current_slot + 1) slot_count in
         if \<not> acquired then (Inr (SkippedBusy next_slot busy_default), db, obs)
         else
           let (filling, obs') =
                 slot_still_filling env db family (current_slot, generation) cadence obs in
           if filling then (Inr (SkippedFilling current_slot generation), db, obs')
           else if next_slot_busy db family next_slot
           then (Inr (SkippedBusy next_slot (busy_counts_of db family next_slot)), db, obs')
           else if idle db then (Inr (SkippedIdle current_slot generation), db, obs')
           else
             let (won, st') =
                   append_ring_rotation authority (re_db_now env) (generation + 1) next_slot st in
             if \<not> won then (Inr (SkippedBusy next_slot (lost_busy db next_slot)), db, obs')
             else (Inr (Rotated next_slot (generation + 1)), set_ring family st' db, obs'))"

definition rotate_with_cadence ::
  "rotate_env \<Rightarrow> ring_rotation_cadence \<Rightarrow> ring_db \<times> fill_observations \<Rightarrow>
     (awa_error + rotate_outcome) \<times> ring_db \<times> fill_observations" where
  "rotate_with_cadence =
    rotate_ring Queue (\<lambda>db. relations_all_empty db Queue (family_relations Queue))
      (\<lambda>_ _. busy_default)"

definition rotate_leases_with_cadence ::
  "rotate_env \<Rightarrow> ring_rotation_cadence \<Rightarrow> ring_db \<times> fill_observations \<Rightarrow>
     (awa_error + rotate_outcome) \<times> ring_db \<times> fill_observations" where
  "rotate_leases_with_cadence =
    rotate_ring Lease (\<lambda>db. \<not> (\<exists>slot \<in> set (parent_slots db Lease). db_storage db Leases slot))
      (\<lambda>db slot. busy_counts_of db Lease slot)"

definition rotate_claims_with_cadence ::
  "rotate_env \<Rightarrow> ring_rotation_cadence \<Rightarrow> ring_db \<times> fill_observations \<Rightarrow>
     (awa_error + rotate_outcome) \<times> ring_db \<times> fill_observations" where
  "rotate_claims_with_cadence =
    rotate_ring Claim (\<lambda>db. relations_all_empty db Claim (family_relations Claim))
      (\<lambda>db slot. busy_counts_of db Claim slot)"

definition rotate_queue ::
  "rotate_env \<Rightarrow> ring_db \<times> fill_observations \<Rightarrow>
     (awa_error + rotate_outcome) \<times> ring_db \<times> fill_observations" where
  "rotate_queue env = rotate_with_cadence env cadence_eager"

definition rotate_leases ::
  "rotate_env \<Rightarrow> ring_db \<times> fill_observations \<Rightarrow>
     (awa_error + rotate_outcome) \<times> ring_db \<times> fill_observations" where
  "rotate_leases env = rotate_leases_with_cadence env cadence_eager"

definition rotate_claims ::
  "rotate_env \<Rightarrow> ring_db \<times> fill_observations \<Rightarrow>
     (awa_error + rotate_outcome) \<times> ring_db \<times> fill_observations" where
  "rotate_claims env = rotate_claims_with_cadence env cadence_eager"

subsection \<open>Ledger fold and authority flip\<close>

record ring_ledger_fold_outcome =
  trimmed_rows :: nat
  skipped_mvcc_pinned :: bool

definition fold_ring_rotation_ledgers :: "bool \<Rightarrow> ring_db \<Rightarrow> ring_ledger_fold_outcome \<times> ring_db" where
  "fold_ring_rotation_ledgers horizon_pinned db =
    (if horizon_pinned then (\<lparr>trimmed_rows = 0, skipped_mvcc_pinned = True\<rparr>, db)
     else
       fold (\<lambda>f (out, db).
               let (n, st) = fold_ledger (db_ring db f) in
               (out\<lparr>trimmed_rows := trimmed_rows out + n\<rparr>, set_ring f st db))
         [Queue, Lease, Claim] (\<lparr>trimmed_rows = 0, skipped_mvcc_pinned = False\<rparr>, db))"

definition prerequisite_error :: awa_error where
  "prerequisite_error = Database (DbError (Some ''55000'') None)"

text \<open>The flip of one ring: the compat cursor is checked, the ledger is brought up to it and compared.\<close>

definition flip_ring :: "timestamp \<Rightarrow> ring_state \<Rightarrow> awa_error + ring_state" where
  "flip_ring now st =
    (let slot = rs_current_slot st; g = rs_generation st; n = rs_slot_count st in
     if g < 0 \<or> slot < 0 \<or> slot \<ge> n \<or> slot \<noteq> g mod n then Inl prerequisite_error
     else if (case ledger_max (rs_ledger st) of None \<Rightarrow> False | Some lg \<Rightarrow> lg > g)
     then Inl prerequisite_error
     else
       let st' = reconcile_ledger now g st in
       if ledger_cursor st' \<noteq> Inr (slot, g) then Inl prerequisite_error else Inr st')"

text \<open>The columns are poisoned so that a binary that still reads them finds no initialized slot.\<close>

definition poison_columns :: "ring_state \<Rightarrow> ring_state" where
  "poison_columns st =
    st\<lparr>rs_current_slot := - 1, rs_generation := - 1, rs_slots := map (\<lambda>(s, _). (s, - 1)) (rs_slots st)\<rparr>"

definition flip_ring_authority ::
  "timestamp \<Rightarrow> bool \<Rightarrow> nat \<Rightarrow> ring_db \<Rightarrow> (awa_error + string) \<times> ring_db" where
  "flip_ring_authority now force blocking db =
    (if db_authority db = ''ledger'' then (Inr ''ledger'', db)
     else if \<not> force \<and> blocking > 0 then (Inl prerequisite_error, db)
     else
       case flip_ring now (db_ring db Queue) of
         Inl e \<Rightarrow> (Inl e, db)
       | Inr q \<Rightarrow>
           (case flip_ring now (db_ring db Lease) of
              Inl e \<Rightarrow> (Inl e, db)
            | Inr l \<Rightarrow>
                (case flip_ring now (db_ring db Claim) of
                   Inl e \<Rightarrow> (Inl e, db)
                 | Inr c \<Rightarrow>
                     (Inr ''ledger'',
                      (set_ring Queue (poison_columns q)
                        (set_ring Lease (poison_columns l)
                          (set_ring Claim (poison_columns c) db)))\<lparr>db_authority := ''ledger''\<rparr>))))"


subsection \<open>Pruning the lease and claim rings\<close>

text \<open>
  The outcome of \<^verbatim>\<open>LOCK TABLE\<close> and of \<^verbatim>\<open>TRUNCATE\<close> (an error or none), the timings, and the effect of
  the transactions that committed while the lock was awaited.
\<close>

record prune_env =
  pe_lock_free :: bool
  pe_lock_result :: "sqlx_error option"
  pe_while_waiting :: "ring_db \<Rightarrow> ring_db"
  pe_truncate_result :: "sqlx_error option"
  pe_durations :: prune_durations

definition truncate_used_children :: "ring_relation list \<Rightarrow> int \<Rightarrow> ring_db \<Rightarrow> ring_db" where
  "truncate_used_children children slot db =
    (let targets = filter (\<lambda>r. db_storage db r slot) children in
     db\<lparr>db_rows := (\<lambda>r s. if r \<in> set targets \<and> s = slot then 0 else db_rows db r s),
        db_batched := (\<lambda>r s. if r \<in> set targets \<and> s = slot then 0 else db_batched db r s),
        db_storage := (\<lambda>r s. if r \<in> set targets \<and> s = slot then False else db_storage db r s)\<rparr>)"

definition claim_prune_has_open_claims :: "ring_db \<Rightarrow> int \<Rightarrow> bool" where
  "claim_prune_has_open_claims db slot =
    (\<not> (int (db_rows db LeaseClaims slot) + db_batched db LeaseClaimBatches slot =
         int (db_rows db LeaseClaimClosures slot) + db_batched db LeaseClaimClosureBatches slot))"

definition lock_failed :: "sqlx_error \<Rightarrow> int \<Rightarrow> awa_error + prune_outcome" where
  "lock_failed err slot =
    (if is_lock_contention_error err then Inr (Blocked slot) else Inl (map_sqlx_error err))"

definition initial_claim_slot_cursors :: claim_slot_cursors where
  "initial_claim_slot_cursors =
    \<lparr>rescue_cursor = (None, 0, 0), deadline_cursor = (None, 0, 0), batch_deadline_cursor = (None, 0)\<rparr>"

definition reset_claim_cursors :: "int \<Rightarrow> ring_db \<Rightarrow> ring_db" where
  "reset_claim_cursors slot db =
    db\<lparr>db_claim_cursors :=
        map (\<lambda>(s, c). if s = slot then (s, initial_claim_slot_cursors) else (s, c))
          (db_claim_cursors db)\<rparr>"

definition prune_oldest_leases :: "prune_env \<Rightarrow> ring_db \<Rightarrow> (awa_error + prune_outcome) \<times> ring_db" where
  "prune_oldest_leases env db =
    (let (authority, acquired) = acquire_ring_serializer (pe_lock_free env) db;
         st = db_ring db Lease in
     case ring_cursor authority st of
       Inl e \<Rightarrow> (Inl e, db)
     | Inr (current_slot, g) \<Rightarrow>
         (case oldest_initialized_ring_slot current_slot g (rs_slot_count st) of
            None \<Rightarrow> (Inr Noop, db)
          | Some (slot, generation) \<Rightarrow>
              if \<not> acquired then (Inr (Blocked slot), db)
              else if map_of (rs_slots st) slot = None then (Inr Noop, db)
              else
                let db1 = pe_while_waiting env db in
                case pe_lock_result env of
                  Some err \<Rightarrow> (lock_failed err slot, db1)
                | None \<Rightarrow>
                    (case ring_cursor authority (db_ring db1 Lease) of
                       Inl e \<Rightarrow> (Inl e, db1)
                     | Inr (current_slot', _) \<Rightarrow>
                         if current_slot' = slot then (Inr (SkippedActive slot LeaseCurrent 0), db1)
                         else if relation_has_rows db1 Leases slot
                         then (Inr (SkippedActive slot LeaseActive (busy_indicator True)), db1)
                         else
                           case pe_truncate_result env of
                             Some err \<Rightarrow> (lock_failed err slot, db1)
                           | None \<Rightarrow>
                               (Inr (Pruned slot generation 0 (pe_durations env)),
                                truncate_used_children [Leases] slot db1))))"

definition prune_oldest_claims :: "prune_env \<Rightarrow> ring_db \<Rightarrow> (awa_error + prune_outcome) \<times> ring_db" where
  "prune_oldest_claims env db =
    (let (authority, acquired) = acquire_ring_serializer (pe_lock_free env) db;
         st = db_ring db Claim in
     case ring_cursor authority st of
       Inl e \<Rightarrow> (Inl e, db)
     | Inr (current_slot, g) \<Rightarrow>
         (case oldest_initialized_ring_slot current_slot g (rs_slot_count st) of
            None \<Rightarrow> (Inr Noop, db)
          | Some (slot, generation) \<Rightarrow>
              if \<not> acquired then (Inr (Blocked slot), db)
              else if map_of (rs_slots st) slot = None then (Inr Noop, db)
              else if claim_prune_has_open_claims db slot
              then (Inr (SkippedActive slot ClaimOpen (busy_indicator True)), db)
              else
                let db1 = pe_while_waiting env db in
                case pe_lock_result env of
                  Some err \<Rightarrow> (lock_failed err slot, db1)
                | None \<Rightarrow>
                    (case ring_cursor authority (db_ring db1 Claim) of
                       Inl e \<Rightarrow> (Inl e, db1)
                     | Inr (current_slot', _) \<Rightarrow>
                         if current_slot' = slot then (Inr (SkippedActive slot ClaimCurrent 0), db1)
                         else if claim_prune_has_open_claims db1 slot
                         then (Inr (SkippedActive slot ClaimOpen (busy_indicator True)), db1)
                         else
                           case pe_truncate_result env of
                             Some err \<Rightarrow> (lock_failed err slot, db1)
                           | None \<Rightarrow>
                               (Inr (Pruned slot generation 0 (pe_durations env)),
                                reset_claim_cursors slot
                                  (truncate_used_children (family_relations Claim) slot db1)))))"

subsection \<open>Invariants of a ring\<close>

definition ledger_rows_wf :: "ring_state \<Rightarrow> bool" where
  "ledger_rows_wf st \<longleftrightarrow>
     0 < rs_slot_count st \<and> distinct (map fst (rs_ledger st)) \<and>
     (\<forall>(g, s, t) \<in> set (rs_ledger st). 0 \<le> g \<and> s = g mod rs_slot_count st)"

definition ledger_wf :: "ring_state \<Rightarrow> bool" where
  "ledger_wf st \<longleftrightarrow> ledger_rows_wf st \<and> rs_ledger st \<noteq> []"

definition columns_wf :: "ring_state \<Rightarrow> bool" where
  "columns_wf st \<longleftrightarrow>
     ledger_rows_wf st \<and> 0 \<le> rs_generation st \<and>
     rs_current_slot st = rs_generation st mod rs_slot_count st \<and>
     (\<forall>g \<in> set (map fst (rs_ledger st)). g \<le> rs_generation st)"

fun ring_wf :: "ring_authority \<Rightarrow> ring_state \<Rightarrow> bool" where
  "ring_wf Ledger st = ledger_wf st"
| "ring_wf Columns st = columns_wf st"

definition rings_wf :: "ring_db \<Rightarrow> bool" where
  "rings_wf db \<longleftrightarrow> (\<forall>f. ring_wf (ring_authority_of db) (db_ring db f))"

text \<open>The cursor the rest of the code reads, and its generation.\<close>

definition db_cursor :: "ring_db \<Rightarrow> ring_family \<Rightarrow> awa_error + int \<times> int" where
  "db_cursor db f = ring_cursor (ring_authority_of db) (db_ring db f)"

definition db_generation :: "ring_db \<Rightarrow> ring_family \<Rightarrow> int" where
  "db_generation db f = (case db_cursor db f of Inl _ \<Rightarrow> - 1 | Inr (_, g) \<Rightarrow> g)"


subsection \<open>The cursor as an interface\<close>

text \<open>
  What a rotator relies on, whichever representation is authoritative: the cursor can be read and
  its slot is the generation modulo the width, the append of the next generation wins and moves the
  cursor there, and the append of a generation that is already current is lost without effect.
\<close>

locale ring_provider =
  fixes cursor :: "'st \<Rightarrow> awa_error + int \<times> int"
    and append :: "timestamp \<Rightarrow> int \<Rightarrow> int \<Rightarrow> 'st \<Rightarrow> bool \<times> 'st"
    and width :: "'st \<Rightarrow> int"
    and inv :: "'st \<Rightarrow> bool"
  assumes width_pos: "inv st \<Longrightarrow> 0 < width st"
    and cursor_read: "inv st \<Longrightarrow> \<exists>g \<ge> 0. cursor st = Inr (g mod width st, g)"
    and append_next:
      "inv st \<Longrightarrow> cursor st = Inr (s, g) \<Longrightarrow>
        \<exists>st'. append now (g + 1) ((g + 1) mod width st) st = (True, st') \<and> inv st' \<and>
          width st' = width st \<and> cursor st' = Inr ((g + 1) mod width st, g + 1)"
    and append_lost: "inv st \<Longrightarrow> cursor st = Inr (s, g) \<Longrightarrow> append now g s' st = (False, st)"
begin

lemma next_slot: "inv st \<Longrightarrow> cursor st = Inr (s, g) \<Longrightarrow> rem_euclid (s + 1) (width st) = (g + 1) mod width st"
  using width_pos [of st] cursor_read [of st] by (auto simp: rem_euclid_def mod_simps)

text \<open>Of two rotators that read the same cursor, exactly the first advances it.\<close>

lemma race:
  assumes "inv st" "cursor st = Inr (s, g)"
  obtains st' where "append now (g + 1) (rem_euclid (s + 1) (width st)) st = (True, st')"
    and "inv st'" "cursor st' = Inr ((g + 1) mod width st, g + 1)"
    and "append now' (g + 1) (rem_euclid (s + 1) (width st)) st' = (False, st')"
  using append_next [OF assms, of now] append_lost next_slot [OF assms] by metis

lemma advance:
  assumes "inv st" "cursor st = Inr (s, g)"
    and "append now (g + 1) (rem_euclid (s + 1) (width st)) st = (won, st')"
  shows "won \<and> inv st' \<and> cursor st' = Inr ((g + 1) mod width st, g + 1)"
  using append_next [OF assms(1,2), of now] assms(3) next_slot [OF assms(1,2)] by auto

end

lemma ledger_insert_fresh:
  "distinct (map fst rs) \<Longrightarrow> set (map fst rs) \<inter> set (map fst l) = {} \<Longrightarrow> ledger_insert l rs = l @ rs"
  by (induction l rs rule: ledger_insert.induct) auto

lemma ledger_max_Some:
  assumes "ledger_max l = Some g"
  shows "g \<in> set (map fst l) \<and> (\<forall>h \<in> set (map fst l). h \<le> g)"
proof -
  have ne: "set (map fst l) \<noteq> {}" and g: "g = Max (set (map fst l))"
    using assms by (auto simp: ledger_max_def split: if_splits)
  show ?thesis using Max_in [OF _ ne] by (simp only: g) (blast intro: Max_ge)
qed

lemma ledger_max_eqI:
  assumes "g \<in> set (map fst l)" "\<And>h. h \<in> set (map fst l) \<Longrightarrow> h \<le> g"
  shows "ledger_max l = Some g"
  using assms by (auto simp: ledger_max_def intro!: Max_eqI)

lemma ledger_cursor_eq:
  assumes "ledger_rows_wf st" "ledger_max (rs_ledger st) = Some g"
  shows "ledger_cursor st = Inr (g mod rs_slot_count st, g)"
proof -
  obtain s t where "(g, s, t) \<in> set (rs_ledger st)" using ledger_max_Some [OF assms(2)] by auto
  moreover from this have "map_of (rs_ledger st) g = Some (s, t)"
    using assms(1) by (simp add: ledger_rows_wf_def)
  ultimately show ?thesis using assms by (auto simp: ledger_cursor_def ledger_rows_wf_def)
qed

lemma ledger_wf_cursor:
  assumes "ledger_wf st"
  obtains g where "0 \<le> g" "ledger_max (rs_ledger st) = Some g"
    "ledger_cursor st = Inr (g mod rs_slot_count st, g)"
proof -
  obtain g where g: "ledger_max (rs_ledger st) = Some g"
    using assms by (auto simp: ledger_wf_def ledger_max_def)
  moreover have "0 \<le> g"
    using ledger_max_Some [OF g] assms by (auto simp: ledger_wf_def ledger_rows_wf_def)
  ultimately show ?thesis using that ledger_cursor_eq assms by (auto simp: ledger_wf_def)
qed

lemma ledger_wf_width: "ledger_wf st \<Longrightarrow> 0 < rs_slot_count st"
  by (simp add: ledger_wf_def ledger_rows_wf_def)

lemma ledger_append_next:
  assumes "ledger_wf st" "ledger_cursor st = Inr (s, g)"
  shows "\<exists>st'. ledger_append now (g + 1) ((g + 1) mod rs_slot_count st) st = (True, st') \<and>
    ledger_wf st' \<and> rs_slot_count st' = rs_slot_count st \<and>
    ledger_cursor st' = Inr ((g + 1) mod rs_slot_count st, g + 1)"
proof -
  from assms have g: "ledger_max (rs_ledger st) = Some g" "0 \<le> g"
    by (auto elim!: ledger_wf_cursor)
  then have fresh: "g + 1 \<notin> set (map fst (rs_ledger st))" using ledger_max_Some by fastforce
  let ?st = "st\<lparr>rs_ledger := rs_ledger st @ [(g + 1, (g + 1) mod rs_slot_count st, now)]\<rparr>"
  have wf: "ledger_rows_wf ?st"
    using assms(1) g(2) fresh by (auto simp: ledger_wf_def ledger_rows_wf_def)
  have "ledger_max (rs_ledger ?st) = Some (g + 1)"
    using ledger_max_Some [OF g(1)] by (intro ledger_max_eqI) fastforce+
  with wf show ?thesis
    using fresh ledger_cursor_eq [OF wf] by (auto simp: ledger_append_def ledger_wf_def)
qed

interpretation ledger_ring: ring_provider ledger_cursor ledger_append rs_slot_count ledger_wf
proof
  fix st s g now s'
  assume "ledger_wf st" "ledger_cursor st = Inr (s, g)"
  then have "g \<in> set (map fst (rs_ledger st))"
    by (auto elim!: ledger_wf_cursor dest: ledger_max_Some)
  then show "ledger_append now g s' st = (False, st)" by (simp add: ledger_append_def)
qed (auto simp: ledger_wf_width elim: ledger_wf_cursor intro: ledger_append_next)

text \<open>
  Bringing the ledger up to a generation at or above all of its own: the result is well formed, and
  its cursor is that generation.
\<close>

lemma reconcile_ledger_wf:
  assumes wf: "ledger_rows_wf st" and le: "\<forall>h \<in> set (map fst (rs_ledger st)). h \<le> g" and "0 \<le> g"
  shows "ledger_wf (reconcile_ledger now g st) \<and>
    ledger_cursor (reconcile_ledger now g st) = Inr (g mod rs_slot_count st, g) \<and>
    (\<forall>h \<in> set (map fst (rs_ledger (reconcile_ledger now g st))). h \<le> g)"
proof -
  define m where "m = (case ledger_max (rs_ledger st) of None \<Rightarrow> - 1 | Some g \<Rightarrow> g)"
  define rs where "rs = ledger_rows [m + 1..g] (rs_slot_count st) now"
  have below: "h \<le> m" if "h \<in> set (map fst (rs_ledger st))" for h
    using that ledger_max_Some by (auto simp: m_def ledger_max_def)
  have m: "- 1 \<le> m" "m \<noteq> - 1 \<longrightarrow> m \<in> set (map fst (rs_ledger st))"
    using wf ledger_max_Some [of "rs_ledger st"]
    by (fastforce simp: m_def ledger_rows_wf_def split: option.split)+
  have keys: "map fst rs = [m + 1..g]" by (simp add: rs_def ledger_rows_def comp_def)
  have "ledger_insert (rs_ledger st) rs = rs_ledger st @ rs"
    using below by (intro ledger_insert_fresh) (fastforce simp: keys)+
  then have eq: "reconcile_ledger now g st = st\<lparr>rs_ledger := rs_ledger st @ rs\<rparr>"
    by (simp add: reconcile_ledger_def rs_def m_def)
  have "distinct (map fst (rs_ledger st @ rs))"
    using wf below unfolding map_append distinct_append keys ledger_rows_wf_def by fastforce
  then have rows: "ledger_rows_wf (reconcile_ledger now g st)"
    using wf m(1) by (auto simp: eq ledger_rows_wf_def rs_def ledger_rows_def)
  have "g \<in> set (map fst (rs_ledger st @ rs))"
    using m le assms(3) by (cases "m = g") (auto simp: keys simp del: list.set_map)
  moreover have all: "\<forall>h \<in> set (map fst (rs_ledger st @ rs)). h \<le> g"
    using le by (auto simp: keys simp del: list.set_map)
  ultimately have "ledger_max (rs_ledger st @ rs) = Some g" by (intro ledger_max_eqI) auto
  then show ?thesis
    using rows all ledger_cursor_eq [OF rows] by (auto simp: eq ledger_wf_def ledger_max_def)
qed

lemma reconcile_ledger_fields [simp]:
  "rs_slot_count (reconcile_ledger now g st) = rs_slot_count st"
  "rs_current_slot (reconcile_ledger now g st) = rs_current_slot st"
  "rs_generation (reconcile_ledger now g st) = rs_generation st"
  "rs_slots (reconcile_ledger now g st) = rs_slots st"
  by (simp_all add: reconcile_ledger_def)

lemma columns_wf_width: "columns_wf st \<Longrightarrow> 0 < rs_slot_count st"
  by (simp add: columns_wf_def ledger_rows_wf_def)

lemma columns_wf_cursor:
  "columns_wf st \<Longrightarrow> \<exists>g \<ge> 0. columns_cursor st = Inr (g mod rs_slot_count st, g)"
  by (simp add: columns_wf_def columns_cursor_def)

lemma columns_append_next:
  assumes "columns_wf st" "columns_cursor st = Inr (s, g)"
  shows "\<exists>st'. columns_append now (g + 1) ((g + 1) mod rs_slot_count st) st = (True, st') \<and>
    columns_wf st' \<and> rs_slot_count st' = rs_slot_count st \<and>
    columns_cursor st' = Inr ((g + 1) mod rs_slot_count st, g + 1)"
proof -
  let ?n = "rs_slot_count st"
  let ?st = "st\<lparr>rs_current_slot := (g + 1) mod ?n, rs_generation := g + 1,
                rs_slots := stamp_slot ((g + 1) mod ?n) (g + 1) (rs_slots st)\<rparr>"
  have "ledger_rows_wf ?st" "\<forall>h \<in> set (map fst (rs_ledger ?st)). h \<le> g + 1" "0 \<le> g + 1"
    using assms by (auto simp: columns_wf_def columns_cursor_def ledger_rows_wf_def)
  note rec = reconcile_ledger_wf [OF this, of now]
  then show ?thesis
    using assms
    by (auto simp: columns_append_def columns_cursor_def columns_wf_def ledger_wf_def)
qed

interpretation columns_ring: ring_provider columns_cursor columns_append rs_slot_count columns_wf
proof
  fix st s g now s'
  assume "columns_wf st" "columns_cursor st = Inr (s, g)"
  then show "columns_append now g s' st = (False, st)"
    by (simp add: columns_append_def columns_cursor_def)
qed (auto simp: columns_wf_width columns_wf_cursor intro: columns_append_next)

interpretation auth_ring: ring_provider "ring_cursor a" "append_ring_rotation a" rs_slot_count "ring_wf a"
  for a :: ring_authority
proof (cases a)
  case Ledger
  then show "ring_provider (ring_cursor a) (append_ring_rotation a) rs_slot_count (ring_wf a)"
    using ledger_ring.ring_provider_axioms by (simp add: ring_provider_def)
next
  case Columns
  then show "ring_provider (ring_cursor a) (append_ring_rotation a) rs_slot_count (ring_wf a)"
    using columns_ring.ring_provider_axioms by (simp add: ring_provider_def)
qed

subsection \<open>Steps of the rings\<close>

text \<open>
  Every operation that runs against a ring, one at a time: the serializer orders the ring operations,
  and \<open>step_traffic\<close> is any write of claimers, completers and enqueuers, which touches
  the partitions and never a cursor.  \<open>step_legacy\<close> is the rotator of the previous release, which
  advances the columns and leaves the ledger behind; it can only run before the flip.
\<close>

definition keeps_cursors :: "(ring_db \<Rightarrow> ring_db) \<Rightarrow> bool" where
  "keeps_cursors w \<longleftrightarrow> (\<forall>db. db_ring (w db) = db_ring db \<and> db_authority (w db) = db_authority db)"

definition legacy_rotate :: "ring_state \<Rightarrow> ring_state" where
  "legacy_rotate st =
    (let slot = rem_euclid (rs_current_slot st + 1) (rs_slot_count st); g = rs_generation st + 1 in
     st\<lparr>rs_current_slot := slot, rs_generation := g, rs_slots := stamp_slot slot g (rs_slots st)\<rparr>)"

inductive ring_step :: "ring_db \<Rightarrow> ring_db \<Rightarrow> bool" where
  step_rotate: "rotate_with_cadence env cadence (db, obs) = (res, db', obs') \<Longrightarrow> ring_step db db'"
| step_rotate_leases:
    "rotate_leases_with_cadence env cadence (db, obs) = (res, db', obs') \<Longrightarrow> ring_step db db'"
| step_rotate_claims:
    "rotate_claims_with_cadence env cadence (db, obs) = (res, db', obs') \<Longrightarrow> ring_step db db'"
| step_fold: "fold_ring_rotation_ledgers pinned db = (out, db') \<Longrightarrow> ring_step db db'"
| step_flip: "flip_ring_authority now force blocking db = (res', db') \<Longrightarrow> ring_step db db'"
| step_prune_leases:
    "keeps_cursors (pe_while_waiting penv) \<Longrightarrow> prune_oldest_leases penv db = (pres, db') \<Longrightarrow>
      ring_step db db'"
| step_prune_claims:
    "keeps_cursors (pe_while_waiting penv) \<Longrightarrow> prune_oldest_claims penv db = (pres, db') \<Longrightarrow>
      ring_step db db'"
| step_traffic:
    "db_ring db' = db_ring db \<Longrightarrow> db_authority db' = db_authority db \<Longrightarrow> ring_step db db'"
| step_legacy:
    "ring_authority_of db = Columns \<Longrightarrow>
      ring_step db (set_ring f (legacy_rotate (db_ring db f)) db)"

inductive_cases ring_stepE: "ring_step db db'"

lemma set_ring_simps [simp]:
  "db_ring (set_ring f st db) = (db_ring db)(f := st)"
  "db_authority (set_ring f st db) = db_authority db"
  "ring_authority_of (set_ring f st db) = ring_authority_of db"
  "db_rows (set_ring f st db) = db_rows db"
  "db_batched (set_ring f st db) = db_batched db"
  "db_storage (set_ring f st db) = db_storage db"
  by (simp_all add: set_ring_def ring_authority_of_def)

lemma rings_wf_set_ring:
  "rings_wf db \<Longrightarrow> ring_wf (ring_authority_of db) st \<Longrightarrow> rings_wf (set_ring f st db)"
  by (simp add: rings_wf_def)

lemma rings_wfD: "rings_wf db \<Longrightarrow> ring_wf (ring_authority_of db) (db_ring db f)"
  by (simp add: rings_wf_def)

lemma rings_wf_cong:
  "db_ring db' = db_ring db \<Longrightarrow> db_authority db' = db_authority db \<Longrightarrow>
     rings_wf db' = rings_wf db \<and> db_cursor db' = db_cursor db"
  by (simp add: rings_wf_def db_cursor_def fun_eq_iff ring_authority_of_def)

lemma db_cursor_wf:
  assumes "rings_wf db"
  shows "\<exists>g \<ge> 0. db_cursor db f = Inr (g mod rs_slot_count (db_ring db f), g)"
  unfolding db_cursor_def using assms by (rule auth_ring.cursor_read [OF rings_wfD])

lemma rotate_ring_step:
  assumes wf: "rings_wf db"
    and eq: "rotate_ring f idle lost env cadence (db, obs) = (res, db', obs')"
  shows "rings_wf db' \<and>
    (\<exists>out. res = Inr out \<and>
      (case out of
         Rotated s g \<Rightarrow>
           db_cursor db' = (db_cursor db)(f := Inr (s, g)) \<and> db_generation db f + 1 = g \<and>
           s = g mod rs_slot_count (db_ring db f) \<and> db_rows db' = db_rows db \<and>
           db_authority db' = db_authority db \<and> (\<forall>r \<in> set (family_relations f). db_rows db r s = 0)
       | _ \<Rightarrow> db' = db))"
proof -
  define a where "a = ring_authority_of db"
  define st where "st = db_ring db f"
  have st: "ring_wf a st" using wf by (simp add: a_def st_def rings_wfD)
  then obtain g where cur: "ring_cursor a st = Inr (g mod rs_slot_count st, g)"
    using auth_ring.cursor_read by blast
  define s where "s = rem_euclid (g mod rs_slot_count st + 1) (rs_slot_count st)"
  obtain won st' where app: "append_ring_rotation a (re_db_now env) (g + 1) s st = (won, st')"
    by fastforce
  note adv = auth_ring.advance [OF st cur app [unfolded s_def]]
  have s: "s = (g + 1) mod rs_slot_count st" using auth_ring.next_slot [OF st cur] by (simp add: s_def)
  have serial: "fst (acquire_ring_serializer (re_lock_free env) db) = a"
    by (simp add: acquire_ring_serializer_def a_def split: ring_authority.split)
  have "res = Inr (Rotated s (g + 1)) \<and> db' = set_ring f st' db \<and> \<not> next_slot_busy db f s
      \<or> db' = db \<and> (\<exists>out. res = Inr out \<and> (\<forall>s g. out \<noteq> Rotated s g))"
    using eq cur app adv serial
    by (auto simp: rotate_ring_def st_def [symmetric] s_def [symmetric] split: prod.splits if_splits)
  then show ?thesis
  proof (elim disjE conjE exE)
    assume *: "res = Inr (Rotated s (g + 1))" "db' = set_ring f st' db" "\<not> next_slot_busy db f s"
    have gen: "db_generation db f = g" using cur by (simp add: db_generation_def db_cursor_def a_def st_def)
    have "db_cursor db' = (db_cursor db)(f := Inr (s, g + 1))"
      using adv s by (auto simp: *(2) db_cursor_def fun_eq_iff a_def)
    moreover have "rings_wf db'" using adv wf by (simp add: *(2) rings_wf_set_ring a_def)
    ultimately show ?thesis
      using * s gen by (simp add: next_slot_busy_def relation_has_rows_def st_def)
  qed (use wf in \<open>auto split: rotate_outcome.split\<close>)
qed

lemma filter_ledger_wf:
  assumes "ledger_rows_wf st"
  shows "ledger_rows_wf (st\<lparr>rs_ledger := filter P (rs_ledger st)\<rparr>)"
  using assms by (auto simp: ledger_rows_wf_def distinct_map_filter)

lemma fold_ledger_keeps:
  assumes wf: "ring_wf a st"
  shows "ring_wf a (snd (fold_ledger st)) \<and> ring_cursor a (snd (fold_ledger st)) = ring_cursor a st \<and>
    rs_slot_count (snd (fold_ledger st)) = rs_slot_count st"
proof (cases "ledger_max (rs_ledger st)")
  case None
  with wf show ?thesis by (simp add: fold_ledger_def)
next
  case (Some g)
  define st' where "st' = snd (fold_ledger st)"
  have rows: "ledger_rows_wf st" using wf by (cases a) (simp_all add: ledger_wf_def columns_wf_def)
  have st': "st' = st\<lparr>rs_ledger := filter (\<lambda>r. \<not> fst r < g - (rs_slot_count st - 1)) (rs_ledger st)\<rparr>"
    using Some by (simp add: st'_def fold_ledger_def Let_def)
  have rows': "ledger_rows_wf st'" unfolding st' by (rule filter_ledger_wf [OF rows])
  have mem: "g \<in> set (map fst (rs_ledger st'))"
    using ledger_max_Some [OF Some] rows by (fastforce simp: st' ledger_rows_wf_def)
  then have "ledger_max (rs_ledger st') = Some g"
    by (rule ledger_max_eqI) (use ledger_max_Some [OF Some] in \<open>auto simp: st'\<close>)
  then have "ledger_cursor st' = ledger_cursor st"
    using ledger_cursor_eq [OF rows] ledger_cursor_eq [OF rows'] Some by (simp add: st')
  moreover have "rs_ledger st' \<noteq> []" using mem by auto
  ultimately show ?thesis
    unfolding st'_def [symmetric] using wf rows'
    by (cases a) (auto simp: ledger_wf_def columns_wf_def st' columns_cursor_def)
qed

lemma fold_ring_rotation_ledgers_keeps:
  assumes "rings_wf db" "fold_ring_rotation_ledgers pinned db = (out, db')"
  shows "rings_wf db' \<and> db_cursor db' = db_cursor db \<and> db_authority db' = db_authority db"
proof (cases pinned)
  case True
  with assms show ?thesis by (simp add: fold_ring_rotation_ledgers_def)
next
  case False
  let ?fold = "\<lambda>f. snd (fold_ledger (db_ring db f))"
  have "db' = set_ring Claim (?fold Claim) (set_ring Lease (?fold Lease) (set_ring Queue (?fold Queue) db))"
    using assms(2) False by (simp add: fold_ring_rotation_ledgers_def case_prod_beta Let_def)
  then have db': "db_authority db' = db_authority db" "db_ring db' f = ?fold f" for f
    by (simp, cases f) simp_all
  then have "ring_authority_of db' = ring_authority_of db" by (simp add: ring_authority_of_def)
  with db' assms(1) show ?thesis
    by (simp add: rings_wf_def db_cursor_def fun_eq_iff fold_ledger_keeps)
qed

lemma flip_ring_ok:
  assumes "columns_wf st"
  shows "flip_ring now st = Inr (reconcile_ledger now (rs_generation st) st) \<and>
    ledger_wf (reconcile_ledger now (rs_generation st) st) \<and>
    ledger_cursor (reconcile_ledger now (rs_generation st) st) = columns_cursor st"
proof -
  have "ledger_rows_wf st" "\<forall>h \<in> set (map fst (rs_ledger st)). h \<le> rs_generation st"
    "0 \<le> rs_generation st" "rs_current_slot st = rs_generation st mod rs_slot_count st"
    "0 < rs_slot_count st"
    using assms by (auto simp: columns_wf_def ledger_rows_wf_def)
  note st = this
  have "\<not> (case ledger_max (rs_ledger st) of None \<Rightarrow> False | Some g \<Rightarrow> g > rs_generation st)"
  proof (cases "ledger_max (rs_ledger st)")
    case (Some g)
    then have "g \<le> rs_generation st" using st(2) ledger_max_Some by blast
    with Some show ?thesis by simp
  qed simp
  with st reconcile_ledger_wf [OF st(1-3), of now] show ?thesis
    by (simp add: flip_ring_def columns_cursor_def Let_def not_less not_le)
qed

lemma poison_columns_ledger [simp]:
  "ledger_wf (poison_columns st) = ledger_wf st"
  "ledger_cursor (poison_columns st) = ledger_cursor st"
  by (simp_all add: poison_columns_def ledger_wf_def ledger_rows_wf_def ledger_cursor_def
      split: option.split)

lemma flip_ring_authority_keeps:
  assumes wf: "rings_wf db" and eq: "flip_ring_authority now force blocking db = (res, db')"
  shows "rings_wf db' \<and> db_cursor db' = db_cursor db \<and>
    (if db_authority db \<noteq> ''ledger'' \<and> \<not> force \<and> blocking > 0
     then res = Inl prerequisite_error \<and> db' = db
     else res = Inr ''ledger'' \<and> db_authority db' = ''ledger'')"
proof (cases "db_authority db = ''ledger'' \<or> \<not> force \<and> blocking > 0")
  case True
  with assms show ?thesis by (auto simp: flip_ring_authority_def split: if_splits)
next
  case False
  then have cols: "ring_authority_of db = Columns" by (simp add: ring_authority_of_def)
  have ok: "columns_wf (db_ring db f)" for f using rings_wfD [OF wf, of f] cols by simp
  let ?flip = "\<lambda>f. poison_columns (reconcile_ledger now (rs_generation (db_ring db f)) (db_ring db f))"
  note flip_ok = flip_ring_ok [OF ok, THEN conjunct1]
  have "db' = (set_ring Queue (?flip Queue) (set_ring Lease (?flip Lease)
      (set_ring Claim (?flip Claim) db)))\<lparr>db_authority := ''ledger''\<rparr>" and res: "res = Inr ''ledger''"
    using eq False by (auto simp: flip_ring_authority_def flip_ok)
  then have auth: "db_authority db' = ''ledger''" and ring: "db_ring db' f = ?flip f" for f
    by (simp, cases f) simp_all
  then have "ring_authority_of db' = Ledger" by (simp add: ring_authority_of_def)
  with ring auth res False cols show ?thesis
    using flip_ring_ok [OF ok] by (auto simp: rings_wf_def db_cursor_def fun_eq_iff)
qed

lemma keeps_cursorsD: "keeps_cursors w \<Longrightarrow> db_ring (w db) = db_ring db \<and> db_authority (w db) = db_authority db"
  by (simp add: keeps_cursors_def)

lemma truncate_keeps [simp]:
  "db_ring (truncate_used_children rs slot db) = db_ring db"
  "db_authority (truncate_used_children rs slot db) = db_authority db"
  "db_ring (reset_claim_cursors slot db) = db_ring db"
  "db_authority (reset_claim_cursors slot db) = db_authority db"
  by (simp_all add: truncate_used_children_def reset_claim_cursors_def Let_def)

lemma prune_oldest_leases_keeps:
  assumes "keeps_cursors (pe_while_waiting env)" "prune_oldest_leases env db = (res, db')"
  shows "db_ring db' = db_ring db \<and> db_authority db' = db_authority db"
  using keeps_cursorsD [OF assms(1), of db] assms(2)
  by (auto simp: prune_oldest_leases_def Let_def
      split: prod.splits sum.splits option.splits if_splits)

lemma prune_oldest_claims_keeps:
  assumes "keeps_cursors (pe_while_waiting env)" "prune_oldest_claims env db = (res, db')"
  shows "db_ring db' = db_ring db \<and> db_authority db' = db_authority db"
  using keeps_cursorsD [OF assms(1), of db] assms(2)
  by (auto simp: prune_oldest_claims_def Let_def
      split: prod.splits sum.splits option.splits if_splits)

lemma legacy_rotate_keeps:
  assumes "columns_wf st"
  shows "columns_wf (legacy_rotate st) \<and> rs_generation (legacy_rotate st) = rs_generation st + 1"
  using assms
  by (auto simp: legacy_rotate_def Let_def columns_wf_def ledger_rows_wf_def rem_euclid_def mod_simps)

text \<open>How one step may move the cursors: well-formedness is kept, the authority only goes from the
  columns to the ledger, and a generation stays or grows by one.\<close>

definition step_ok :: "ring_db \<Rightarrow> ring_db \<Rightarrow> bool" where
  "step_ok db db' \<longleftrightarrow>
     rings_wf db' \<and> (ring_authority_of db = Ledger \<longrightarrow> ring_authority_of db' = Ledger) \<and>
     (\<forall>f. db_generation db' f = db_generation db f \<or> db_generation db' f = db_generation db f + 1)"

lemma step_ok_same:
  assumes "rings_wf db" "db_ring db' = db_ring db \<and> db_authority db' = db_authority db"
  shows "step_ok db db'"
  using assms rings_wf_cong [of db' db] by (simp add: step_ok_def db_generation_def ring_authority_of_def)

lemma step_ok_rotate:
  assumes "rings_wf db" "rotate_ring f idle lost env cadence (db, obs) = (res, db', obs')"
  shows "step_ok db db'"
proof -
  obtain out where out: "res = Inr out" and wf': "rings_wf db'"
    using rotate_ring_step [OF assms] by blast
  show ?thesis
  proof (cases out)
    case (Rotated s g)
    with rotate_ring_step [OF assms] out show ?thesis
      by (auto simp: step_ok_def db_generation_def ring_authority_of_def)
  qed (use rotate_ring_step [OF assms] out assms(1) in \<open>auto simp: step_ok_same\<close>)
qed

lemma ring_step_ok:
  assumes "ring_step db db'" "rings_wf db"
  shows "step_ok db db'"
  using assms
proof cases
  case (step_fold pinned out)
  then show ?thesis
    using fold_ring_rotation_ledgers_keeps [OF assms(2)]
    by (auto simp: step_ok_def db_generation_def ring_authority_of_def)
next
  case (step_flip now force blocking res)
  then show ?thesis
    using flip_ring_authority_keeps [OF assms(2)]
    by (auto simp: step_ok_def db_generation_def ring_authority_of_def split: if_splits)
next
  case (step_legacy f)
  then have "columns_wf (db_ring db f)" using rings_wfD [OF assms(2), of f] by simp
  then show ?thesis
    using legacy_rotate_keeps [of "db_ring db f"] step_legacy assms(2)
    by (auto simp: step_ok_def db_generation_def db_cursor_def rings_wf_set_ring columns_cursor_def)
qed (use assms(2) in \<open>auto simp: rotate_with_cadence_def rotate_leases_with_cadence_def
      rotate_claims_with_cadence_def intro: step_ok_rotate
      dest: prune_oldest_leases_keeps prune_oldest_claims_keeps intro: step_ok_same\<close>)

subsection \<open>Properties of the rings\<close>

lemma ring_slot_generation_eq:
  assumes "0 < n" "0 \<le> s" "s < n"
  shows "ring_slot_generation (g mod n) g n s = (if g - (g - s) mod n \<ge> 0 then Some (g - (g - s) mod n) else None)"
  using assms by (simp add: ring_slot_generation_def rem_euclid_def Let_def mod_simps)

lemma sealed_slots_eq:
  assumes "1 < n" "0 \<le> g"
  shows "initialized_sealed_ring_slots (g mod n) g n = map (\<lambda>h. (h mod n, h)) [max 0 (g - n + 1)..g - 1]"
proof -
  have rev_upto: "rev (map (\<lambda>k. g - k) [1..m]) = [g - m..g - 1]" for m
  proof (induction "nat m" arbitrary: m)
    case (Suc k)
    then have "[1..m] = [1..m - 1] @ [m]" "[g - m..g - 1] = (g - m) # [g - (m - 1)..g - 1]"
      using upto_rec2 [of 1 m] upto_rec1 [of "g - m" "g - 1"] by (auto simp: algebra_simps)
    moreover have "rev (map (\<lambda>k. g - k) [1..m - 1]) = [g - (m - 1)..g - 1]" using Suc by auto
    ultimately show ?case by simp
  qed simp
  have "initialized_sealed_ring_slots (g mod n) g n =
      map (\<lambda>h. (h mod n, h)) (rev (map (\<lambda>k. g - k) [1..min (g + 1) n - 1]))"
    using assms
    by (simp add: initialized_sealed_ring_slots_def rem_euclid_def rev_map comp_def mod_simps)
  also have "\<dots> = map (\<lambda>h. (h mod n, h)) [g - (min (g + 1) n - 1)..g - 1]" by (simp only: rev_upto)
  also have "g - (min (g + 1) n - 1) = max 0 (g - n + 1)" by simp
  finally show ?thesis .
qed

lemma oldest_slot_eq:
  assumes "1 < n" "0 \<le> g"
  shows "oldest_initialized_ring_slot (g mod n) g n =
    (if g = 0 then None else Some (max 0 (g - n + 1) mod n, max 0 (g - n + 1)))"
proof -
  have "g - (min (g + 1) n - 1) = max 0 (g - n + 1)" by simp
  then show ?thesis
    using assms by (auto simp: oldest_initialized_ring_slot_def rem_euclid_def Let_def mod_simps)
qed

lemma window_mod:
  fixes h g n :: int
  assumes "0 < n" "g - n < h" "h \<le> g"
  shows "g - (g - h mod n) mod n = h"
proof -
  have "(g - h mod n) mod n = (g - h) mod n" by (simp add: mod_simps)
  also have "\<dots> = g - h" using assms by (intro mod_pos_pos_trivial) auto
  finally show ?thesis by simp
qed

lemma sealed_slot_generation:
  assumes "1 < n" "0 \<le> g" "max 0 (g - n + 1) \<le> h" "h \<le> g - 1"
  shows "ring_slot_generation (g mod n) g n (h mod n) = Some h \<and> h mod n \<noteq> g mod n"
proof -
  have "ring_slot_generation (g mod n) g n (h mod n) = Some h"
    using assms window_mod [of n g h] by (simp add: ring_slot_generation_eq)
  moreover have "ring_slot_generation (g mod n) g n (g mod n) = Some g"
    using assms window_mod [of n g g] by (simp add: ring_slot_generation_eq)
  ultimately show ?thesis using assms(4) by auto
qed

lemma initialized_slot_listed:
  fixes g n slot :: int
  assumes "0 \<le> slot" "slot < n" "0 \<le> g - (g - slot) mod n"
  shows "slot = g mod n \<or> slot \<in> (\<lambda>h. h mod n) ` {max 0 (g - n + 1)..g - 1}"
proof -
  let ?h = "g - (g - slot) mod n"
  have "0 \<le> (g - slot) mod n" "(g - slot) mod n < n" using assms(1,2) by auto
  moreover have "slot = ?h mod n" using assms(1,2) by (simp add: mod_simps)
  ultimately show ?thesis
    using assms(3) by (cases "?h = g") (auto intro: image_eqI [where x = ?h])
qed

text \<open>
  On a ring whose cursor is at a generation modulo its width, the sealed slots are the slots of
  the generations of the last wrap below the cursor, in ascending order; each of them is not the open
  slot, its last-open generation is the one listed, every other slot but the open one has never been
  open, and the prune target is the first of the list.
\<close>

theorem sealed_slots_correct:
  assumes "1 < slot_count" "0 \<le> generation" "current_slot = generation mod slot_count"
  defines "sealed \<equiv> initialized_sealed_ring_slots current_slot generation slot_count"
  shows "map snd sealed = [max 0 (generation - slot_count + 1)..generation - 1] \<and>
    (\<forall>(slot, g) \<in> set sealed. slot \<noteq> current_slot \<and>
       ring_slot_generation current_slot generation slot_count slot = Some g) \<and>
    (\<forall>slot. slot \<noteq> current_slot \<longrightarrow> slot \<notin> set (map fst sealed) \<longrightarrow>
       ring_slot_generation current_slot generation slot_count slot = None) \<and>
    oldest_initialized_ring_slot current_slot generation slot_count =
      (case sealed of [] \<Rightarrow> None | x # _ \<Rightarrow> Some x)"
proof (intro conjI)
  let ?n = slot_count and ?g = generation
  note sealed = sealed_slots_eq [OF assms(1,2), folded assms(3), folded sealed_def]
  show "map snd sealed = [max 0 (?g - ?n + 1)..?g - 1]" by (simp add: sealed comp_def)
  show "\<forall>(slot, g) \<in> set sealed. slot \<noteq> current_slot \<and> ring_slot_generation current_slot ?g ?n slot = Some g"
    using sealed_slot_generation [OF assms(1,2)] by (auto simp: sealed assms(3))
  show "oldest_initialized_ring_slot current_slot ?g ?n = (case sealed of [] \<Rightarrow> None | x # _ \<Rightarrow> Some x)"
    using assms(1,2) upto_rec1 [of "max 0 (?g - ?n + 1)" "?g - 1"]
    by (simp add: sealed assms(3) oldest_slot_eq)
  show "\<forall>slot. slot \<noteq> current_slot \<longrightarrow> slot \<notin> set (map fst sealed) \<longrightarrow>
      ring_slot_generation current_slot ?g ?n slot = None"
  proof (intro allI impI)
    fix slot assume "slot \<noteq> current_slot" "slot \<notin> set (map fst sealed)"
    then have "?g - (?g - slot) mod ?n < 0" if "0 \<le> slot" "slot < ?n"
      using initialized_slot_listed [OF that, of ?g] by (auto simp: sealed assms(3) image_image)
    then show "ring_slot_generation current_slot ?g ?n slot = None"
      using assms(1) ring_slot_generation_eq [of ?n slot ?g]
      by (cases "0 \<le> slot \<and> slot < ?n") (auto simp: assms(3) ring_slot_generation_def)
  qed
qed

theorem sealed_slots_correct_witness:
  "map snd (initialized_sealed_ring_slots 1 9 4) = [6..8] \<and>
   oldest_initialized_ring_slot 1 9 4 = Some (2, 6)"
  using sealed_slots_correct [of 4 9 1] by (simp add: oldest_initialized_ring_slot_def rem_euclid_def)

text \<open>A schema of three-slot rings just after installation, with one row in every open partition.\<close>

definition small_ring :: ring_state where
  "small_ring =
    \<lparr>rs_slot_count = 3, rs_current_slot = 0, rs_generation = 0, rs_slots = [(0, 0), (1, - 1), (2, - 1)],
     rs_ledger = [(0, 0, 0)]\<rparr>"

definition small_db :: "string \<Rightarrow> ring_db" where
  "small_db authority =
    \<lparr>db_authority = authority, db_ring = (\<lambda>_. small_ring), db_rows = (\<lambda>_ s. if s = 0 then 1 else 0),
     db_batched = (\<lambda>_ _. 0), db_storage = (\<lambda>_ s. s = 0), db_claim_cursors = []\<rparr>"

definition small_env :: rotate_env where
  "small_env = \<lparr>re_lock_free = True, re_db_now = 10, re_now = 10, re_bytes = (\<lambda>_ _. 8192)\<rparr>"

lemma small_db_wf: "rings_wf (small_db authority)"
  by (simp add: rings_wf_def small_db_def small_ring_def ring_authority_of_def ledger_wf_def
      columns_wf_def ledger_rows_wf_def)

text \<open>
  C23: from a schema whose rings are well formed, whatever sequence of rotations, folds, flips,
  prunes, data traffic and rotations by the previous release runs, every cursor can be read under
  the authority in force, its slot is its generation modulo the width, generations never decrease,
  and the ledger, once authoritative, stays so.
\<close>

theorem ring_cursors_reachable:
  assumes "rtranclp ring_step db db'" "rings_wf db"
  shows "rings_wf db' \<and>
    (\<forall>f. db_generation db f \<le> db_generation db' f \<and>
      (\<exists>g \<ge> 0. db_cursor db' f = Inr (g mod rs_slot_count (db_ring db' f), g))) \<and>
    (ring_authority_of db = Ledger \<longrightarrow> ring_authority_of db' = Ledger)"
  using assms
proof (induction rule: rtranclp_induct)
  case base
  then show ?case by (simp add: db_cursor_wf)
next
  case (step db1 db2)
  then have "step_ok db1 db2" by (simp add: ring_step_ok)
  with step have "rings_wf db2" "db_generation db f \<le> db_generation db2 f" for f
    unfolding step_ok_def by (metis, smt (verit))
  with step \<open>step_ok db1 db2\<close> show ?case by (auto simp: step_ok_def db_cursor_wf)
qed

theorem ring_cursors_reachable_witness:
  "rtranclp ring_step (small_db ''columns'') (snd (flip_ring_authority 5 False 0 (small_db ''columns''))) \<and>
   rings_wf (snd (flip_ring_authority 5 False 0 (small_db ''columns'')))"
proof -
  have "ring_step (small_db ''columns'') (snd (flip_ring_authority 5 False 0 (small_db ''columns'')))"
    by (rule step_flip) (rule prod.collapse [symmetric])
  then show ?thesis using ring_cursors_reachable [OF _ small_db_wf [of "''columns''"]] by blast
qed

text \<open>
  C15: a rotation of any of the three rings on a well-formed schema returns an outcome; if it
  reports that it rotated, the cursor it leaves is the reported one, one generation on, at a slot in
  which every partition of that ring was empty, and the other cursors did not move; under every
  other outcome the schema is unchanged.
\<close>

theorem rotation_opens_empty_slot:
  assumes "rings_wf db"
    and "(f, rot) \<in> {(Queue, rotate_with_cadence), (Lease, rotate_leases_with_cadence),
                     (Claim, rotate_claims_with_cadence)}"
    and "rot env cadence (db, obs) = (res, db', obs')"
  shows "\<exists>out. res = Inr out \<and>
      (case out of
         Rotated s g \<Rightarrow>
           db_cursor db' = (db_cursor db)(f := Inr (s, g)) \<and> g = db_generation db f + 1 \<and>
           s = g mod rs_slot_count (db_ring db f) \<and>
           (\<forall>r \<in> set (family_relations f). db_rows db' r s = 0)
       | _ \<Rightarrow> db' = db)"
proof -
  obtain idle lost where "rotate_ring f idle lost env cadence (db, obs) = (res, db', obs')"
    using assms(2,3)
    by (auto simp: rotate_with_cadence_def rotate_leases_with_cadence_def rotate_claims_with_cadence_def)
  from rotate_ring_step [OF assms(1) this] obtain out where "res = Inr out"
    "case out of
       Rotated s g \<Rightarrow>
         db_cursor db' = (db_cursor db)(f := Inr (s, g)) \<and> db_generation db f + 1 = g \<and>
         s = g mod rs_slot_count (db_ring db f) \<and> db_rows db' = db_rows db \<and>
         db_authority db' = db_authority db \<and> (\<forall>r \<in> set (family_relations f). db_rows db r s = 0)
     | _ \<Rightarrow> db' = db" by blast
  then show ?thesis by (cases out) auto
qed

theorem rotation_opens_empty_slot_witness:
  "fst (rotate_with_cadence small_env cadence_eager (small_db ''ledger'', \<lambda>_. None)) = Inr (Rotated 1 1) \<and>
   db_cursor (fst (snd (rotate_with_cadence small_env cadence_eager (small_db ''ledger'', \<lambda>_. None)))) Queue
     = Inr (1, 1)"
proof -
  let ?r = "rotate_with_cadence small_env cadence_eager (small_db ''ledger'', \<lambda>_. None)"
  have "fst ?r = Inr (Rotated 1 1)"
    by (simp add: rotate_with_cadence_def rotate_ring_def small_db_def small_ring_def small_env_def
        acquire_ring_serializer_def ring_authority_of_def ledger_cursor_def ledger_max_def
        slot_still_filling_def cadence_eager_def next_slot_busy_def relation_has_rows_def
        parent_slots_def ledger_append_def rem_euclid_def)
  moreover obtain res db' obs' where r: "?r = (res, db', obs')" by (rule prod_cases3)
  ultimately show ?thesis
    using rotation_opens_empty_slot [of "small_db ''ledger''" Queue rotate_with_cadence, OF small_db_wf _ r]
    by simp
qed



text \<open>Sampling at most the row floor per partition decides the floor exactly.\<close>

lemma sampled_rows_exact:
  "sampled_rows db children slot limit \<le> sum_list (map (\<lambda>r. db_rows db r slot) children) \<and>
   (sampled_rows db children slot limit < limit \<longrightarrow>
      sampled_rows db children slot limit = sum_list (map (\<lambda>r. db_rows db r slot) children))"
  by (induction children) (auto simp: sampled_rows_def)

lemma sampled_rows_floor:
  "sampled_rows db children slot limit < limit \<longleftrightarrow> sum_list (map (\<lambda>r. db_rows db r slot) children) < limit"
  using sampled_rows_exact [of db children slot limit] by auto

lemma sampled_rows_zero:
  assumes "0 < limit"
  shows "sampled_rows db children slot limit = 0 \<longleftrightarrow> sum_list (map (\<lambda>r. db_rows db r slot) children) = 0"
  using assms by (induction children) (auto simp: sampled_rows_def)

text \<open>
  With a non-zero minimum age, the open slot is kept open exactly when it holds rows, is smaller
  than the size target, has been open and observed for less than the maximum age, and is either younger
  than the minimum age or holds fewer rows than the floor, counted over all partitions of the slot
  although at most the floor is sampled in each.
\<close>

theorem slot_still_filling_iff:
  fixes db :: ring_db and f :: ring_family and cursor :: "int \<times> int" and env :: rotate_env
    and cadence :: ring_rotation_cadence and obs :: fill_observations
  assumes "min_slot_age cadence \<noteq> 0" "min_slot_rows cadence < 2 ^ 63"
  defines "held \<equiv> sum_list (map (\<lambda>r. db_rows db r (fst cursor)) (family_relations f))"
    and "bytes \<equiv> sum_list (map (\<lambda>r. re_bytes env r (fst cursor)) (family_relations f))"
    and "age \<equiv> (case obs f of
        Some seen \<Rightarrow> if so_cursor seen = cursor then max 0 (re_now env - first_nonempty_at seen) else 0
      | None \<Rightarrow> 0)"
    and "opened \<equiv> (case map_of (rs_ledger (db_ring db f)) (snd cursor) of
        None \<Rightarrow> 0 | Some (_, rotated_at) \<Rightarrow> max 0 (re_db_now env - rotated_at))"
  shows "fst (slot_still_filling env db f cursor cadence obs) \<longleftrightarrow>
    0 < held \<and>
    (target_slot_bytes cadence = 0 \<or> nat bytes < target_slot_bytes cadence) \<and>
    (max_slot_age cadence = 0 \<or> max age opened < max_slot_age cadence) \<and>
    (age < min_slot_age cadence \<or> held < min_slot_rows cadence)"
proof -
  define limit where "limit = min (max (min_slot_rows cadence) 1) (2 ^ 63 - 1)"
  have limit: "0 < limit" "limit = max (min_slot_rows cadence) 1" using assms(2) by (auto simp: limit_def)
  have rows: "sampled_rows db (family_relations f) (fst cursor) limit = 0 \<longleftrightarrow> held = 0"
    unfolding held_def by (rule sampled_rows_zero [OF limit(1)])
  have below: "sampled_rows db (family_relations f) (fst cursor) limit < min_slot_rows cadence \<longleftrightarrow>
      held < min_slot_rows cadence"
  proof (cases "min_slot_rows cadence = 0")
    case False
    then have "limit = min_slot_rows cadence" using limit(2) by simp
    then show ?thesis using sampled_rows_floor [of _ _ _ limit] by (simp add: held_def)
  qed simp
  define fresh where "fresh = \<lparr>so_cursor = cursor, first_nonempty_at = re_now env\<rparr>"
  define entry where "entry = (case obs f of None \<Rightarrow> fresh | Some seen \<Rightarrow> seen)"
  have age: "max 0 (re_now env - first_nonempty_at (if so_cursor entry \<noteq> cursor then fresh else entry)) = age"
    by (auto simp: age_def entry_def fresh_def split: option.split)
  show ?thesis
    unfolding slot_still_filling_def Let_def limit_def [symmetric] fresh_def [symmetric]
      entry_def [symmetric] age opened_def [symmetric] bytes_def [symmetric]
    by (simp add: assms(1) rows below not_le flip: neq0_conv) (auto simp: bytes_def not_le)
qed

theorem slot_still_filling_iff_witness:
  "fst (slot_still_filling small_env (small_db ''ledger'') Queue (0, 0) cadence_default (\<lambda>_. None))"
  using slot_still_filling_iff [of cadence_default small_env "small_db ''ledger''" Queue "(0, 0)" "\<lambda>_. None"]
  by (simp add: cadence_default_def small_db_def small_env_def small_ring_def)

text \<open>Which partitions of the slot a truncation leaves with rows: none, when a partition with rows has storage.\<close>

definition rows_have_storage :: "ring_db \<Rightarrow> bool" where
  "rows_have_storage db \<longleftrightarrow> (\<forall>r s. 0 < db_rows db r s \<longrightarrow> db_storage db r s)"

lemma truncate_rows:
  assumes "rows_have_storage db"
  shows "db_rows (truncate_used_children rs slot db) r s =
    (if r \<in> set rs \<and> s = slot then 0 else db_rows db r s)"
  using assms by (auto simp: truncate_used_children_def Let_def rows_have_storage_def)

lemma oldest_not_current:
  assumes "0 < n" "0 \<le> g" "oldest_initialized_ring_slot (g mod n) g n = Some (slot, h)"
  shows "slot \<noteq> g mod n \<and> slot = h mod n \<and> h < g"
proof -
  have n: "1 < n" using assms(3) by (simp add: oldest_initialized_ring_slot_def split: if_splits)
  have "g \<noteq> 0" "h = max 0 (g - n + 1)" "slot = h mod n"
    using assms(3) oldest_slot_eq [OF n assms(2)] by (auto split: if_splits)
  moreover have "h \<le> g - 1" using calculation(1,2) n assms(2) by auto
  ultimately show ?thesis using sealed_slot_generation [OF n assms(2), of h] by auto
qed


text \<open>A claim ring that has rotated once: one closed claim is left in slot 0.\<close>

definition rotated_ring :: ring_state where
  "rotated_ring =
    \<lparr>rs_slot_count = 3, rs_current_slot = - 1, rs_generation = - 1, rs_slots = [(0, - 1), (1, - 1), (2, - 1)],
     rs_ledger = [(0, 0, 0), (1, 1, 7)]\<rparr>"

definition rotated_db :: ring_db where
  "rotated_db =
    \<lparr>db_authority = ''ledger'', db_ring = (\<lambda>_. rotated_ring),
     db_rows = (\<lambda>r s. if s = 0 \<and> r \<in> {LeaseClaims, LeaseClaimClosures} then 1 else 0),
     db_batched = (\<lambda>_ _. 0), db_storage = (\<lambda>_ s. s = 0), db_claim_cursors = []\<rparr>"

definition calm_prune :: prune_env where
  "calm_prune =
    \<lparr>pe_lock_free = True, pe_lock_result = None, pe_while_waiting = id, pe_truncate_result = None,
     pe_durations = \<lparr>pd_lock = 0, pd_truncate = 0, pd_commit = 0\<rparr>\<rparr>"

lemmas rotated_defs = rotated_db_def rotated_ring_def calm_prune_def

lemma rotated_db_wf:
  "rings_wf rotated_db" "rows_have_storage rotated_db" "keeps_cursors (pe_while_waiting calm_prune)"
  by (simp_all add: rotated_defs rings_wf_def ring_authority_of_def ledger_wf_def ledger_rows_wf_def
      rows_have_storage_def keeps_cursors_def)



text \<open>
  when a lease prune reports success, whatever traffic committed while it waited for the table
  lock, the slot it truncated is sealed and not the open one and held no lease, so the prune removes
  no row at all.
\<close>

theorem lease_prune_removes_nothing:
  assumes "rings_wf db" "keeps_cursors (pe_while_waiting env)"
    and "prune_oldest_leases env db = (Inr (Pruned slot generation carried d), db')"
  shows "db_rows db' = db_rows (pe_while_waiting env db) \<and> db_rows db' Leases slot = 0 \<and>
    (\<exists>cur g. db_cursor db' Lease = Inr (cur, g) \<and> slot \<noteq> cur \<and> generation < g \<and>
       slot = generation mod rs_slot_count (db_ring db Lease))"
proof -
  let ?w = "pe_while_waiting env db" and ?n = "rs_slot_count (db_ring db Lease)"
  note keep = keeps_cursorsD [OF assms(2), of db]
  obtain g where cur: "db_cursor db Lease = Inr (g mod ?n, g)" "0 \<le> g"
    using db_cursor_wf [OF assms(1)] by blast
  have serial: "fst (acquire_ring_serializer (pe_lock_free env) db) = ring_authority_of db"
    by (simp add: acquire_ring_serializer_def split: ring_authority.split)
  have *: "oldest_initialized_ring_slot (g mod ?n) g ?n = Some (slot, generation)"
    "\<not> relation_has_rows ?w Leases slot" "db' = truncate_used_children [Leases] slot ?w"
    using assms(3) cur(1) serial unfolding prune_oldest_leases_def
    by (auto simp: Let_def db_cursor_def lock_failed_def
        split: prod.splits sum.splits option.splits if_splits)
  have "db_cursor db' Lease = Inr (g mod ?n, g)"
    using cur(1) keep by (simp add: *(3) db_cursor_def ring_authority_of_def)
  moreover have "0 < ?n" using assms(1) auth_ring.width_pos rings_wfD by blast
  moreover have "db_rows db' = db_rows ?w" "db_rows ?w Leases slot = 0"
    using *(2) by (auto simp: *(3) truncate_used_children_def Let_def relation_has_rows_def fun_eq_iff)
  ultimately show ?thesis using oldest_not_current [OF _ cur(2) *(1)] by auto
qed

theorem lease_prune_removes_nothing_witness:
  "\<exists>db'. prune_oldest_leases calm_prune rotated_db = (Inr (Pruned 0 0 0 (pe_durations calm_prune)), db') \<and>
     db_rows db' = db_rows rotated_db"
proof -
  obtain res db' where r: "prune_oldest_leases calm_prune rotated_db = (res, db')" by fastforce
  moreover have "res = Inr (Pruned 0 0 0 (pe_durations calm_prune))"
    using arg_cong [where f = fst, OF r]
    by (simp add: prune_oldest_leases_def acquire_ring_serializer_def ring_authority_of_def Let_def
        ledger_cursor_def ledger_max_def oldest_initialized_ring_slot_def rem_euclid_def
        relation_has_rows_def rotated_defs)
  ultimately show ?thesis
    using lease_prune_removes_nothing [OF rotated_db_wf(1,3), of 0 0 0 "pe_durations calm_prune" db']
    by (simp add: calm_prune_def)
qed

text \<open>
  under either authority, of two rotators that read the same cursor the first to append advances
  it by one generation and the second is told that it lost and changes nothing.
\<close>

theorem rotation_race:
  assumes "ring_wf a st" "ring_cursor a st = Inr (s, g)"
  shows "\<exists>st'. append_ring_rotation a now (g + 1) (rem_euclid (s + 1) (rs_slot_count st)) st = (True, st') \<and>
    ring_cursor a st' = Inr ((g + 1) mod rs_slot_count st, g + 1) \<and> ring_wf a st' \<and>
    append_ring_rotation a now' (g + 1) (rem_euclid (s + 1) (rs_slot_count st)) st' = (False, st')"
  using auth_ring.race [OF assms, of now now'] by metis

theorem rotation_race_witness:
  "\<exists>st'. append_ring_rotation Columns 3 1 1 small_ring = (True, st') \<and>
     append_ring_rotation Columns 4 1 1 st' = (False, st')"
  using rotation_race [of Columns small_ring 0 0 3 4]
  by (auto simp: columns_wf_def ledger_rows_wf_def columns_cursor_def small_ring_def rem_euclid_def)

end
