(* ===== verification/Awa_Lanes.thy ===== *)
theory Awa_Lanes
  imports Awa_Rows
begin

section \<open>Lanes, segments and claim cursors\<close>

text \<open>
  The parts of \<^verbatim>\<open>queue_storage.rs\<close> that arrange jobs in lanes, a lane being a queue, a priority and
  an enqueue shard with its own sequence: the grouping of a batch by lane, the segments that describe
  runs of consecutive lane positions, the splitting of a completion batch by the size of its outputs,
  and the advance of the claim cursors past claimed positions.
\<close>

type_synonym lane = "string \<times> int \<times> int"


subsection \<open>Rows before they have a position\<close>

record runtime_ready_row =
  rr_job_id :: "job_id option"
  rr_kind :: string
  rr_queue :: string
  rr_args :: json
  rr_priority :: int
  rr_attempt :: int
  rr_run_lease :: int
  rr_max_attempts :: int
  rr_run_at :: timestamp
  rr_attempted_at :: "timestamp option"
  rr_created_at :: timestamp
  rr_unique_key :: "bytes option"
  rr_unique_states :: "string option"
  rr_payload :: json
  rr_ordering_key :: "bytes option"

text \<open>\<^verbatim>\<open>entry(key).or_default().push(row)\<close>\<close>

definition omap_push :: "'k::linorder \<Rightarrow> 'v \<Rightarrow> ('k, 'v list) omap \<Rightarrow> ('k, 'v list) omap" where
  "omap_push k v m = omap_update k [] (\<lambda>vs. vs @ [v]) m"

definition omap_extend :: "'k::linorder \<Rightarrow> 'v list \<Rightarrow> ('k, 'v list) omap \<Rightarrow> ('k, 'v list) omap" where
  "omap_extend k vs m = omap_update k [] (\<lambda>ws. ws @ vs) m"

definition group_by_queue_priority ::
  "runtime_ready_row list \<Rightarrow> (string \<times> int, runtime_ready_row list) omap" where
  "group_by_queue_priority rows =
    foldl (\<lambda>m row. omap_push (rr_queue row, rr_priority row) row m) [] rows"

text \<open>One bucket of a queue and priority: keyed rows go to the shard of their key, in order, and the
  rows without a key are collected.\<close>

fun shard_bucket ::
  "(string \<rightharpoonup> int) \<Rightarrow> string \<Rightarrow> int \<Rightarrow> runtime_ready_row list \<Rightarrow>
     (lane, runtime_ready_row list) omap \<times> runtime_ready_row list \<times> store_local \<Rightarrow>
     (lane, runtime_ready_row list) omap \<times> runtime_ready_row list \<times> store_local" where
  "shard_bucket meta queue priority [] acc = acc"
| "shard_bucket meta queue priority (row # bucket) (grouped, rotor_rows, st) =
    (if rr_ordering_key row \<noteq> None then
       let (shard, st') = shard_for_enqueue meta queue (rr_ordering_key row) st in
       shard_bucket meta queue priority bucket
         (omap_push (queue, priority, shard) row grouped, rotor_rows, st')
     else shard_bucket meta queue priority bucket (grouped, rotor_rows @ [row], st))"

fun shard_buckets ::
  "(string \<rightharpoonup> int) \<Rightarrow> (string \<times> int, runtime_ready_row list) omap \<Rightarrow>
     (lane, runtime_ready_row list) omap \<times> store_local \<Rightarrow>
     (lane, runtime_ready_row list) omap \<times> store_local" where
  "shard_buckets meta [] acc = acc"
| "shard_buckets meta (((queue, priority), bucket) # rest) (grouped, st) =
    (let (grouped', rotor_rows, st') = shard_bucket meta queue priority bucket (grouped, [], st) in
     if rotor_rows \<noteq> [] then
       let (shard, st'') = shard_for_enqueue meta queue None st' in
       shard_buckets meta rest (omap_extend (queue, priority, shard) rotor_rows grouped', st'')
     else shard_buckets meta rest (grouped', st'))"

definition group_ready_rows_by_shard ::
  "(string \<rightharpoonup> int) \<Rightarrow> runtime_ready_row list \<Rightarrow> store_local \<Rightarrow>
     (lane, runtime_ready_row list) omap \<times> store_local" where
  "group_ready_rows_by_shard meta rows st =
    shard_buckets meta (group_by_queue_priority rows) ([], st)"


subsection \<open>Segments\<close>

record ready_segment_insert =
  sg_queue :: string
  sg_priority :: int
  sg_enqueue_shard :: int
  sg_first_lane_seq :: int
  sg_next_lane_seq :: int
  sg_first_run_at :: timestamp

definition segment_split :: "runtime_ready_insert \<Rightarrow> runtime_ready_insert \<Rightarrow> bool" where
  "segment_split previous current \<longleftrightarrow>
     r_queue previous \<noteq> r_queue current \<or> r_priority previous \<noteq> r_priority current \<or>
     ri_enqueue_shard previous \<noteq> ri_enqueue_shard current \<or>
     ri_lane_seq previous + 1 \<noteq> ri_lane_seq current \<or> r_run_at previous \<noteq> r_run_at current"

definition segment_of :: "runtime_ready_insert \<Rightarrow> runtime_ready_insert \<Rightarrow> ready_segment_insert" where
  "segment_of first prev =
    \<lparr>sg_queue = r_queue first, sg_priority = r_priority first,
     sg_enqueue_shard = ri_enqueue_shard first, sg_first_lane_seq = ri_lane_seq first,
     sg_next_lane_seq = ri_lane_seq prev + 1, sg_first_run_at = r_run_at first\<rparr>"

fun segments_from :: "runtime_ready_insert \<Rightarrow> runtime_ready_insert \<Rightarrow> runtime_ready_insert list \<Rightarrow>
    ready_segment_insert list" where
  "segments_from first prev [] = [segment_of first prev]"
| "segments_from first prev (row # rows) =
    (if segment_split prev row then segment_of first prev # segments_from row row rows
     else segments_from first row rows)"

fun ready_segments_from_rows :: "runtime_ready_insert list \<Rightarrow> ready_segment_insert list" where
  "ready_segments_from_rows [] = []"
| "ready_segments_from_rows (row # rows) = segments_from row row rows"


subsection \<open>Completion batches by output size\<close>

definition compact_batch_output_budget :: nat where
  "compact_batch_output_budget = 64 * 1024"

text \<open>\<open>to_text\<close> is the JSON serializer.\<close>

definition output_size :: "(json \<Rightarrow> string + string) \<Rightarrow> claimed_runtime_job \<Rightarrow> nat" where
  "output_size to_text entry =
    (case jr_output (cj_job entry) of
       None \<Rightarrow> 0
     | Some out \<Rightarrow> (case serialized_len to_text out of Inl _ \<Rightarrow> 0 | Inr n \<Rightarrow> n))"

fun split_from ::
  "('a \<Rightarrow> nat) \<Rightarrow> 'a list \<Rightarrow> nat \<Rightarrow> 'a list \<Rightarrow> 'a list list" where
  "split_from sz run bytes [] = (if run \<noteq> [] then [run] else [])"
| "split_from sz run bytes (entry # rest) =
    (if run \<noteq> [] \<and> bytes + sz entry > compact_batch_output_budget
     then run # split_from sz [entry] (sz entry) rest
     else split_from sz (run @ [entry]) (bytes + sz entry) rest)"

definition split_by_output_budget ::
  "(json \<Rightarrow> string + string) \<Rightarrow> claimed_runtime_job list \<Rightarrow> claimed_runtime_job list list" where
  "split_by_output_budget to_text claimed = split_from (output_size to_text) [] 0 claimed"

subsection \<open>Claim cursors\<close>

record claim_evidence =
  ev_ready_slot :: int
  ev_ready_generation :: int
  ev_lane_seq :: int
  ev_legacy_attempt :: "(job_id \<times> int) option"

record claim_cursor_advance =
  ca_queue :: string
  ca_priority :: int
  ca_enqueue_shard :: int
  ca_next_seq :: int
  ca_only_if_current :: "int option"
  ca_evidence :: "claim_evidence option"

definition ca_lane :: "claim_cursor_advance \<Rightarrow> lane" where
  "ca_lane a = (ca_queue a, ca_priority a, ca_enqueue_shard a)"

definition last_by_lane ::
  "ready_job_lease_row list \<Rightarrow> (lane, ready_job_lease_row) omap" where
  "last_by_lane rows =
    foldl (\<lambda>m row.
        let key = (r_queue row, rl_lane_priority row, rl_enqueue_shard row) in
        case map_of m key of
          None \<Rightarrow> omap_insert key row m
        | Some current \<Rightarrow> if rl_lane_seq row > rl_lane_seq current then omap_insert key row m else m)
      [] rows"

definition claim_cursor_advances :: "ready_job_lease_row list \<Rightarrow> claim_cursor_advance list" where
  "claim_cursor_advances rows =
    map (\<lambda>((queue, priority, enqueue_shard), row).
        \<lparr>ca_queue = queue, ca_priority = priority, ca_enqueue_shard = enqueue_shard,
         ca_next_seq = rl_lane_seq row + 1, ca_only_if_current = None,
         ca_evidence = Some
           \<lparr>ev_ready_slot = rl_ready_slot row, ev_ready_generation = rl_ready_generation row,
            ev_lane_seq = rl_lane_seq row,
            ev_legacy_attempt =
              (if rl_claim_batch_id row = None then Some (r_job_id row, r_run_lease row) else None)\<rparr>\<rparr>)
      (last_by_lane rows)"

type_synonym grouped_advance = "(int \<times> claim_evidence option) option \<times> (int, int) omap"

fun group_advance :: "claim_cursor_advance \<Rightarrow> grouped_advance \<Rightarrow> grouped_advance" where
  "group_advance a (unconditional, conditional) =
    (case ca_only_if_current a of
       Some only_if \<Rightarrow>
         (unconditional,
          case map_of conditional only_if of
            None \<Rightarrow> omap_insert only_if (ca_next_seq a) conditional
          | Some nxt \<Rightarrow> omap_insert only_if (max nxt (ca_next_seq a)) conditional)
     | None \<Rightarrow>
         (case unconditional of
            None \<Rightarrow> (Some (ca_next_seq a, ca_evidence a), conditional)
          | Some (nxt, e) \<Rightarrow>
              if ca_next_seq a > nxt then (Some (ca_next_seq a, ca_evidence a), conditional)
              else (unconditional, conditional)))"

definition grouped_advances :: "claim_cursor_advance list \<Rightarrow> (lane, grouped_advance) omap" where
  "grouped_advances advances =
    foldl (\<lambda>m a. omap_update (ca_lane a) (None, []) (group_advance a) m) [] advances"

fun normalized_lane :: "lane \<times> grouped_advance \<Rightarrow> claim_cursor_advance list" where
  "normalized_lane ((queue, priority, enqueue_shard), (Some (next_seq, evidence), conditional)) =
    [\<lparr>ca_queue = queue, ca_priority = priority, ca_enqueue_shard = enqueue_shard,
      ca_next_seq = next_seq, ca_only_if_current = None, ca_evidence = evidence\<rparr>]"
| "normalized_lane ((queue, priority, enqueue_shard), (None, conditional)) =
    map (\<lambda>(only_if, next_seq).
        \<lparr>ca_queue = queue, ca_priority = priority, ca_enqueue_shard = enqueue_shard,
         ca_next_seq = next_seq, ca_only_if_current = Some only_if, ca_evidence = None\<rparr>) conditional"

definition normalize_claim_cursor_advances ::
  "claim_cursor_advance list \<Rightarrow> claim_cursor_advance list" where
  "normalize_claim_cursor_advances advances = concat (map normalized_lane (grouped_advances advances))"

text \<open>
  The rows the advance looks for as evidence of a claim: an attempt batch whose ranges cover the
  position, or the lease of a legacy attempt.
\<close>

record claim_attempt_batch =
  cb_ready_slot :: int
  cb_ready_generation :: int
  cb_queue :: string
  cb_priority :: int
  cb_enqueue_shard :: int
  cb_first_lane_seq :: int
  cb_next_lane_seq :: int
  cb_lane_ranges :: "(int \<times> int) list"

record lease_ref =
  lf_job_id :: job_id
  lf_run_lease :: int
  lf_ready_slot :: int
  lf_ready_generation :: int
  lf_queue :: string
  lf_enqueue_shard :: int
  lf_lane_seq :: int

record claim_tables =
  ct_heads :: "lane \<rightharpoonup> int"
  ct_attempts :: "claim_attempt_batch list"
  ct_leases :: "lease_ref list"

definition batch_covers :: "claim_cursor_advance \<Rightarrow> claim_evidence \<Rightarrow> claim_attempt_batch \<Rightarrow> bool" where
  "batch_covers a e b \<longleftrightarrow>
     cb_ready_slot b = ev_ready_slot e \<and> cb_ready_generation b = ev_ready_generation e \<and>
     cb_queue b = ca_queue a \<and> cb_priority b = ca_priority a \<and>
     cb_enqueue_shard b = ca_enqueue_shard a \<and>
     cb_first_lane_seq b \<le> ev_lane_seq e \<and> cb_next_lane_seq b > ev_lane_seq e \<and>
     (\<exists>(lo, hi) \<in> set (cb_lane_ranges b). lo \<le> ev_lane_seq e \<and> ev_lane_seq e < hi)"

definition lease_matches :: "claim_cursor_advance \<Rightarrow> claim_evidence \<Rightarrow> job_id \<times> int \<Rightarrow> lease_ref \<Rightarrow> bool" where
  "lease_matches a e attempt l \<longleftrightarrow>
     lf_job_id l = fst attempt \<and> lf_run_lease l = snd attempt \<and>
     lf_ready_slot l = ev_ready_slot e \<and> lf_ready_generation l = ev_ready_generation e \<and>
     lf_queue l = ca_queue a \<and> lf_enqueue_shard l = ca_enqueue_shard a \<and>
     lf_lane_seq l = ev_lane_seq e"

definition evidence_visible :: "claim_tables \<Rightarrow> claim_cursor_advance \<Rightarrow> bool" where
  "evidence_visible t a =
    (case ca_evidence a of
       None \<Rightarrow> True
     | Some e \<Rightarrow>
         (case ev_legacy_attempt e of
            None \<Rightarrow> (\<exists>b \<in> set (ct_attempts t). batch_covers a e b)
          | Some attempt \<Rightarrow> (\<exists>l \<in> set (ct_leases t). lease_matches a e attempt l)))"

definition set_sequence_next :: "int \<Rightarrow> int \<Rightarrow> int" where
  "set_sequence_next current nxt = (let n = max nxt current in if n \<le> 1 then 1 else n)"

definition advance_claim_cursor :: "claim_tables \<Rightarrow> claim_cursor_advance \<Rightarrow> claim_tables" where
  "advance_claim_cursor t a =
    (case ct_heads t (ca_lane a) of
       None \<Rightarrow> t
     | Some current \<Rightarrow>
         if (case ca_only_if_current a of None \<Rightarrow> True | Some c \<Rightarrow> current = c) \<and> evidence_visible t a
         then t\<lparr>ct_heads := (ct_heads t)(ca_lane a \<mapsto> set_sequence_next current (ca_next_seq a))\<rparr>
         else t)"

definition advance_claim_cursors_strict ::
  "claim_cursor_advance list \<Rightarrow> claim_tables \<Rightarrow> claim_tables" where
  "advance_claim_cursors_strict advances t = foldl advance_claim_cursor t advances"

text \<open>
  The post-commit advance retries up to three times; \<open>fails\<close> says for each attempt whether the
  database reported an error, in which case that attempt has no lasting effect but for the sequences
  it already moved.
\<close>

fun advance_attempts ::
  "(nat \<times> bool) list \<Rightarrow> claim_cursor_advance list \<Rightarrow> claim_tables \<Rightarrow> claim_tables" where
  "advance_attempts [] advances t = t"
| "advance_attempts ((reached, failed) # rest) advances t =
    (if failed then advance_attempts rest advances
       (advance_claim_cursors_strict (take reached advances) t)
     else advance_claim_cursors_strict advances t)"

definition advance_claim_cursors ::
  "(nat \<times> bool) list \<Rightarrow> claim_cursor_advance list \<Rightarrow> claim_tables \<Rightarrow> claim_tables" where
  "advance_claim_cursors fails advances t =
    advance_attempts (take 3 fails) (normalize_claim_cursor_advances advances) t"

subsection \<open>Properties of batches and segments\<close>

lemma split_from_concat: "concat (split_from sz run bytes xs) = run @ xs"
  by (induction sz run bytes xs rule: split_from.induct) auto

lemma split_from_nonempty: "[] \<notin> set (split_from sz run bytes xs)"
  by (induction sz run bytes xs rule: split_from.induct) auto


lemma split_from_bounded:
  assumes "bytes = sum_list (map sz run)" "bytes \<le> compact_batch_output_budget \<or> length run \<le> 1"
    and "chunk \<in> set (split_from sz run bytes xs)"
  shows "sum_list (map sz chunk) \<le> compact_batch_output_budget \<or> length chunk = 1"
  using assms
proof (induction sz run bytes xs rule: split_from.induct)
  case (1 sz run bytes)
  then show ?case by (cases run) auto
next
  case (2 sz run bytes entry rest)
  show ?case
  proof (cases "run \<noteq> [] \<and> bytes + sz entry > compact_batch_output_budget")
    case True
    with 2(5) have "chunk = run \<or> chunk \<in> set (split_from sz [entry] (sz entry) rest)" by simp
    then show ?thesis
    proof
      assume chunk: "chunk = run"
      then show ?thesis using True 2(3,4) by (cases run) (simp_all add: chunk)
    next
      assume "chunk \<in> set (split_from sz [entry] (sz entry) rest)"
      with 2(1) [OF True] show ?thesis by simp
    qed
  next
    case False
    then have "chunk \<in> set (split_from sz (run @ [entry]) (bytes + sz entry) rest)"
      using 2(5) by (simp only: split_from.simps if_False)
    moreover have "bytes + sz entry \<le> compact_batch_output_budget \<or> length (run @ [entry]) \<le> 1"
      using False by (cases run) simp_all
    ultimately show ?thesis using 2(2) [OF False] 2(3) by simp
  qed
qed

lemma split_from_first:
  assumes "split_from sz run bytes xs = chunk # chunks" "run \<noteq> []"
  shows "\<exists>ys. chunk = run @ ys"
  using assms
  by (induction sz run bytes xs arbitrary: chunk chunks rule: split_from.induct) (auto split: if_splits)

lemma split_from_greedy:
  assumes "bytes = sum_list (map sz run)"
  shows "successively (\<lambda>a b. sum_list (map sz a) + sz (hd b) > compact_batch_output_budget)
    (split_from sz run bytes xs)"
  using assms
proof (induction sz run bytes xs rule: split_from.induct)
  case (2 sz run bytes entry rest)
  show ?case
  proof (cases "run \<noteq> [] \<and> bytes + sz entry > compact_batch_output_budget")
    case True
    obtain chunk chunks where c: "split_from sz [entry] (sz entry) rest = chunk # chunks"
      using split_from_concat [of sz "[entry]" "sz entry" rest]
      by (cases "split_from sz [entry] (sz entry) rest") auto
    then have "hd chunk = entry" using split_from_first by fastforce
    moreover have "successively (\<lambda>a b. sum_list (map sz a) + sz (hd b) > compact_batch_output_budget) (chunk # chunks)"
      using 2(1) [OF True] by (simp add: c)
    ultimately show ?thesis using True 2(3) by (simp add: c)
  next
    case False
    then show ?thesis
      unfolding split_from.simps using 2(2) [OF False] 2(3) by (simp only: if_False) simp
  qed
qed simp

definition run_weight :: "(json \<Rightarrow> string + string) \<Rightarrow> claimed_runtime_job list \<Rightarrow> nat" where
  "run_weight to_text run = sum_list (map (output_size to_text) run)"

text \<open>
  A completion batch is split into runs that are consecutive and together the whole batch, none is
  empty, a run's recorded outputs stay within the budget unless the run is a single job, and no
  run could have taken the next job.
\<close>

theorem split_by_output_budget_correct:
  "concat (split_by_output_budget to_text claimed) = claimed \<and>
    list_all (\<lambda>run. run \<noteq> [] \<and> (length run = 1 \<or> run_weight to_text run \<le> compact_batch_output_budget))
      (split_by_output_budget to_text claimed) \<and>
    successively (\<lambda>run nxt. run_weight to_text run + output_size to_text (hd nxt) > compact_batch_output_budget)
      (split_by_output_budget to_text claimed)"
proof -
  note sp = split_by_output_budget_def
  have "run \<noteq> [] \<and> (length run = 1 \<or> run_weight to_text run \<le> compact_batch_output_budget)"
    if "run \<in> set (split_by_output_budget to_text claimed)" for run
    using that split_from_nonempty split_from_bounded [of 0 "output_size to_text" "[]"]
    by (fastforce simp: sp run_weight_def)
  moreover have "successively (\<lambda>run nxt. run_weight to_text run + output_size to_text (hd nxt) > compact_batch_output_budget)
      (split_by_output_budget to_text claimed)"
    unfolding sp run_weight_def by (rule split_from_greedy) simp
  ultimately show ?thesis by (simp add: sp split_from_concat list_all_iff)
qed

definition row_position :: "runtime_ready_insert \<Rightarrow> lane \<times> int \<times> timestamp" where
  "row_position r = ((r_queue r, r_priority r, ri_enqueue_shard r), ri_lane_seq r, r_run_at r)"

definition segment_positions :: "ready_segment_insert \<Rightarrow> (lane \<times> int \<times> timestamp) list" where
  "segment_positions s =
    map (\<lambda>q. ((sg_queue s, sg_priority s, sg_enqueue_shard s), q, sg_first_run_at s))
      [sg_first_lane_seq s..sg_next_lane_seq s - 1]"

definition segments_touch :: "ready_segment_insert \<Rightarrow> ready_segment_insert \<Rightarrow> bool" where
  "segments_touch a b \<longleftrightarrow>
     sg_queue a = sg_queue b \<and> sg_priority a = sg_priority b \<and>
     sg_enqueue_shard a = sg_enqueue_shard b \<and> sg_next_lane_seq a = sg_first_lane_seq b \<and>
     sg_first_run_at a = sg_first_run_at b"

definition same_run :: "runtime_ready_insert \<Rightarrow> runtime_ready_insert \<Rightarrow> bool" where
  "same_run first prev \<longleftrightarrow>
     r_queue first = r_queue prev \<and> r_priority first = r_priority prev \<and>
     ri_enqueue_shard first = ri_enqueue_shard prev \<and> r_run_at first = r_run_at prev \<and>
     ri_lane_seq first \<le> ri_lane_seq prev"

lemma segment_positions_extend:
  assumes "same_run first prev" "\<not> segment_split prev row"
  shows "segment_positions (segment_of first row) = segment_positions (segment_of first prev) @ [row_position row]
    \<and> same_run first row"
proof -
  have prev: "ri_lane_seq prev = ri_lane_seq row - 1" using assms(2) by (simp add: segment_split_def)
  then have "[ri_lane_seq first..ri_lane_seq row] = [ri_lane_seq first..ri_lane_seq prev] @ [ri_lane_seq row]"
    using assms(1) upto_rec2 [of "ri_lane_seq first" "ri_lane_seq row"] by (simp add: same_run_def)
  then show ?thesis
    using assms
    by (simp add: segment_positions_def segment_of_def row_position_def same_run_def segment_split_def prev)
qed

lemma segments_from_positions:
  "same_run first prev \<Longrightarrow>
     concat (map segment_positions (segments_from first prev rows)) =
       segment_positions (segment_of first prev) @ map row_position rows"
proof (induction first prev rows rule: segments_from.induct)
  case (2 first prev row rows)
  have "segment_positions (segment_of row row) = [row_position row]"
    by (simp add: segment_positions_def segment_of_def row_position_def)
  moreover have "same_run row row" by (simp add: same_run_def)
  ultimately show ?case
    using 2 segment_positions_extend [OF 2(3), of row] by (cases "segment_split prev row") simp_all
qed simp

lemma segments_from_hd:
  "\<exists>s ss. segments_from first prev rows = s # ss \<and> sg_first_lane_seq s = ri_lane_seq first \<and>
     sg_queue s = r_queue first \<and> sg_priority s = r_priority first \<and>
     sg_enqueue_shard s = ri_enqueue_shard first \<and> sg_first_run_at s = r_run_at first"
  by (induction first prev rows rule: segments_from.induct) (auto simp: segment_of_def)

lemma segments_from_maximal:
  "same_run first prev \<Longrightarrow> successively (\<lambda>a b. \<not> segments_touch a b) (segments_from first prev rows)"
proof (induction first prev rows rule: segments_from.induct)
  case (2 first prev row rows)
  show ?case
  proof (cases "segment_split prev row")
    case True
    obtain s ss where s: "segments_from row row rows = s # ss" "sg_first_lane_seq s = ri_lane_seq row"
      "sg_queue s = r_queue row" "sg_priority s = r_priority row"
      "sg_enqueue_shard s = ri_enqueue_shard row" "sg_first_run_at s = r_run_at row"
      using segments_from_hd [of row row rows] by blast
    then have "\<not> segments_touch (segment_of first prev) s"
      using True 2(3) by (auto simp: segments_touch_def segment_of_def segment_split_def same_run_def)
    with True 2(1) s(1) show ?thesis by (simp add: same_run_def)
  next
    case False
    then show ?thesis using 2(2,3) segment_positions_extend [OF 2(3) False] by simp
  qed
qed simp

text \<open>
  the segments written for a batch of ready rows enumerate exactly the positions of the rows, in
  order and with the rows' own run-at times, and no two neighbouring segments could have been one.
\<close>

theorem ready_segments_correct:
  "concat (map segment_positions (ready_segments_from_rows rows)) = map row_position rows \<and>
   successively (\<lambda>a b. \<not> segments_touch a b) (ready_segments_from_rows rows)"
proof (cases rows)
  case (Cons row rest)
  have run: "same_run row row" by (simp add: same_run_def)
  have "segment_positions (segment_of row row) = [row_position row]"
    by (simp add: segment_positions_def segment_of_def row_position_def)
  then show ?thesis
    using segments_from_positions [OF run] segments_from_maximal [OF run] by (simp add: Cons)
qed simp

subsection \<open>Grouping by lane\<close>

definition bucket_of :: "('k, 'v list) omap \<Rightarrow> 'k \<Rightarrow> 'v list" where
  "bucket_of m k = (case map_of m k of None \<Rightarrow> [] | Some vs \<Rightarrow> vs)"

lemma bucket_of_push [simp]: "bucket_of (omap_push k v m) k' = bucket_of m k' @ (if k' = k then [v] else [])"
  by (simp add: bucket_of_def omap_push_def omap_simps split: option.split)

lemma bucket_of_extend [simp]: "bucket_of (omap_extend k vs m) k' = bucket_of m k' @ (if k' = k then vs else [])"
  by (simp add: bucket_of_def omap_extend_def omap_simps split: option.split)

lemma omap_push_wf [simp, intro]: "omap_wf m \<Longrightarrow> omap_wf (omap_push k v m)"
  by (simp add: omap_push_def)

lemma omap_extend_wf [simp, intro]: "omap_wf m \<Longrightarrow> omap_wf (omap_extend k vs m)"
  by (simp add: omap_extend_def)

lemma bucket_of_foldl_push:
  "bucket_of (foldl (\<lambda>m x. omap_push (f x) x m) m xs) k = bucket_of m k @ filter (\<lambda>x. f x = k) xs"
  by (induction xs arbitrary: m) auto

lemma group_by_queue_priority_wf: "omap_wf (group_by_queue_priority rows)"
proof -
  have "omap_wf m \<Longrightarrow> omap_wf (foldl (\<lambda>m row. omap_push (rr_queue row, rr_priority row) row m) m rows)" for m
    by (induction rows arbitrary: m) auto
  then show ?thesis by (simp add: group_by_queue_priority_def)
qed

lemma group_by_queue_priority_bucket:
  "bucket_of (group_by_queue_priority rows) (q, p) = filter (\<lambda>r. rr_queue r = q \<and> rr_priority r = p) rows"
  by (simp add: group_by_queue_priority_def bucket_of_foldl_push) (simp add: bucket_of_def)

text \<open>The shard count in force for a queue does not depend on whether it is cached yet.\<close>

definition shards_in_force :: "(string \<rightharpoonup> int) \<Rightarrow> store_local \<Rightarrow> string \<Rightarrow> int" where
  "shards_in_force meta st q =
    (case sl_enqueue_shards_cache st q of
       Some n \<Rightarrow> n | None \<Rightarrow> max (case meta q of None \<Rightarrow> 1 | Some n \<Rightarrow> n) 1)"

lemma shard_for_enqueue_force:
  "shards_in_force meta (snd (shard_for_enqueue meta q key st)) = shards_in_force meta st"
  by (auto simp: fun_eq_iff shards_in_force_def shard_for_enqueue_def pick_shard_def Let_def
      split: option.split)

lemma shard_for_enqueue_key:
  "fst (shard_for_enqueue meta q (Some k) st) = shard_for_ordering_key k (shards_in_force meta st q)"
  by (auto simp: shards_in_force_def shard_for_enqueue_def pick_shard_def shard_for_ordering_key_def
      split: option.split)

definition keyed_to :: "int \<Rightarrow> int \<Rightarrow> runtime_ready_row \<Rightarrow> bool" where
  "keyed_to n s r \<longleftrightarrow> (\<exists>k. rr_ordering_key r = Some k \<and> shard_for_ordering_key k n = s)"

lemma shard_bucket_result:
  assumes "shard_bucket meta q p bucket (grouped, rotor, st) = (grouped', rotor', st')"
  shows "rotor' = rotor @ filter (\<lambda>r. rr_ordering_key r = None) bucket \<and>
    shards_in_force meta st' = shards_in_force meta st \<and>
    (\<forall>q' p' s. bucket_of grouped' (q', p', s) = bucket_of grouped (q', p', s) @
       (if q' = q \<and> p' = p then filter (keyed_to (shards_in_force meta st q) s) bucket else [])) \<and>
    (omap_wf grouped \<longrightarrow> omap_wf grouped')"
  using assms
proof (induction bucket arbitrary: grouped rotor st)
  case (Cons row bucket)
  show ?case
  proof (cases "rr_ordering_key row")
    case None
    then have "\<not> keyed_to n s row" for n s by (simp add: keyed_to_def)
    with Cons.IH [of grouped "rotor @ [row]" st] Cons.prems None show ?thesis by simp
  next
    case (Some k)
    obtain shard st1 where sh: "shard_for_enqueue meta q (Some k) st = (shard, st1)" by fastforce
    have shard: "shard = shard_for_ordering_key k (shards_in_force meta st q)"
      "shards_in_force meta st1 = shards_in_force meta st"
      using shard_for_enqueue_key [of meta q k st] shard_for_enqueue_force [of meta q "Some k" st]
      by (simp_all add: sh)
    have "keyed_to (shards_in_force meta st q) s row \<longleftrightarrow> s = shard" for s
      using shard(1) Some by (auto simp: keyed_to_def)
    with Cons.IH [of "omap_push (q, p, shard) row grouped" rotor st1] Cons.prems Some sh shard(2)
    show ?thesis by auto
  qed
qed simp

text \<open>How the buckets of a batch end up in lanes: keyed rows at the shard of their key, the others at one
  shard per queue and priority.\<close>

definition sharded_as ::
  "(string \<Rightarrow> int) \<Rightarrow> (string \<times> int \<Rightarrow> int) \<Rightarrow> (string \<times> int, runtime_ready_row list) omap \<Rightarrow>
     (lane, runtime_ready_row list) omap \<Rightarrow> (lane, runtime_ready_row list) omap \<Rightarrow> bool" where
  "sharded_as n rot buckets grouped grouped' \<longleftrightarrow>
    (\<forall>q p s. bucket_of grouped' (q, p, s) = bucket_of grouped (q, p, s) @
       filter (keyed_to (n q) s) (bucket_of buckets (q, p)) @
       (if s = rot (q, p) then filter (\<lambda>r. rr_ordering_key r = None) (bucket_of buckets (q, p)) else []))"

lemma sharded_as_Cons:
  assumes one: "\<forall>q' p' s. bucket_of g2 (q', p', s) = bucket_of grouped (q', p', s) @
      (if q' = q \<and> p' = p then filter (keyed_to (n q) s) bucket else []) @
      (if (q', p', s) = (q, p, sh) then filter (\<lambda>r. rr_ordering_key r = None) bucket else [])"
    and rest: "sharded_as n rot rest g2 grouped'" "(q, p) \<notin> fst ` set rest"
  shows "sharded_as n (rot((q, p) := sh)) (((q, p), bucket) # rest) grouped grouped'"
  unfolding sharded_as_def
proof (intro allI)
  fix q' p' s
  have empty: "bucket_of rest (q, p) = []"
    using rest(2) by (simp add: bucket_of_def map_of_eq_None_iff [THEN iffD2])
  have head: "bucket_of (((q, p), bucket) # rest) k = (if k = (q, p) then bucket else bucket_of rest k)" for k
    by (simp add: bucket_of_def)
  note fin = rest(1) [unfolded sharded_as_def, rule_format, of q' p' s]
  show "bucket_of grouped' (q', p', s) = bucket_of grouped (q', p', s) @
      filter (keyed_to (n q') s) (bucket_of (((q, p), bucket) # rest) (q', p')) @
      (if s = (rot((q, p) := sh)) (q', p')
       then filter (\<lambda>r. rr_ordering_key r = None) (bucket_of (((q, p), bucket) # rest) (q', p')) else [])"
    unfolding fin one [rule_format, of q' p' s] head
    by (cases "q' = q"; cases "p' = p") (simp_all add: empty)
qed

lemma shard_buckets_result:
  assumes "shard_buckets meta buckets (grouped, st) = (grouped', st')" "distinct (map fst buckets)"
  shows "(\<exists>rot. sharded_as (shards_in_force meta st) rot buckets grouped grouped') \<and>
    (omap_wf grouped \<longrightarrow> omap_wf grouped')"
  using assms
proof (induction buckets arbitrary: grouped st)
  case Nil
  then show ?case by (simp add: bucket_of_def sharded_as_def)
next
  case (Cons qb rest)
  obtain q p bucket where qb: "qb = ((q, p), bucket)" by (cases qb) auto
  obtain g1 rotor st1 where b: "shard_bucket meta q p bucket (grouped, [], st) = (g1, rotor, st1)"
    by (rule prod_cases3)
  note r = shard_bucket_result [OF b]
  define sh where "sh = fst (shard_for_enqueue meta q None st1)"
  define g2 where "g2 = (if rotor \<noteq> [] then omap_extend (q, p, sh) rotor g1 else g1)"
  define st2 where "st2 = (if rotor \<noteq> [] then snd (shard_for_enqueue meta q None st1) else st1)"
  have step: "shard_buckets meta rest (g2, st2) = (grouped', st')"
    using Cons.prems(1) by (simp add: qb b g2_def st2_def sh_def case_prod_beta split: if_splits)
  have force: "shards_in_force meta st2 = shards_in_force meta st"
    using r by (simp add: st2_def shard_for_enqueue_force)
  obtain rot where "sharded_as (shards_in_force meta st) rot rest g2 grouped'"
    and wf: "omap_wf g2 \<longrightarrow> omap_wf grouped'"
    using Cons.IH [OF step] Cons.prems(2) unfolding force by (simp, blast)
  moreover have "bucket_of g2 k = bucket_of g1 k @ (if k = (q, p, sh) then rotor else [])" for k
    by (simp add: g2_def)
  ultimately have
    "sharded_as (shards_in_force meta st) (rot((q, p) := sh)) (qb # rest) grouped grouped'"
    unfolding qb using r Cons.prems(2) by (intro sharded_as_Cons) (simp_all add: qb del: split_paired_All)
  moreover have "omap_wf grouped \<longrightarrow> omap_wf grouped'" using wf r by (simp add: g2_def)
  ultimately show ?case by blast
qed

lemma group_ready_rows_sharded:
  "\<exists>rot. \<forall>q p s. bucket_of (fst (group_ready_rows_by_shard meta rows st)) (q, p, s) =
     filter (\<lambda>r. rr_queue r = q \<and> rr_priority r = p \<and> keyed_to (shards_in_force meta st q) s r) rows @
     (if s = rot (q, p)
      then filter (\<lambda>r. rr_queue r = q \<and> rr_priority r = p \<and> rr_ordering_key r = None) rows else [])"
proof -
  obtain grouped' st' where g: "shard_buckets meta (group_by_queue_priority rows) ([], st) = (grouped', st')"
    by fastforce
  obtain rot where "sharded_as (shards_in_force meta st) rot (group_by_queue_priority rows) [] grouped'"
    using shard_buckets_result [OF g omap_wf_distinct [OF group_by_queue_priority_wf]] by blast
  then show ?thesis
    by (intro exI [of _ rot])
      (simp add: sharded_as_def group_ready_rows_by_shard_def g group_by_queue_priority_bucket
        bucket_of_def [of "[]"] conj_commute conj_left_commute)
qed

lemma group_ready_rows_wf: "omap_wf (fst (group_ready_rows_by_shard meta rows st))"
proof -
  obtain grouped' st' where g: "shard_buckets meta (group_by_queue_priority rows) ([], st) = (grouped', st')"
    by fastforce
  then show ?thesis
    using shard_buckets_result [OF g omap_wf_distinct [OF group_by_queue_priority_wf]]
    by (simp add: group_ready_rows_by_shard_def)
qed

text \<open>
  grouping a batch by lane keeps order within a key. The rows of one queue and priority that share
  an ordering key, or have none, all go to one shard of that lane family and stand there in the order
  of the batch; a lane only holds rows of its own queue and priority, and the lanes are distinct and in
  key order.
\<close>

theorem grouping_keeps_key_order:
  fixes meta :: "string \<rightharpoonup> int" and rows :: "runtime_ready_row list" and st :: store_local
  shows "omap_wf (fst (group_ready_rows_by_shard meta rows st)) \<and>
    (\<exists>s. \<forall>s'. filter (\<lambda>r. rr_ordering_key r = key)
         (bucket_of (fst (group_ready_rows_by_shard meta rows st)) (q, p, s')) =
       (if s' = s
        then filter (\<lambda>r. rr_queue r = q \<and> rr_priority r = p \<and> rr_ordering_key r = key) rows else [])) \<and>
    filter (\<lambda>r. rr_queue r = q \<and> rr_priority r = p)
      (bucket_of (fst (group_ready_rows_by_shard meta rows st)) (q, p, t)) =
      bucket_of (fst (group_ready_rows_by_shard meta rows st)) (q, p, t)"
proof -
  obtain rot where rot: "bucket_of (fst (group_ready_rows_by_shard meta rows st)) (q, p, s) =
     filter (\<lambda>r. rr_queue r = q \<and> rr_priority r = p \<and> keyed_to (shards_in_force meta st q) s r) rows @
     (if s = rot (q, p)
      then filter (\<lambda>r. rr_queue r = q \<and> rr_priority r = p \<and> rr_ordering_key r = None) rows else [])" for q p s
    using group_ready_rows_sharded by blast
  define s where "s = (case key of None \<Rightarrow> rot (q, p) | Some k \<Rightarrow> shard_for_ordering_key k (shards_in_force meta st q))"
  have "filter (\<lambda>r. rr_ordering_key r = key)
         (bucket_of (fst (group_ready_rows_by_shard meta rows st)) (q, p, s')) =
       (if s' = s
        then filter (\<lambda>r. rr_queue r = q \<and> rr_priority r = p \<and> rr_ordering_key r = key) rows else [])" for s'
  proof (cases key)
    case None
    then have "\<not> (keyed_to n s' r \<and> rr_ordering_key r = key)" for n r by (auto simp: keyed_to_def)
    with None show ?thesis by (auto simp: rot s_def filter_empty_conv intro: filter_cong)
  next
    case (Some k)
    then have "keyed_to n s' r \<and> rr_ordering_key r = key \<longleftrightarrow>
        s' = shard_for_ordering_key k n \<and> rr_ordering_key r = key" for n r by (auto simp: keyed_to_def)
    with Some show ?thesis by (auto simp: rot s_def filter_empty_conv intro: filter_cong)
  qed
  then show ?thesis
    using group_ready_rows_wf by (auto simp: rot conj_commute conj_left_commute)
qed

subsection \<open>Claim cursors only follow claims\<close>

text \<open>Where the entries of a group come from.\<close>

definition group_from :: "claim_cursor_advance set \<Rightarrow> lane \<Rightarrow> grouped_advance \<Rightarrow> bool" where
  "group_from advances l g \<longleftrightarrow>
     (\<forall>n e. fst g = Some (n, e) \<longrightarrow>
        (\<exists>a \<in> advances. ca_lane a = l \<and> ca_only_if_current a = None \<and> ca_next_seq a = n \<and> ca_evidence a = e)) \<and>
     (\<forall>o' n. (o', n) \<in> set (snd g) \<longrightarrow>
        (\<exists>a \<in> advances. ca_lane a = l \<and> ca_only_if_current a = Some o' \<and> ca_next_seq a = n))"

lemma set_omap_insert_subset: "set (omap_insert k v m) \<subseteq> insert (k, v) (set m)"
  by (induction k v m rule: omap_insert.induct) auto

lemma group_from_step:
  assumes "group_from A (ca_lane a) g" "a \<in> A"
  shows "group_from A (ca_lane a) (group_advance a g)"
proof -
  obtain u c where g: "g = (u, c)" by fastforce
  show ?thesis
  proof (cases "ca_only_if_current a")
    case None
    with assms show ?thesis by (cases u) (auto simp: g group_from_def split: if_splits)
  next
    case (Some o')
    define n where "n = (case map_of c o' of None \<Rightarrow> ca_next_seq a | Some nxt \<Rightarrow> max nxt (ca_next_seq a))"
    have eq: "group_advance a g = (u, omap_insert o' n c)"
      by (simp add: g Some n_def split: option.split)
    have "\<exists>b \<in> A. ca_lane b = ca_lane a \<and> ca_only_if_current b = Some o' \<and> ca_next_seq b = n"
      using assms Some
      by (auto simp: n_def g group_from_def max_def split: option.split dest!: map_of_SomeD)
    moreover have "set (omap_insert o' n c) \<subseteq> insert (o', n) (set c)" by (rule set_omap_insert_subset)
    ultimately show ?thesis using assms(1) unfolding eq by (auto simp: g group_from_def)
  qed
qed

lemma grouped_advances_from:
  assumes "set advances \<subseteq> A"
  shows "\<forall>(l, g) \<in> set (grouped_advances advances). group_from A l g"
  using assms
proof (induction advances rule: rev_induct)
  case (snoc a advances)
  define m where "m = grouped_advances advances"
  define g where "g = (case map_of m (ca_lane a) of None \<Rightarrow> (None, []) | Some v \<Rightarrow> v)"
  have IH: "\<forall>(l, g) \<in> set m. group_from A l g" using snoc by (simp add: m_def)
  have "grouped_advances (advances @ [a]) = omap_insert (ca_lane a) (group_advance a g) m"
    by (simp add: grouped_advances_def m_def g_def omap_update_def split: option.split)
  moreover have "group_from A (ca_lane a) g"
    using IH by (auto simp: g_def group_from_def split: option.split dest!: map_of_SomeD)
  then have "group_from A (ca_lane a) (group_advance a g)" using snoc.prems by (intro group_from_step) auto
  ultimately show ?case
    using IH set_omap_insert_subset [of "ca_lane a" "group_advance a g" m] by auto
qed (simp add: grouped_advances_def)

lemma normalized_lane_from:
  assumes "group_from A l g" "b \<in> set (normalized_lane (l, g))"
  shows "\<exists>a \<in> A. b = a \<or> ca_only_if_current a \<noteq> None \<and> b = a\<lparr>ca_evidence := None\<rparr>"
proof -
  obtain q p s u c where lg: "l = (q, p, s)" "g = (u, c)" by (metis prod.exhaust)
  show ?thesis
  proof (cases u)
    case None
    then obtain o' n where "(o', n) \<in> set c" "b = \<lparr>ca_queue = q, ca_priority = p, ca_enqueue_shard = s,
        ca_next_seq = n, ca_only_if_current = Some o', ca_evidence = None\<rparr>"
      using assms(2) by (auto simp: lg)
    with assms(1) None obtain a where "a \<in> A" "ca_lane a = l" "ca_only_if_current a = Some o'" "ca_next_seq a = n"
      by (auto simp: group_from_def lg)
    with \<open>b = _\<close> show ?thesis by (intro bexI [of _ a]) (auto simp: ca_lane_def lg)
  next
    case (Some ne)
    then obtain n e where ne: "u = Some (n, e)" by (cases ne) auto
    with assms(1) obtain a where "a \<in> A" "ca_lane a = l" "ca_only_if_current a = None" "ca_next_seq a = n" "ca_evidence a = e"
      by (auto simp: group_from_def lg)
    with assms(2) show ?thesis by (intro bexI [of _ a]) (auto simp: ca_lane_def lg ne)
  qed
qed

text \<open>The advances the code builds: after a claim, with evidence for the last position; after a cancel,
  conditional on the cursor and without evidence.\<close>

definition advance_wf :: "claim_cursor_advance \<Rightarrow> bool" where
  "advance_wf a \<longleftrightarrow>
     (case ca_only_if_current a of
        None \<Rightarrow> (case ca_evidence a of None \<Rightarrow> False | Some e \<Rightarrow> ca_next_seq a = ev_lane_seq e + 1)
      | Some _ \<Rightarrow> ca_evidence a = None)"

lemma normalize_subset:
  assumes "list_all advance_wf advances"
  shows "set (normalize_claim_cursor_advances advances) \<subseteq> set advances"
proof
  fix b assume "b \<in> set (normalize_claim_cursor_advances advances)"
  then obtain l g where "(l, g) \<in> set (grouped_advances advances)" "b \<in> set (normalized_lane (l, g))"
    by (auto simp: normalize_claim_cursor_advances_def)
  then obtain a where "a \<in> set advances" "b = a \<or> ca_only_if_current a \<noteq> None \<and> b = a\<lparr>ca_evidence := None\<rparr>"
    using grouped_advances_from [of advances "set advances"] normalized_lane_from by blast
  moreover from this have "ca_only_if_current a \<noteq> None \<Longrightarrow> a\<lparr>ca_evidence := None\<rparr> = a"
    using assms by (auto simp: list_all_iff advance_wf_def)
  ultimately show "b \<in> set advances" by auto
qed

text \<open>What the claim tables may become: only cursors move, and each only forward and only to the next
  position of an advance whose condition held.\<close>

definition lane_moved :: "claim_cursor_advance set \<Rightarrow> claim_tables \<Rightarrow> lane \<Rightarrow> int option \<Rightarrow> int option \<Rightarrow> bool" where
  "lane_moved A t l h h' =
    (case h of
       None \<Rightarrow> h' = None
     | Some c \<Rightarrow> (\<exists>c'. h' = Some c' \<and> c \<le> c' \<and>
         (c' = c \<or> (\<exists>a \<in> A. ca_lane a = l \<and> c' = ca_next_seq a \<and> evidence_visible t a \<and>
            (case ca_only_if_current a of None \<Rightarrow> True | Some o' \<Rightarrow> c \<le> o')))))"

definition cursor_moved :: "claim_cursor_advance set \<Rightarrow> claim_tables \<Rightarrow> claim_tables \<Rightarrow> bool" where
  "cursor_moved A t t' \<longleftrightarrow>
     ct_attempts t' = ct_attempts t \<and> ct_leases t' = ct_leases t \<and>
     (\<forall>l. lane_moved A t l (ct_heads t l) (ct_heads t' l))"

definition heads_positive :: "claim_tables \<Rightarrow> bool" where
  "heads_positive t \<longleftrightarrow> (\<forall>l c. ct_heads t l = Some c \<longrightarrow> 1 \<le> c)"

lemma lane_moved_refl: "lane_moved A t l h h"
  by (simp add: lane_moved_def split: option.split)

lemma lane_moved_trans: "lane_moved A t l h h1 \<Longrightarrow> lane_moved A t l h1 h2 \<Longrightarrow> lane_moved A t l h h2"
  by (cases h; cases h1) (fastforce simp: lane_moved_def split: option.splits)+

lemma lane_moved_cong:
  assumes "ct_attempts t' = ct_attempts t" "ct_leases t' = ct_leases t"
  shows "lane_moved A t' = lane_moved A t"
proof -
  have "evidence_visible t' = evidence_visible t"
    using assms by (simp add: fun_eq_iff evidence_visible_def split: option.split)
  then show ?thesis by (intro ext) (simp only: lane_moved_def)
qed

lemma cursor_moved_refl: "cursor_moved A t t"
  by (simp add: cursor_moved_def lane_moved_refl del: split_paired_All)

lemma cursor_moved_trans:
  assumes "cursor_moved A t t1" "cursor_moved A t1 t2"
  shows "cursor_moved A t t2"
  using assms lane_moved_cong [of t1 t A]
  by (auto simp: cursor_moved_def simp del: split_paired_All intro: lane_moved_trans)

lemma advance_claim_cursor_moved:
  assumes "a \<in> A" "heads_positive t"
  shows "cursor_moved A t (advance_claim_cursor t a) \<and> heads_positive (advance_claim_cursor t a)"
proof (cases "\<exists>c. ct_heads t (ca_lane a) = Some c \<and> evidence_visible t a \<and>
    (case ca_only_if_current a of None \<Rightarrow> True | Some o' \<Rightarrow> c = o')")
  case False
  then have "advance_claim_cursor t a = t"
    by (auto simp: advance_claim_cursor_def split: option.splits)
  with assms show ?thesis by (simp add: cursor_moved_refl)
next
  case True
  then obtain c where c: "ct_heads t (ca_lane a) = Some c" "evidence_visible t a"
    "case ca_only_if_current a of None \<Rightarrow> True | Some o' \<Rightarrow> c = o'" by blast
  have pos: "1 \<le> c" using assms(2) c(1) unfolding heads_positive_def by blast
  let ?n = "max (ca_next_seq a) c"
  have eq: "advance_claim_cursor t a = t\<lparr>ct_heads := (ct_heads t)(ca_lane a \<mapsto> ?n)\<rparr>"
    using c pos by (simp add: advance_claim_cursor_def set_sequence_next_def split: option.splits)
  have "lane_moved A t (ca_lane a) (Some c) (Some ?n)"
    using c assms(1) by (auto simp: lane_moved_def max_def split: option.splits)
  then have "lane_moved A t l (ct_heads t l) (((ct_heads t)(ca_lane a \<mapsto> ?n)) l)" for l
    by (cases "l = ca_lane a") (simp_all add: c(1) lane_moved_refl)
  moreover have "heads_positive (advance_claim_cursor t a)"
    using assms(2) pos unfolding eq heads_positive_def by (auto split: if_splits simp del: split_paired_All)
  ultimately show ?thesis by (simp add: eq cursor_moved_def del: split_paired_All)
qed

lemma advance_claim_cursors_strict_moved:
  assumes "set advances \<subseteq> A" "heads_positive t"
  shows "cursor_moved A t (advance_claim_cursors_strict advances t) \<and>
    heads_positive (advance_claim_cursors_strict advances t)"
  using assms
proof (induction advances arbitrary: t)
  case (Cons a advances)
  have step: "cursor_moved A t (advance_claim_cursor t a)" "heads_positive (advance_claim_cursor t a)"
    using advance_claim_cursor_moved [of a A t] Cons.prems by auto
  with Cons show ?case
    using cursor_moved_trans [OF step(1)] by (auto simp: advance_claim_cursors_strict_def)
qed (simp add: advance_claim_cursors_strict_def cursor_moved_refl)

lemma advance_attempts_moved:
  assumes "set advances \<subseteq> A" "heads_positive t"
  shows "cursor_moved A t (advance_attempts fails advances t)"
  using assms
proof (induction fails advances t rule: advance_attempts.induct)
  case (2 reached failed rest advances t)
  have sub: "set (take reached advances) \<subseteq> A" using 2(2) by (meson in_set_takeD subset_iff)
  note part = advance_claim_cursors_strict_moved [OF sub 2(3)]
  note full = advance_claim_cursors_strict_moved [OF 2(2,3)]
  from 2(1) [OF _ 2(2)] part full show ?case
    by (auto intro: cursor_moved_trans)
qed (simp add: cursor_moved_refl)


text \<open>A claim of positions 4 and 5 of one lane, recorded in an attempt batch.\<close>

definition sample_advance :: "int \<Rightarrow> claim_cursor_advance" where
  "sample_advance seq =
    \<lparr>ca_queue = ''q'', ca_priority = 2, ca_enqueue_shard = 0, ca_next_seq = seq + 1,
     ca_only_if_current = None,
     ca_evidence = Some \<lparr>ev_ready_slot = 1, ev_ready_generation = 9, ev_lane_seq = seq, ev_legacy_attempt = None\<rparr>\<rparr>"

definition sample_claims :: claim_tables where
  "sample_claims =
    \<lparr>ct_heads = [(''q'', 2, 0) \<mapsto> 4],
     ct_attempts = [\<lparr>cb_ready_slot = 1, cb_ready_generation = 9, cb_queue = ''q'', cb_priority = 2,
       cb_enqueue_shard = 0, cb_first_lane_seq = 4, cb_next_lane_seq = 6, cb_lane_ranges = [(4, 6)]\<rparr>],
     ct_leases = []\<rparr>"


end
