(* ===== verification/Awa_Store.thy ===== *)
theory Awa_Store
  imports Awa_Lanes Awa_Ring "HOL-Library.Option_ord"
begin

section \<open>The storage tables and transactions over them\<close>

text \<open>
  The tables that the enqueue, attempt and lifecycle operations of \<^verbatim>\<open>queue_storage.rs\<close> read and
  write, as one record, and transactions on it.  A table is the list of its rows in insertion order,
  or a map where the primary key is all that is asked of it.  Row types that Awa_Rows has are
  reused; a nullable payload column is kept as its readers see it, \<^verbatim>\<open>COALESCE(payload, '{}')\<close>.

  A transaction is a function from the store to a result and a store.  It fails with the error of the
  statement that failed, and then the store is rolled back: every table returns to its content, while
  the sequences of lanes that existed before, those of job, receipt and batch ids and the in-process state of the
  handle (rotor, shard cache, lane cache) keep their values, because neither a Postgres sequence nor a
  Rust field is transactional.  Row and advisory locks are not in the model: they make the
  transactions of concurrent processes on one key take place one after the other, which is the only
  way the model runs them.
\<close>


subsection \<open>Rows of the attempt tables\<close>

record lease_entry =
  ls_lease_slot :: int
  ls_lease_generation :: int
  ls_ready_slot :: int
  ls_ready_generation :: int
  ls_job_id :: job_id
  ls_queue :: string
  ls_state :: job_state
  ls_priority :: int
  ls_attempt :: int
  ls_run_lease :: int
  ls_max_attempts :: int
  ls_lane_seq :: int
  ls_enqueue_shard :: int
  ls_heartbeat_at :: "timestamp option"
  ls_deadline_at :: "timestamp option"
  ls_attempted_at :: "timestamp option"
  ls_callback_id :: "string option"
  ls_callback_timeout_at :: "timestamp option"

record lease_claim =
  lc_claim_slot :: int
  lc_job_id :: job_id
  lc_run_lease :: int
  lc_receipt_id :: int
  lc_ready_slot :: int
  lc_ready_generation :: int
  lc_queue :: string
  lc_priority :: int
  lc_attempt :: int
  lc_max_attempts :: int
  lc_lane_seq :: int
  lc_enqueue_shard :: int
  lc_claimed_at :: timestamp
  lc_materialized_at :: "timestamp option"
  lc_deadline_at :: "timestamp option"
  lc_closed_at :: "timestamp option"

text \<open>
  A batch of compact receipt claims.  The parallel arrays of the row are one list of items; the table
  requires them to have the length \<^verbatim>\<open>claimed_count\<close>.
\<close>

record claim_item =
  it_job_id :: job_id
  it_run_lease :: int
  it_receipt_id :: int
  it_lane_seq :: int
  it_attempt :: int
  it_max_attempts :: int

record lease_claim_batch =
  lb_claim_slot :: int
  lb_batch_id :: int
  lb_ready_slot :: int
  lb_ready_generation :: int
  lb_queue :: string
  lb_priority :: int
  lb_enqueue_shard :: int
  lb_deadline_at :: "timestamp option"
  lb_claimed_at :: timestamp
  lb_items :: "claim_item list"

record claim_closure =
  cc_claim_slot :: int
  cc_job_id :: job_id
  cc_run_lease :: int
  cc_outcome :: string
  cc_closed_at :: timestamp

text \<open>\<open>xb_receipt_ids\<close> is both the array and the multirange of the row: the ranges hold these ids.\<close>

record claim_closure_batch =
  xb_claim_slot :: int
  xb_ready_slot :: int
  xb_ready_generation :: int
  xb_outcome :: string
  xb_receipt_ids :: "int list"
  xb_closed_at :: timestamp

record attempt_state_row =
  as_job_id :: job_id
  as_run_lease :: int
  as_heartbeat_at :: "timestamp option"
  as_progress :: "json option"
  as_callback_filter :: "string option"
  as_callback_on_complete :: "string option"
  as_callback_on_fail :: "string option"
  as_callback_transform :: "string option"
  as_callback_result :: "json option"

text \<open>
  A batch of compact completions: one item per job, with the shared columns of the batch.
\<close>

record completion_item =
  ci_job_id :: job_id
  ci_run_lease :: int
  ci_lane_seq :: int
  ci_attempt :: int
  ci_attempted_at :: "timestamp option"
  ci_output :: "json option"

record receipt_completion_batch =
  rc_ready_slot :: int
  rc_ready_generation :: int
  rc_claim_slot :: int
  rc_queue :: string
  rc_priority :: int
  rc_enqueue_shard :: int
  rc_finalized_at :: timestamp
  rc_items :: "completion_item list"

record ready_tombstone =
  tm_ready_slot :: int
  tm_ready_generation :: int
  tm_queue :: string
  tm_priority :: int
  tm_enqueue_shard :: int
  tm_lane_seq :: int
  tm_job_id :: job_id

record receipt_tombstone =
  rx_ready_slot :: int
  rx_ready_generation :: int
  rx_job_id :: job_id
  rx_run_lease :: int

text \<open>
  Keys of the counters: slot, generation, queue, priority, shard and bucket for a delta, and the same
  without the generation for a live counter.
\<close>

type_synonym terminal_counter_key = "int \<times> int \<times> string \<times> int \<times> int \<times> int"
type_synonym live_counter_key = "int \<times> string \<times> int \<times> int \<times> int"


subsection \<open>The store\<close>

record store =
  s_config :: queue_storage_config
  s_now :: timestamp
  s_local :: store_local
  s_ensured :: "lane set"
  s_queue_meta :: "string \<rightharpoonup> int"
  s_paused :: "string list"
  s_authority :: ring_authority
  s_queue_ring :: ring_state
  s_lease_ring :: ring_state
  s_claim_ring :: ring_state
  s_claim_cursors :: "int \<rightharpoonup> claim_slot_cursors"
  s_next_job_id :: int
  s_next_receipt_id :: int
  s_next_batch_id :: int
  s_lanes :: "(string \<times> int) set"
  s_heads :: "lane \<rightharpoonup> int"
  s_claim_heads :: "lane \<rightharpoonup> int"
  s_claims :: "bytes \<rightharpoonup> job_id"
  s_ready :: "ready_transition_row list"
  s_segments :: "(int \<times> int \<times> ready_segment_insert) list"
  s_deferred :: "deferred_job_row list"
  s_done :: "done_entry list"
  s_count_deltas :: "(terminal_counter_key \<times> int) list"
  s_live_counts :: "(live_counter_key \<times> int) list"
  s_counters_trusted :: bool
  s_rollups :: "(string \<times> int, int \<times> int) omap"
  s_rollup_deltas :: "(string \<times> int \<times> int \<times> int) list"
  s_ready_tombs :: "ready_tombstone list"
  s_claim_attempts :: "claim_attempt_batch list"
  s_receipt_batches :: "receipt_completion_batch list"
  s_receipt_tombs :: "receipt_tombstone list"
  s_dlq :: "dlq_job_row list"
  s_leases :: "lease_entry list"
  s_lease_claims :: "lease_claim list"
  s_claim_batches :: "lease_claim_batch list"
  s_closures :: "claim_closure list"
  s_closure_batches :: "claim_closure_batch list"
  s_attempts :: "attempt_state_row list"
  s_notified :: "string list"

subsection \<open>Transactions\<close>

named_theorems tx_simps \<open>equations of the transaction combinators\<close>

type_synonym 'a tx = "store \<Rightarrow> (awa_error + 'a) \<times> store"

definition tx_ret :: "'a \<Rightarrow> 'a tx" where
  "tx_ret a s = (Inr a, s)"

definition tx_err :: "awa_error \<Rightarrow> 'a tx" where
  "tx_err e s = (Inl e, s)"

definition tx_bind :: "'a tx \<Rightarrow> ('a \<Rightarrow> 'b tx) \<Rightarrow> 'b tx" where
  "tx_bind m f s = (case m s of (Inl e, s') \<Rightarrow> (Inl e, s') | (Inr a, s') \<Rightarrow> f a s')"

definition tx_get :: "(store \<Rightarrow> 'a) \<Rightarrow> 'a tx" where
  "tx_get f s = (Inr (f s), s)"

definition tx_set :: "(store \<Rightarrow> store) \<Rightarrow> unit tx" where
  "tx_set f s = (Inr (), f s)"

definition tx_lift :: "awa_error + 'a \<Rightarrow> 'a tx" where
  "tx_lift r s = (r, s)"

fun tx_for :: "('a \<Rightarrow> 'b tx) \<Rightarrow> 'a list \<Rightarrow> 'b list tx" where
  "tx_for f [] = tx_ret []"
| "tx_for f (x # xs) = tx_bind (f x) (\<lambda>y. tx_bind (tx_for f xs) (\<lambda>ys. tx_ret (y # ys)))"

definition rollback :: "store \<Rightarrow> store \<Rightarrow> store" where
  "rollback s s' =
    s\<lparr>s_local := s_local s', s_ensured := s_ensured s', s_next_job_id := s_next_job_id s',
      s_next_receipt_id := s_next_receipt_id s', s_next_batch_id := s_next_batch_id s',
      s_heads := (\<lambda>l. if s_heads s l = None then None else s_heads s' l),
      s_claim_heads := (\<lambda>l. if s_claim_heads s l = None then None else s_claim_heads s' l)\<rparr>"

definition in_tx :: "'a tx \<Rightarrow> 'a tx" where
  "in_tx m s = (case m s of (Inl e, s') \<Rightarrow> (Inl e, rollback s s') | (Inr a, s') \<Rightarrow> (Inr a, s'))"

lemma tx_simps' [tx_simps]:
  "tx_ret a s = (Inr a, s)" "tx_err e s = (Inl e, s)" "tx_get f s = (Inr (f s), s)"
  "tx_set g s = (Inr (), g s)" "tx_lift r s = (r, s)"
  by (simp_all add: tx_ret_def tx_err_def tx_get_def tx_set_def tx_lift_def)

lemma tx_bind_Inr: "tx_bind m f s = (Inr b, s') \<longleftrightarrow> (\<exists>a s1. m s = (Inr a, s1) \<and> f a s1 = (Inr b, s'))"
  by (auto simp: tx_bind_def split: prod.splits sum.splits)

lemma tx_bind_Inl:
  "tx_bind m f s = (Inl e, s') \<longleftrightarrow>
     m s = (Inl e, s') \<or> (\<exists>a s1. m s = (Inr a, s1) \<and> f a s1 = (Inl e, s'))"
  by (auto simp: tx_bind_def split: prod.splits sum.splits)

lemma tx_bindE:
  assumes "tx_bind m f s = (Inr b, s')"
  obtains a s1 where "m s = (Inr a, s1)" "f a s1 = (Inr b, s')"
  using assms by (auto simp: tx_bind_Inr)

lemma in_tx_Inr: "in_tx m s = (Inr a, s') \<longleftrightarrow> m s = (Inr a, s')"
  by (auto simp: in_tx_def split: prod.splits sum.splits)

lemma tx_bind_eq [tx_simps]:
  "m s = (Inr a, s1) \<Longrightarrow> tx_bind m f s = f a s1"
  "m s = (Inl e, s1) \<Longrightarrow> tx_bind m f s = (Inl e, s1)"
  by (simp_all add: tx_bind_def)

lemma tx_bind_step [tx_simps]:
  "tx_bind (tx_ret a) f s = f a s" "tx_bind (tx_err e) f' s = (Inl e, s)"
  "tx_bind (tx_get g) f'' s = f'' (g s) s" "tx_bind (tx_set h) f3 s = f3 () (h s)"
  by (simp_all add: tx_simps)

text \<open>
  What a transaction does to a part of the store that it leaves alone.  \<open>tx_keeps P m\<close>: every run of
  \<open>m\<close> relates the store before and after by \<open>P\<close>, whether it succeeds or fails.
\<close>

definition tx_keeps :: "(store \<Rightarrow> store \<Rightarrow> bool) \<Rightarrow> 'a tx \<Rightarrow> bool" where
  "tx_keeps P m \<longleftrightarrow> (\<forall>s. P s (snd (m s)))"

text \<open>
  A relation that a sequence of steps keeps when every step does, as a locale: the properties of
  whole operations are proved from those of their statements.
\<close>

locale tx_relation =
  fixes P :: "store \<Rightarrow> store \<Rightarrow> bool"
  assumes refl: "P s s"
    and trans: "P s t \<Longrightarrow> P t u \<Longrightarrow> P s u"
begin

lemma keeps_basic: "tx_keeps P (tx_ret a)" "tx_keeps P (tx_err e)" "tx_keeps P (tx_get g)"
  "tx_keeps P (tx_lift r)"
  by (simp_all add: tx_keeps_def tx_simps refl)

lemma keeps_set: "(\<And>s. P s (f s)) \<Longrightarrow> tx_keeps P (tx_set f)"
  by (simp add: tx_keeps_def tx_simps)

lemma keeps_bind: "tx_keeps P m \<Longrightarrow> (\<And>a. tx_keeps P (f a)) \<Longrightarrow> tx_keeps P (tx_bind m f)"
  unfolding tx_keeps_def tx_bind_def
  by (auto split: prod.splits sum.splits intro: trans) (metis snd_conv trans)+

lemma keeps_for: "(\<And>a. tx_keeps P (f a)) \<Longrightarrow> tx_keeps P (tx_for f xs)"
  by (induction xs) (auto intro!: keeps_bind keeps_basic)

lemma keeps_if: "(b \<Longrightarrow> tx_keeps P m) \<Longrightarrow> (\<not> b \<Longrightarrow> tx_keeps P m') \<Longrightarrow> tx_keeps P (if b then m else m')"
  by simp

lemma keeps_option:
  "tx_keeps P m \<Longrightarrow> (\<And>a. tx_keeps P (f a)) \<Longrightarrow> tx_keeps P (case x of None \<Rightarrow> m | Some a \<Rightarrow> f a)"
  by (cases x) simp_all

lemma keepsD: "tx_keeps P m \<Longrightarrow> m s = (r, s') \<Longrightarrow> P s s'"
  by (metis tx_keeps_def snd_conv)

end

end
