(* ===== verification/Awa_Enqueue.thy ===== *)
theory Awa_Enqueue
  imports Awa_Store
begin

section \<open>Enqueueing\<close>

text \<open>
  The write path of \<^verbatim>\<open>queue_storage.rs\<close> from prepared jobs to rows: unique claims, lane rows and lane
  sequences, job ids, the inserts of ready and deferred rows and of the segments, notification, and the
  public entry points \<^verbatim>\<open>enqueue_batch\<close>, \<^verbatim>\<open>enqueue_params_batch\<close> and \<^verbatim>\<open>enqueue_params_copy\<close>.
  The lemmas show what an enqueue that returns wrote, that an enqueue that fails wrote nothing, that
  positions of a lane are never handed out twice, and that the claims of unique keys follow the states of
  the jobs.
\<close>


subsection \<open>Unique claims\<close>

definition unique_conflict :: awa_error where
  "unique_conflict = UniqueConflict (Some ''idx_awa_jobs_unique'')"

definition state_claims :: "string option \<Rightarrow> job_state option \<Rightarrow> bool" where
  "state_claims unique_states state =
    (case state of None \<Rightarrow> False | Some st \<Rightarrow> unique_state_claims unique_states st)"

definition release_claim :: "bytes \<Rightarrow> job_id \<Rightarrow> unit tx" where
  "release_claim key job_id =
    tx_set (\<lambda>s. if s_claims s key = Some job_id then s\<lparr>s_claims := (s_claims s)(key := None)\<rparr> else s)"

text \<open>
  \<^verbatim>\<open>INSERT ... ON CONFLICT (unique_key) DO UPDATE ... WHERE job_id = EXCLUDED.job_id\<close>: whether a row was
  affected.
\<close>

definition acquire_claim :: "bytes \<Rightarrow> job_id \<Rightarrow> bool tx" where
  "acquire_claim key job_id s =
    (case s_claims s key of
       None \<Rightarrow> (Inr True, s\<lparr>s_claims := (s_claims s)(key \<mapsto> job_id)\<rparr>)
     | Some holder \<Rightarrow> (Inr (holder = job_id), s))"

definition sync_unique_claim ::
  "job_id \<Rightarrow> bytes option \<Rightarrow> string option \<Rightarrow> job_state option \<Rightarrow> job_state option \<Rightarrow> unit tx" where
  "sync_unique_claim job_id unique_key unique_states old_state new_state =
    (let old_claim = state_claims unique_states old_state;
         new_claim = state_claims unique_states new_state in
     tx_bind
       (if old_claim \<and> \<not> new_claim then
          (case unique_key of None \<Rightarrow> tx_ret () | Some key \<Rightarrow> release_claim key job_id)
        else tx_ret ())
       (\<lambda>_. if new_claim \<and> \<not> old_claim then
               (case unique_key of
                  None \<Rightarrow> tx_ret ()
                | Some key \<Rightarrow> tx_bind (acquire_claim key job_id) (\<lambda>affected.
                    if \<not> affected then tx_err unique_conflict else tx_ret ()))
             else tx_ret ()))"

definition sync_enqueue_unique_claims :: "(bytes \<times> job_id) list \<Rightarrow> unit tx" where
  "sync_enqueue_unique_claims claims =
    (if claims = [] then tx_ret ()
     else if \<not> distinct (map fst claims) then tx_err unique_conflict
     else tx_bind (tx_for (\<lambda>(key, job_id). acquire_claim key job_id) (sort_key fst claims)) (\<lambda>applied.
       if length (filter id applied) \<noteq> length claims then tx_err unique_conflict else tx_ret ()))"

definition enqueue_claim :: "string option \<Rightarrow> job_state \<Rightarrow> bytes option \<Rightarrow> job_id \<Rightarrow> (bytes \<times> job_id) list" where
  "enqueue_claim unique_states state unique_key job_id =
    (if unique_state_claims unique_states state then
       (case unique_key of None \<Rightarrow> [] | Some key \<Rightarrow> [(key, job_id)])
     else [])"

definition sync_ready_enqueue_unique_claims :: "runtime_ready_insert list \<Rightarrow> unit tx" where
  "sync_ready_enqueue_unique_claims rows =
    sync_enqueue_unique_claims
      (concat (map (\<lambda>row. enqueue_claim (r_unique_states row) Available (r_unique_key row) (r_job_id row)) rows))"

definition sync_deferred_enqueue_unique_claims :: "deferred_job_row list \<Rightarrow> unit tx" where
  "sync_deferred_enqueue_unique_claims rows =
    sync_enqueue_unique_claims
      (concat (map (\<lambda>row. enqueue_claim (r_unique_states row) (df_state row) (r_unique_key row) (r_job_id row)) rows))"

text \<open>Ready rows of a batch have their ids assigned before this is called.\<close>

definition batch_enqueue_unique_claims ::
  "runtime_ready_row list \<Rightarrow> deferred_job_row list \<Rightarrow> (bytes \<times> job_id) list" where
  "batch_enqueue_unique_claims ready_rows deferred_rows =
    concat (map (\<lambda>row. enqueue_claim (rr_unique_states row) Available (rr_unique_key row)
                         (the (rr_job_id row))) ready_rows) @
    concat (map (\<lambda>row. enqueue_claim (r_unique_states row) (df_state row) (r_unique_key row)
                         (r_job_id row)) deferred_rows)"

text \<open>The loop of the state transitions: rows in order of key and id, one claim each.\<close>

definition sync_rows ::
  "('a existing_ready_row_scheme \<Rightarrow> job_state) \<Rightarrow> job_state option \<Rightarrow> 'a existing_ready_row_scheme list \<Rightarrow> unit tx" where
  "sync_rows new_state old_state rows =
    tx_bind
      (tx_for (\<lambda>row. sync_unique_claim (r_job_id row) (r_unique_key row) (r_unique_states row)
                       old_state (Some (new_state row)))
         (sort_key (\<lambda>row. (r_unique_key row, r_job_id row)) rows))
      (\<lambda>_. tx_ret ())"


subsection \<open>Lanes\<close>

definition lane_is_cached :: "lane \<Rightarrow> store \<Rightarrow> bool" where
  "lane_is_cached l s \<longleftrightarrow> l \<in> s_ensured s"

definition mark_lane_ensured :: "lane \<Rightarrow> store \<Rightarrow> store" where
  "mark_lane_ensured l s = s\<lparr>s_ensured := insert l (s_ensured s)\<rparr>"

definition invalidate_cached_lane :: "lane \<Rightarrow> store \<Rightarrow> store" where
  "invalidate_cached_lane l s = s\<lparr>s_ensured := s_ensured s - {l}\<rparr>"

definition clear_lane_cache :: "store \<Rightarrow> store" where
  "clear_lane_cache s = s\<lparr>s_ensured := {}\<rparr>"

text \<open>
  The three inserts with \<^verbatim>\<open>ON CONFLICT DO NOTHING\<close>; a new head's sequence starts at 1.
\<close>

definition ensure_row :: "lane \<Rightarrow> (lane \<rightharpoonup> int) \<Rightarrow> (lane \<rightharpoonup> int)" where
  "ensure_row l m = (if m l = None then m(l \<mapsto> 1) else m)"

definition ensure_lane_inserts :: "lane \<Rightarrow> unit tx" where
  "ensure_lane_inserts l =
    tx_set (\<lambda>s. mark_lane_ensured l
      (s\<lparr>s_lanes := insert (fst l, fst (snd l)) (s_lanes s),
         s_heads := ensure_row l (s_heads s),
         s_claim_heads := ensure_row l (s_claim_heads s)\<rparr>))"

definition ensure_lane :: "lane \<Rightarrow> unit tx" where
  "ensure_lane l =
    tx_bind (tx_get (lane_is_cached l)) (\<lambda>cached.
      if cached then
        tx_bind (tx_get (\<lambda>s. s_heads s l \<noteq> None)) (\<lambda>visible.
          if visible then tx_ret ()
          else tx_bind (tx_set (invalidate_cached_lane l)) (\<lambda>_. ensure_lane_inserts l))
      else ensure_lane_inserts l)"

text \<open>
  \<^verbatim>\<open>reserve_enqueue_seq\<close> of the schema, applied to the head row when there is one: the next value of
  the lane's sequence, which moves past the reserved range.
\<close>

definition reserve_enqueue_seq :: "lane \<Rightarrow> int \<Rightarrow> int option tx" where
  "reserve_enqueue_seq l n s =
    (case s_heads s l of
       None \<Rightarrow> (Inr None, s)
     | Some next \<Rightarrow>
         if n \<le> 0 then (Inr (Some next), s)
         else (Inr (Some next), s\<lparr>s_heads := (s_heads s)(l \<mapsto> next + n)\<rparr>))"

definition advance_enqueue_head :: "lane \<Rightarrow> int \<Rightarrow> int tx" where
  "advance_enqueue_head l n =
    tx_bind (reserve_enqueue_seq l n) (\<lambda>maybe_start.
      case maybe_start of
        Some start \<Rightarrow> tx_ret start
      | None \<Rightarrow>
          tx_bind (tx_set (invalidate_cached_lane l)) (\<lambda>_.
          tx_bind (ensure_lane_inserts l) (\<lambda>_.
          tx_bind (reserve_enqueue_seq l n) (\<lambda>start.
            case start of
              Some v \<Rightarrow> tx_ret v
            | None \<Rightarrow> tx_err (map_sqlx_error RowNotFound)))))"

definition prepare_queue :: "string \<Rightarrow> int \<Rightarrow> unit tx" where
  "prepare_queue queue enqueue_shards =
    (if queue = [] \<or> \<not> (1 \<le> enqueue_shards \<and> enqueue_shards \<le> 64) then
       tx_err (Validation ''prepare_queue requires a nonempty queue and 1..=64 enqueue shards'')
     else in_tx
       (tx_bind (tx_get (\<lambda>s. sort (physical_queues_for_logical (s_config s) queue))) (\<lambda>physical_queues.
        tx_bind (tx_for ensure_lane_inserts
                   [(q, p, shard). q \<leftarrow> physical_queues, p \<leftarrow> [1..4], shard \<leftarrow> [0..enqueue_shards - 1]])
          (\<lambda>_. tx_ret ()))))"

subsection \<open>Ready rows\<close>

definition current_queue_ring :: "(int \<times> int) tx" where
  "current_queue_ring s = (ring_cursor (s_authority s) (s_queue_ring s), s)"

definition next_job_ids :: "nat \<Rightarrow> job_id list tx" where
  "next_job_ids n s =
    (if n = 0 then (Inr [], s)
     else (Inr (map (\<lambda>i. s_next_job_id s + int i) [0..<n]),
           s\<lparr>s_next_job_id := s_next_job_id s + int n\<rparr>))"

text \<open>The conflict on the primary key of a partition.\<close>

definition pkey_conflict :: "string \<Rightarrow> awa_error" where
  "pkey_conflict table = map_sqlx_error (DbError (Some ''23505'') (Some (table @ ''_pkey'')))"

definition partition_name :: "string \<Rightarrow> int \<Rightarrow> string" where
  "partition_name table slot = table @ ''_'' @ string_of_int slot"

definition coalesced_payload :: "json \<Rightarrow> json" where
  "coalesced_payload v = (case storage_payload v of None \<Rightarrow> JObject [] | Some w \<Rightarrow> w)"

definition ready_entry :: "int \<times> int \<Rightarrow> runtime_ready_insert \<Rightarrow> ready_transition_row" where
  "ready_entry ring row =
    existing_ready_row.extend
      ((existing_ready_row.truncate row)\<lparr>r_payload := coalesced_payload (r_payload row)\<rparr>)
      (ready_transition_row.fields (fst ring) (snd ring) (ri_lane_seq row) (ri_enqueue_shard row))"

definition ready_key :: "ready_transition_row \<Rightarrow> int \<times> string \<times> int \<times> int \<times> int" where
  "ready_key r = (rt_ready_slot r, r_queue r, r_priority r, rt_enqueue_shard r, rt_lane_seq r)"

definition execute_ready_inserts_tx :: "int \<times> int \<Rightarrow> runtime_ready_insert list \<Rightarrow> nat tx" where
  "execute_ready_inserts_tx ring rows s =
    (if rows = [] then (Inr 0, s)
     else
       let entries = map (ready_entry ring) rows in
       if distinct (map ready_key entries) \<and>
          list_all (\<lambda>k. k \<notin> set (map ready_key (s_ready s))) (map ready_key entries)
       then (Inr (length rows), s\<lparr>s_ready := s_ready s @ entries\<rparr>)
       else (Inl (pkey_conflict (partition_name ''ready_entries'' (fst ring))), s))"

definition copy_min_rows :: nat where
  "copy_min_rows = 2048"

text \<open>
  Above the threshold the rows go through \<^verbatim>\<open>COPY\<close> in chunks of the CSV text; the rows that arrive are
  the same.
\<close>

definition copy_ready_rows :: "int \<times> int \<Rightarrow> runtime_ready_insert list \<Rightarrow> nat tx" where
  "copy_ready_rows ring rows = execute_ready_inserts_tx ring rows"

definition execute_ready_copy_tx :: "int \<times> int \<Rightarrow> runtime_ready_insert list \<Rightarrow> nat tx" where
  "execute_ready_copy_tx ring rows =
    (if rows = [] then tx_ret 0
     else if length rows < copy_min_rows then execute_ready_inserts_tx ring rows
     else copy_ready_rows ring rows)"

definition segment_key :: "int \<times> int \<times> ready_segment_insert \<Rightarrow> int \<times> int \<times> string \<times> int \<times> int \<times> int" where
  "segment_key r =
    (case r of (slot, gen, g) \<Rightarrow> (slot, gen, sg_queue g, sg_priority g, sg_enqueue_shard g, sg_first_lane_seq g))"

fun insert_segments :: "(int \<times> int \<times> ready_segment_insert) list \<Rightarrow> (int \<times> int \<times> ready_segment_insert) list
    \<Rightarrow> (int \<times> int \<times> ready_segment_insert) list" where
  "insert_segments t [] = t"
| "insert_segments t (r # rs) =
    (if segment_key r \<in> set (map segment_key t) then insert_segments t rs else insert_segments (t @ [r]) rs)"

definition insert_ready_segments_tx :: "int \<times> int \<Rightarrow> runtime_ready_insert list \<Rightarrow> nat tx" where
  "insert_ready_segments_tx ring rows =
    (let segments = ready_segments_from_rows rows in
     if segments = [] then tx_ret 0
     else tx_bind (tx_set (\<lambda>s. s\<lparr>s_segments :=
                     insert_segments (s_segments s) (map (\<lambda>g. (fst ring, snd ring, g)) segments)\<rparr>))
            (\<lambda>_. tx_ret (length segments)))"

text \<open>
  Job ids for the rows of one lane: a row keeps the id it has, or takes the next one of the iterator.
\<close>

definition ready_insert :: "job_id \<Rightarrow> int \<Rightarrow> runtime_ready_row \<Rightarrow> runtime_ready_insert" where
  "ready_insert job_id enqueue_shard row =
    \<lparr> r_job_id = job_id, r_kind = rr_kind row, r_queue = rr_queue row, r_args = rr_args row,
      r_priority = rr_priority row, r_attempt = rr_attempt row, r_run_lease = rr_run_lease row,
      r_max_attempts = rr_max_attempts row, r_run_at = rr_run_at row,
      r_attempted_at = rr_attempted_at row, r_created_at = rr_created_at row,
      r_unique_key = rr_unique_key row, r_unique_states = rr_unique_states row,
      r_payload = rr_payload row, ri_lane_seq = 0, ri_enqueue_shard = enqueue_shard \<rparr>"

fun assign_lane_ids ::
  "int \<Rightarrow> runtime_ready_row list \<Rightarrow> job_id list \<Rightarrow> awa_error + runtime_ready_insert list \<times> job_id list" where
  "assign_lane_ids shard [] ids = Inr ([], ids)"
| "assign_lane_ids shard (row # rows) ids =
    (case (rr_job_id row, ids) of
       (Some job_id, _) \<Rightarrow>
         res_bind (assign_lane_ids shard rows ids) (\<lambda>(rs, rest). Inr (ready_insert job_id shard row # rs, rest))
     | (None, []) \<Rightarrow> Inl (Validation ''queue storage job id allocation underflow'')
     | (None, job_id # ids') \<Rightarrow>
         res_bind (assign_lane_ids shard rows ids') (\<lambda>(rs, rest). Inr (ready_insert job_id shard row # rs, rest)))"

text \<open>The ready rows of all lanes, each lane with its range of them.\<close>

fun assign_job_ids ::
  "(lane, runtime_ready_row list) omap \<Rightarrow> job_id list \<Rightarrow> awa_error + (lane \<times> runtime_ready_insert list) list" where
  "assign_job_ids [] ids = Inr []"
| "assign_job_ids ((l, lane_rows) # grouped) ids =
    res_bind (assign_lane_ids (snd (snd l)) lane_rows ids) (\<lambda>(rs, rest).
      res_bind (assign_job_ids grouped rest) (\<lambda>lanes. Inr ((l, rs) # lanes)))"

definition number_from :: "int \<Rightarrow> runtime_ready_insert list \<Rightarrow> runtime_ready_insert list" where
  "number_from start rows = map (\<lambda>(i, row). row\<lparr>ri_lane_seq := start + int i\<rparr>) (enumerate 0 rows)"

definition position_lane :: "lane \<times> runtime_ready_insert list \<Rightarrow> runtime_ready_insert list tx" where
  "position_lane lr =
    tx_bind (ensure_lane (fst lr)) (\<lambda>_.
    tx_bind (advance_enqueue_head (fst lr) (int (length (snd lr)))) (\<lambda>start.
      tx_ret (number_from start (snd lr))))"

definition group_rows_tx :: "runtime_ready_row list \<Rightarrow> (lane, runtime_ready_row list) omap tx" where
  "group_rows_tx rows s =
    (let (grouped, st) = group_ready_rows_by_shard (s_queue_meta s) rows (s_local s)
     in (Inr grouped, s\<lparr>s_local := st\<rparr>))"

text \<open>
  The insert of ready rows; the two functions of the code differ only in the statement that writes
  them.
\<close>

definition insert_ready_rows_with ::
  "(int \<times> int \<Rightarrow> runtime_ready_insert list \<Rightarrow> nat tx) \<Rightarrow> runtime_ready_row list \<Rightarrow> bool \<Rightarrow> nat tx" where
  "insert_ready_rows_with execute rows unique_claims_synced =
    (if rows = [] then tx_ret 0
     else
       tx_bind (group_rows_tx rows) (\<lambda>grouped.
       let grouped_rows = concat (map snd grouped) in
       tx_bind (next_job_ids (length (filter (\<lambda>row. rr_job_id row = None) grouped_rows))) (\<lambda>job_ids.
       tx_bind (tx_lift (assign_job_ids grouped job_ids)) (\<lambda>lanes.
       tx_bind (if \<not> unique_claims_synced then sync_ready_enqueue_unique_claims (concat (map snd lanes))
                else tx_ret ()) (\<lambda>_.
       tx_bind (tx_for position_lane lanes) (\<lambda>positioned.
       tx_bind current_queue_ring (\<lambda>ring.
       tx_bind (execute ring (concat positioned)) (\<lambda>_.
       tx_bind (insert_ready_segments_tx ring (concat positioned)) (\<lambda>_.
         tx_ret (length grouped_rows))))))))))"

definition insert_ready_rows_tx :: "runtime_ready_row list \<Rightarrow> bool \<Rightarrow> nat tx" where
  "insert_ready_rows_tx rows unique_claims_synced =
    insert_ready_rows_with execute_ready_inserts_tx rows unique_claims_synced"

definition insert_ready_rows_copy_tx :: "runtime_ready_row list \<Rightarrow> bool \<Rightarrow> nat tx" where
  "insert_ready_rows_copy_tx rows unique_claims_synced =
    insert_ready_rows_with execute_ready_copy_tx rows unique_claims_synced"

text \<open>Rows that come back from another table: their ids are theirs, the shard is the rotor's.\<close>

definition existing_insert :: "int \<Rightarrow> existing_ready_row \<Rightarrow> runtime_ready_insert" where
  "existing_insert enqueue_shard row =
    existing_ready_row.extend row (runtime_ready_insert.fields 0 enqueue_shard)"

definition shard_for_enqueue_tx :: "string \<Rightarrow> bytes option \<Rightarrow> int tx" where
  "shard_for_enqueue_tx queue ordering_key s =
    (let (shard, st) = shard_for_enqueue (s_queue_meta s) queue ordering_key (s_local s)
     in (Inr shard, s\<lparr>s_local := st\<rparr>))"

definition group_existing ::
  "existing_ready_row list \<Rightarrow> (string \<times> int, existing_ready_row list) omap" where
  "group_existing rows = foldl (\<lambda>m row. omap_push (r_queue row, r_priority row) row m) [] rows"

definition position_existing ::
  "(string \<times> int) \<times> existing_ready_row list \<Rightarrow> runtime_ready_insert list tx" where
  "position_existing lr =
    tx_bind (shard_for_enqueue_tx (fst (fst lr)) None) (\<lambda>shard.
      position_lane ((fst (fst lr), snd (fst lr), shard), map (existing_insert shard) (snd lr)))"

definition insert_existing_ready_rows_tx ::
  "existing_ready_row list \<Rightarrow> job_state option \<Rightarrow> nat tx" where
  "insert_existing_ready_rows_tx rows old_state =
    (if rows = [] then tx_ret 0
     else
       tx_bind (sync_rows (\<lambda>_. Available) old_state rows) (\<lambda>_.
       let grouped = group_existing rows in
       tx_bind (tx_for position_existing grouped) (\<lambda>positioned.
       tx_bind current_queue_ring (\<lambda>ring.
       tx_bind (execute_ready_inserts_tx ring (concat positioned)) (\<lambda>_.
       tx_bind (insert_ready_segments_tx ring (concat positioned)) (\<lambda>_.
         tx_ret (length (concat (map snd grouped)))))))))"

subsection \<open>Deferred rows\<close>

text \<open>
  \<^verbatim>\<open>deferred_jobs\<close> has the primary key \<^verbatim>\<open>job_id\<close> and accepts the states scheduled and retryable.
\<close>

definition deferred_entry :: "deferred_job_row \<Rightarrow> deferred_job_row" where
  "deferred_entry row = row\<lparr>r_payload := coalesced_payload (r_payload row)\<rparr>"

definition execute_deferred_inserts_tx :: "deferred_job_row list \<Rightarrow> nat tx" where
  "execute_deferred_inserts_tx rows s =
    (if rows = [] then (Inr 0, s)
     else if \<not> list_all (\<lambda>row. df_state row = Scheduled \<or> df_state row = Retryable) rows
     then (Inl (map_sqlx_error (DbError (Some ''23514'') (Some ''deferred_jobs_state_check''))), s)
     else if distinct (map r_job_id rows) \<and>
             list_all (\<lambda>row. r_job_id row \<notin> set (map r_job_id (s_deferred s))) rows
     then (Inr (length rows), s\<lparr>s_deferred := s_deferred s @ map deferred_entry rows\<rparr>)
     else (Inl (pkey_conflict ''deferred_jobs''), s))"

definition insert_deferred_rows_tx :: "deferred_job_row list \<Rightarrow> job_state option \<Rightarrow> nat tx" where
  "insert_deferred_rows_tx rows old_state =
    (if rows = [] then tx_ret 0
     else
       tx_bind (if old_state = None then sync_deferred_enqueue_unique_claims rows
                else sync_rows df_state old_state rows) (\<lambda>_.
         execute_deferred_inserts_tx rows))"

definition copy_deferred_rows :: "deferred_job_row list \<Rightarrow> nat tx" where
  "copy_deferred_rows rows = execute_deferred_inserts_tx rows"

definition insert_deferred_rows_copy_tx :: "deferred_job_row list \<Rightarrow> bool \<Rightarrow> nat tx" where
  "insert_deferred_rows_copy_tx rows unique_claims_synced =
    (if rows = [] then tx_ret 0
     else
       tx_bind (if \<not> unique_claims_synced then sync_deferred_enqueue_unique_claims rows
                else tx_ret ()) (\<lambda>_.
         if length rows < copy_min_rows then execute_deferred_inserts_tx rows
         else copy_deferred_rows rows))"


subsection \<open>Entry points\<close>

definition notify_queues_tx :: "string list \<Rightarrow> unit tx" where
  "notify_queues_tx queues =
    tx_bind (tx_get (\<lambda>s. remdups_adj (sort (map (\<lambda>q. ''awa:'' @ logical_queue_name (s_config s) q) queues))))
      (\<lambda>channels. if channels = [] then tx_ret ()
                   else tx_set (\<lambda>s. s\<lparr>s_notified := s_notified s @ channels\<rparr>))"

definition enqueue_runtime_rows :: "runtime_ready_row list \<Rightarrow> nat tx" where
  "enqueue_runtime_rows rows =
    (if rows = [] then tx_ret 0
     else in_tx
       (tx_bind (insert_ready_rows_tx rows False) (\<lambda>total_rows.
        tx_bind (notify_queues_tx (map rr_queue rows)) (\<lambda>_. tx_ret total_rows))))"

definition bench_row :: "queue_storage_config \<Rightarrow> timestamp \<Rightarrow> string \<Rightarrow> int \<Rightarrow> int \<Rightarrow> runtime_ready_row" where
  "bench_row cfg now queue priority seq =
    \<lparr> rr_job_id = None, rr_kind = ''bench_job'',
      rr_queue = (if uses_queue_striping cfg \<and> \<not> is_physical_stripe_queue cfg queue
                  then physical_queue_for_stripe queue
                         (nat (rem_euclid seq (int (cfg_queue_stripe_count cfg))))
                  else queue),
      rr_args = JObject [(''seq'', json_of_int seq)], rr_priority = priority, rr_attempt = 0,
      rr_run_lease = 0, rr_max_attempts = 25, rr_run_at = now, rr_attempted_at = None,
      rr_created_at = now, rr_unique_key = None, rr_unique_states = None,
      rr_payload = payload_into_json runtime_payload_default, rr_ordering_key = None \<rparr>"

definition enqueue_batch :: "timestamp \<Rightarrow> string \<Rightarrow> int \<Rightarrow> int \<Rightarrow> int tx" where
  "enqueue_batch now queue priority n =
    (if n \<le> 0 then tx_ret 0
     else
       tx_bind (tx_get s_config) (\<lambda>cfg.
       tx_bind (enqueue_runtime_rows (map (bench_row cfg now queue priority) [0..n - 1])) (\<lambda>total_rows.
         tx_ret (int total_rows))))"

text \<open>
  The environment of a parameter batch: the insert environment of Awa_Insert and the hasher that picks the
  stripe of a unique key.
\<close>

record enqueue_env =
  ee_insert :: insert_env
  ee_default_hash :: "bytes \<Rightarrow> 64 word"

definition prepared_ready_row :: "timestamp \<Rightarrow> string \<Rightarrow> json \<Rightarrow> prepared_job_insert \<Rightarrow> runtime_ready_row" where
  "prepared_ready_row now queue payload p =
    \<lparr> rr_job_id = None, rr_kind = pi_kind p, rr_queue = queue, rr_args = pi_args p,
      rr_priority = pi_priority p, rr_attempt = 0, rr_run_lease = 0,
      rr_max_attempts = pi_max_attempts p,
      rr_run_at = (case pi_run_at p of None \<Rightarrow> now | Some t \<Rightarrow> t),
      rr_attempted_at = None, rr_created_at = now, rr_unique_key = pi_unique_key p,
      rr_unique_states = pi_unique_states p, rr_payload = payload,
      rr_ordering_key = pi_ordering_key p \<rparr>"

definition scheduled_row :: "runtime_ready_row \<Rightarrow> deferred_job_row" where
  "scheduled_row row =
    \<lparr> r_job_id = 0, r_kind = rr_kind row, r_queue = rr_queue row, r_args = rr_args row,
      r_priority = rr_priority row, r_attempt = rr_attempt row, r_run_lease = rr_run_lease row,
      r_max_attempts = rr_max_attempts row, r_run_at = rr_run_at row,
      r_attempted_at = rr_attempted_at row, r_created_at = rr_created_at row,
      r_unique_key = rr_unique_key row, r_unique_states = rr_unique_states row,
      r_payload = rr_payload row, df_state = Scheduled, df_finalized_at = None \<rparr>"

text \<open>
  The loop over the jobs of a batch: every job becomes a ready row or a deferred row, or the batch fails
  before a transaction is begun.
\<close>

fun partition_jobs ::
  "enqueue_env \<Rightarrow> queue_storage_config \<Rightarrow> timestamp \<Rightarrow> nat \<Rightarrow> insert_params list \<Rightarrow>
     awa_error + runtime_ready_row list \<times> deferred_job_row list" where
  "partition_jobs env cfg now idx [] = Inr ([], [])"
| "partition_jobs env cfg now idx (job # jobs) =
    res_bind (prepare_raw_job_insert (ee_insert env) (ip_kind job) (ip_args job) (ip_opts job)) (\<lambda>prepared.
    res_bind (payload_from_parts (pi_metadata prepared) (pi_tags prepared) None None) (\<lambda>payload.
    let queue = queue_stripe_for_enqueue (ee_default_hash env) cfg (pi_queue prepared)
                  (pi_unique_key prepared) (int idx);
        row = prepared_ready_row now queue payload prepared in
    if pi_state prepared = Available then
      res_bind (partition_jobs env cfg now (Suc idx) jobs) (\<lambda>(ready, deferred). Inr (row # ready, deferred))
    else if pi_state prepared = Scheduled then
      res_bind (partition_jobs env cfg now (Suc idx) jobs)
        (\<lambda>(ready, deferred). Inr (ready, scheduled_row row # deferred))
    else
      Inl (Validation (''queue storage does not support initial state '' @ as_str (pi_state prepared)))))"

definition with_job_ids :: "runtime_ready_row list \<Rightarrow> job_id list \<Rightarrow> runtime_ready_row list" where
  "with_job_ids rows ids = map (\<lambda>(row, i). row\<lparr>rr_job_id := Some i\<rparr>) (zip rows ids)"

definition with_deferred_ids :: "deferred_job_row list \<Rightarrow> job_id list \<Rightarrow> deferred_job_row list" where
  "with_deferred_ids rows ids = map (\<lambda>(row, i). row\<lparr>r_job_id := i\<rparr>) (zip rows ids)"

text \<open>
  The transaction of a batch, given how ready and deferred rows are written.
\<close>

definition enqueue_rows_with ::
  "(runtime_ready_row list \<Rightarrow> bool \<Rightarrow> nat tx) \<Rightarrow> (deferred_job_row list \<Rightarrow> nat tx) \<Rightarrow>
     runtime_ready_row list \<Rightarrow> deferred_job_row list \<Rightarrow> nat tx" where
  "enqueue_rows_with insert_ready insert_deferred ready0 deferred0 =
    in_tx
     (tx_bind (next_job_ids (length ready0 + length deferred0)) (\<lambda>job_ids.
      let ready_rows = with_job_ids ready0 (take (length ready0) job_ids);
          deferred_rows = with_deferred_ids deferred0 (drop (length ready0) job_ids) in
      tx_bind (sync_enqueue_unique_claims (batch_enqueue_unique_claims ready_rows deferred_rows)) (\<lambda>_.
      tx_bind (if ready_rows \<noteq> [] then insert_ready ready_rows True else tx_ret 0) (\<lambda>n_ready.
      tx_bind (if deferred_rows \<noteq> [] then insert_deferred deferred_rows else tx_ret 0) (\<lambda>n_deferred.
      tx_bind (notify_queues_tx (map rr_queue ready_rows)) (\<lambda>_.
        tx_ret (n_ready + n_deferred)))))))"

definition enqueue_params_batch :: "enqueue_env \<Rightarrow> timestamp \<Rightarrow> insert_params list \<Rightarrow> nat tx" where
  "enqueue_params_batch env now jobs =
    (if jobs = [] then tx_ret 0
     else
       tx_bind (tx_get s_config) (\<lambda>cfg.
       tx_bind (tx_lift (partition_jobs env cfg now 0 jobs)) (\<lambda>(ready, deferred).
         enqueue_rows_with insert_ready_rows_tx execute_deferred_inserts_tx ready deferred)))"

definition enqueue_params_copy :: "enqueue_env \<Rightarrow> timestamp \<Rightarrow> insert_params list \<Rightarrow> nat tx" where
  "enqueue_params_copy env now jobs =
    (if jobs = [] then tx_ret 0
     else
       tx_bind (tx_get s_config) (\<lambda>cfg.
       tx_bind (tx_lift (partition_jobs env cfg now 0 jobs)) (\<lambda>(ready, deferred).
         enqueue_rows_with insert_ready_rows_copy_tx (\<lambda>rows. insert_deferred_rows_copy_tx rows True)
           ready deferred)))"

subsection \<open>Grouping loses no row\<close>

abbreviation omap_values :: "('k, 'v list) omap \<Rightarrow> 'v list" where
  "omap_values m \<equiv> concat (map snd m)"

lemma mset_omap_insert:
  "omap_wf m \<Longrightarrow>
   mset (omap_values (omap_insert k vs m)) + mset (bucket_of m k) = mset (omap_values m) + mset vs"
proof (induction k vs m rule: omap_insert.induct)
  case (2 k vs k' vs' m)
  have less: "k < k' \<Longrightarrow> map_of ((k', vs') # m) k = None"
    using 2 by (auto simp: omap_wf_def map_of_eq_None_iff dest: order_less_trans)
  have wf: "omap_wf m" using 2 by (simp add: omap_wf_def)
  have bucket: "bucket_of ((k', vs') # m) k = (if k = k' then vs' else bucket_of m k)"
    by (simp add: bucket_of_def)
  consider "k < k'" | "k = k'" | "\<not> k < k'" "k \<noteq> k'" by auto
  then show ?case
  proof cases
    case 1
    then show ?thesis using less by (simp add: bucket_of_def)
  next
    case 3
    then show ?thesis using 2(1) [OF 3(1,2) wf] by (simp add: bucket union_ac)
  qed (simp add: bucket_of_def)
qed (simp add: bucket_of_def)

lemma mset_omap_extend:
  assumes "omap_wf m"
  shows "mset (omap_values (omap_extend k vs m)) = mset (omap_values m) + mset vs"
proof -
  have "omap_extend k vs m = omap_insert k (bucket_of m k @ vs) m"
    by (simp add: omap_extend_def omap_update_def bucket_of_def split: option.split)
  then show ?thesis using mset_omap_insert [OF assms, of k "bucket_of m k @ vs"]
    by (simp add: union_ac)
qed

lemma mset_omap_push: "omap_wf m \<Longrightarrow> mset (omap_values (omap_push k v m)) = add_mset v (mset (omap_values m))"
  using mset_omap_extend [of m k "[v]"] by (simp add: omap_push_def omap_extend_def)

lemma mset_foldl_push:
  "omap_wf m \<Longrightarrow> mset (omap_values (foldl (\<lambda>m x. omap_push (f x) x m) m xs)) = mset (omap_values m) + mset xs \<and>
     omap_wf (foldl (\<lambda>m x. omap_push (f x) x m) m xs)"
  by (induction xs arbitrary: m) (simp_all add: mset_omap_push omap_push_wf)

lemma mset_shard_bucket:
  "shard_bucket meta q p bucket (grouped, rotor, st) = (grouped', rotor', st') \<Longrightarrow> omap_wf grouped \<Longrightarrow>
     mset (omap_values grouped') + mset rotor' = mset (omap_values grouped) + mset rotor + mset bucket"
proof (induction bucket arbitrary: grouped rotor st)
  case (Cons row bucket)
  then show ?case
  proof (cases "rr_ordering_key row = None")
    case True
    with Cons.IH [of grouped "rotor @ [row]" st] Cons.prems show ?thesis by simp
  next
    case False
    obtain shard st1 where sh: "shard_for_enqueue meta q (rr_ordering_key row) st = (shard, st1)" by fastforce
    with Cons.IH [of "omap_push (q, p, shard) row grouped" rotor st1] Cons.prems False
    show ?thesis by (simp add: mset_omap_push omap_push_wf del: omap_push_def)
  qed
qed simp

lemma mset_shard_buckets:
  "shard_buckets meta buckets (grouped, st) = (grouped', st') \<Longrightarrow> omap_wf grouped \<Longrightarrow>
     mset (omap_values grouped') = mset (omap_values grouped) + mset (omap_values buckets)"
proof (induction buckets arbitrary: grouped st)
  case (Cons qb rest)
  obtain q p bucket where qb: "qb = ((q, p), bucket)" by (cases qb) auto
  obtain g1 rotor st1 where b: "shard_bucket meta q p bucket (grouped, [], st) = (g1, rotor, st1)"
    by (rule prod_cases3)
  have g1: "omap_wf g1" "mset (omap_values g1) + mset rotor = mset (omap_values grouped) + mset bucket"
    using shard_bucket_result [OF b] mset_shard_bucket [OF b] Cons.prems(2) by simp_all
  define sh where "sh = fst (shard_for_enqueue meta q None st1)"
  define g2 where "g2 = (if rotor \<noteq> [] then omap_extend (q, p, sh) rotor g1 else g1)"
  define st2 where "st2 = (if rotor \<noteq> [] then snd (shard_for_enqueue meta q None st1) else st1)"
  have "shard_buckets meta rest (g2, st2) = (grouped', st')"
    using Cons.prems(1) by (simp add: qb b g2_def st2_def sh_def case_prod_beta split: if_splits)
  moreover have "omap_wf g2" "mset (omap_values g2) = mset (omap_values g1) + mset rotor"
    using g1(1) by (simp_all add: g2_def omap_extend_wf mset_omap_extend)
  ultimately show ?case using Cons.IH [of g2 st2] g1(2) by (simp add: qb union_ac)
qed simp

lemma group_ready_rows_mset:
  "mset (omap_values (fst (group_ready_rows_by_shard meta rows st))) = mset rows"
proof -
  obtain grouped' st' where g: "shard_buckets meta (group_by_queue_priority rows) ([], st) = (grouped', st')"
    by fastforce
  show ?thesis
    using mset_shard_buckets [OF g]
      mset_foldl_push [of "[]" "\<lambda>row. (rr_queue row, rr_priority row)" rows]
    unfolding group_ready_rows_by_shard_def g by (simp add: group_by_queue_priority_def)
qed

lemma group_ready_rows_lane:
  assumes "(l, rs) \<in> set (fst (group_ready_rows_by_shard meta rows st))" "r \<in> set rs"
  shows "rr_queue r = fst l \<and> rr_priority r = fst (snd l)"
proof -
  obtain q p t where l: "l = (q, p, t)" by (rule prod_cases3)
  obtain rot where rot: "bucket_of (fst (group_ready_rows_by_shard meta rows st)) (q, p, t) =
     filter (\<lambda>r. rr_queue r = q \<and> rr_priority r = p \<and> keyed_to (shards_in_force meta st q) t r) rows @
     (if t = rot (q, p)
      then filter (\<lambda>r. rr_queue r = q \<and> rr_priority r = p \<and> rr_ordering_key r = None) rows else [])"
    using group_ready_rows_sharded by blast
  have "map_of (fst (group_ready_rows_by_shard meta rows st)) l = Some rs"
    using assms(1) omap_wf_distinct [OF group_ready_rows_wf] by simp
  then have "bucket_of (fst (group_ready_rows_by_shard meta rows st)) (q, p, t) = rs"
    by (simp add: bucket_of_def l)
  with rot assms(2) show ?thesis by (auto simp: l split: if_splits)
qed

subsection \<open>Ids and positions\<close>

definition job_of :: "int \<Rightarrow> runtime_ready_row \<Rightarrow> runtime_ready_insert \<Rightarrow> bool" where
  "job_of shard row r \<longleftrightarrow>
    r = ready_insert (r_job_id r) shard row \<and> (rr_job_id row = None \<or> rr_job_id row = Some (r_job_id r))"

abbreviation missing_ids :: "runtime_ready_row list \<Rightarrow> nat" where
  "missing_ids rows \<equiv> length (filter (\<lambda>row. rr_job_id row = None) rows)"

lemma r_job_id_ready_insert [simp]: "r_job_id (ready_insert i shard row) = i"
  by (simp add: ready_insert_def)

lemma assign_lane_ids_ok:
  "missing_ids rows \<le> length ids \<Longrightarrow>
   \<exists>rs. assign_lane_ids shard rows ids = Inr (rs, drop (missing_ids rows) ids) \<and>
     list_all2 (job_of shard) rows rs"
proof (induction rows arbitrary: ids)
  case (Cons row rows)
  show ?case
  proof (cases "rr_job_id row")
    case None
    with Cons.prems obtain i ids' where ids: "ids = i # ids'" by (cases ids) auto
    with Cons.IH [of ids'] Cons.prems None show ?thesis by (auto simp: job_of_def)
  next
    case (Some i)
    with Cons.IH [of ids] Cons.prems show ?thesis by (auto simp: job_of_def)
  qed
qed simp

definition lane_job_of :: "lane \<times> runtime_ready_row list \<Rightarrow> lane \<times> runtime_ready_insert list \<Rightarrow> bool" where
  "lane_job_of g l \<longleftrightarrow> fst l = fst g \<and> list_all2 (job_of (snd (snd (fst g)))) (snd g) (snd l)"

lemma assign_job_ids_ok:
  "missing_ids (omap_values grouped) \<le> length ids \<Longrightarrow>
   \<exists>lanes. assign_job_ids grouped ids = Inr lanes \<and> list_all2 lane_job_of grouped lanes"
proof (induction grouped arbitrary: ids)
  case (Cons g grouped)
  obtain l lane_rows where g: "g = (l, lane_rows)" by (cases g)
  obtain rs where rs: "assign_lane_ids (snd (snd l)) lane_rows ids = Inr (rs, drop (missing_ids lane_rows) ids)"
    "list_all2 (job_of (snd (snd l))) lane_rows rs"
    using assign_lane_ids_ok [of lane_rows ids "snd (snd l)"] Cons.prems g by auto
  moreover obtain lanes where "assign_job_ids grouped (drop (missing_ids lane_rows) ids) = Inr lanes"
    "list_all2 lane_job_of grouped lanes"
  proof -
    have "missing_ids (omap_values grouped) \<le> length (drop (missing_ids lane_rows) ids)"
      using Cons.prems by (simp add: g)
    from Cons.IH [OF this] that show ?thesis by blast
  qed
  moreover have "lane_job_of g (l, rs)" using rs(2) by (simp add: g lane_job_of_def)
  ultimately show ?case by (simp add: g)
qed simp

lemma list_all2_mem: "list_all2 P xs ys \<Longrightarrow> y \<in> set ys \<Longrightarrow> \<exists>x \<in> set xs. P x y"
  by (induction rule: list_all2_induct) auto

text \<open>A lane's rows, after ids are assigned, have the lane's coordinates.\<close>

definition insert_lane :: "runtime_ready_insert \<Rightarrow> lane" where
  "insert_lane r = (r_queue r, r_priority r, ri_enqueue_shard r)"

definition lanes_own :: "(lane \<times> runtime_ready_insert list) list \<Rightarrow> bool" where
  "lanes_own lanes \<longleftrightarrow> distinct (map fst lanes) \<and> (\<forall>(l, rs) \<in> set lanes. \<forall>r \<in> set rs. insert_lane r = l)"

lemma job_of_lane: "job_of shard row r \<Longrightarrow> insert_lane r = (rr_queue row, rr_priority row, shard)"
  by (metis insert_lane_def job_of_def ready_insert_def existing_ready_row.select_convs
      runtime_ready_insert.select_convs(2))

lemma lane_jobs_fst: "list_all2 lane_job_of grouped lanes \<Longrightarrow> map fst lanes = map fst grouped"
  by (induction rule: list_all2_induct) (auto simp: lane_job_of_def)

lemma lane_jobs_lengths:
  "list_all2 lane_job_of grouped lanes \<Longrightarrow>
     length (concat (map snd lanes)) = length (omap_values grouped)"
  by (induction rule: list_all2_induct) (auto simp: lane_job_of_def dest: list_all2_lengthD)

lemma grouped_lanes_own:
  assumes "list_all2 lane_job_of (fst (group_ready_rows_by_shard meta rows st)) lanes"
  shows "lanes_own lanes"
proof -
  have "insert_lane r = l" if mem: "(l, rs) \<in> set lanes" "r \<in> set rs" for l rs r
  proof -
    obtain g where g: "g \<in> set (fst (group_ready_rows_by_shard meta rows st))" "lane_job_of g (l, rs)"
      using list_all2_mem [OF assms mem(1)] by blast
    then have l: "l = fst g" and jobs: "list_all2 (job_of (snd (snd (fst g)))) (snd g) rs"
      by (simp_all add: lane_job_of_def)
    obtain row where row: "row \<in> set (snd g)" "job_of (snd (snd (fst g))) row r"
      using list_all2_mem [OF jobs mem(2)] by blast
    show ?thesis
      using group_ready_rows_lane [of "fst g" "snd g" meta rows st row] g(1) row(1) job_of_lane [OF row(2)]
      by (simp add: l)
  qed
  then show ?thesis
    using lane_jobs_fst [OF assms] omap_wf_distinct [OF group_ready_rows_wf]
    by (auto simp: lanes_own_def)
qed

text \<open>
  Where a lane continues, and the part of the store that positioning rows may change.
\<close>

definition lane_start :: "store \<Rightarrow> lane \<Rightarrow> int" where
  "lane_start s l = (case s_heads s l of None \<Rightarrow> 1 | Some n \<Rightarrow> n)"

definition lane_core :: "store \<Rightarrow> store" where
  "lane_core s =
    s\<lparr>s_lanes := {}, s_heads := Map.empty, s_claim_heads := Map.empty, s_ensured := {},
      s_local := \<lparr> sl_shard_rotor = 0, sl_next_stripe_probe = 0, sl_enqueue_shards_cache = Map.empty \<rparr>\<rparr>"

definition lane_frame :: "store \<Rightarrow> store \<Rightarrow> bool" where
  "lane_frame s s' \<longleftrightarrow> lane_core s' = lane_core s"

interpretation lane_rel: tx_relation lane_frame
  by unfold_locales (auto simp: lane_frame_def)

lemma lane_frame_fields:
  assumes "lane_frame s s'"
  shows "s_ready s' = s_ready s" "s_claims s' = s_claims s" "s_deferred s' = s_deferred s"
    "s_next_job_id s' = s_next_job_id s" "s_authority s' = s_authority s" "s_queue_ring s' = s_queue_ring s"
    "s_segments s' = s_segments s" "s_config s' = s_config s" "s_notified s' = s_notified s"
    "s_done s' = s_done s" "s_dlq s' = s_dlq s" "s_leases s' = s_leases s"
  using assms [unfolded lane_frame_def, THEN arg_cong [of _ _ s_ready]]
    assms [unfolded lane_frame_def, THEN arg_cong [of _ _ s_claims]]
    assms [unfolded lane_frame_def, THEN arg_cong [of _ _ s_deferred]]
    assms [unfolded lane_frame_def, THEN arg_cong [of _ _ s_next_job_id]]
    assms [unfolded lane_frame_def, THEN arg_cong [of _ _ s_authority]]
    assms [unfolded lane_frame_def, THEN arg_cong [of _ _ s_queue_ring]]
    assms [unfolded lane_frame_def, THEN arg_cong [of _ _ s_segments]]
    assms [unfolded lane_frame_def, THEN arg_cong [of _ _ s_config]]
    assms [unfolded lane_frame_def, THEN arg_cong [of _ _ s_notified]]
    assms [unfolded lane_frame_def, THEN arg_cong [of _ _ s_done]]
    assms [unfolded lane_frame_def, THEN arg_cong [of _ _ s_dlq]]
    assms [unfolded lane_frame_def, THEN arg_cong [of _ _ s_leases]]
  by (simp_all add: lane_core_def)

lemma ensure_lane_result:
  "\<exists>s'. ensure_lane l s = (Inr (), s') \<and> lane_frame s s' \<and> s_heads s' = (s_heads s)(l \<mapsto> lane_start s l)"
proof -
  have ins: "\<exists>s'. ensure_lane_inserts l t = (Inr (), s') \<and> lane_frame t s' \<and>
      s_heads s' = (s_heads t)(l \<mapsto> lane_start t l)" for t
    by (auto simp: ensure_lane_inserts_def tx_simps mark_lane_ensured_def lane_frame_def lane_core_def
        ensure_row_def lane_start_def fun_upd_idem)
  have inv: "lane_frame s (invalidate_cached_lane l s)" "s_heads (invalidate_cached_lane l s) = s_heads s"
    "lane_start (invalidate_cached_lane l s) l = lane_start s l"
    by (simp_all add: invalidate_cached_lane_def lane_frame_def lane_core_def lane_start_def)
  show ?thesis
  proof (cases "lane_is_cached l s \<and> s_heads s l \<noteq> None")
    case True
    then show ?thesis
      by (auto simp: ensure_lane_def tx_simps lane_frame_def lane_start_def fun_upd_idem)
  next
    case False
    then show ?thesis
      using ins [of s] ins [of "invalidate_cached_lane l s"] inv lane_rel.trans [OF inv(1)]
      by (auto simp: ensure_lane_def tx_simps)
  qed
qed

lemma position_lane_result:
  "\<exists>s'. position_lane (l, rs) s = (Inr (number_from (lane_start s l) rs), s') \<and> lane_frame s s' \<and>
     s_heads s' = (s_heads s)(l \<mapsto> lane_start s l + int (length rs))"
proof -
  obtain s1 where s1: "ensure_lane l s = (Inr (), s1)" "lane_frame s s1"
    "s_heads s1 = (s_heads s)(l \<mapsto> lane_start s l)"
    using ensure_lane_result by blast
  define s2 where "s2 = s1\<lparr>s_heads := (s_heads s1)(l \<mapsto> lane_start s l + int (length rs))\<rparr>"
  have "lane_frame s1 s2" by (simp add: s2_def lane_frame_def lane_core_def)
  moreover have "advance_enqueue_head l (int (length rs)) s1 = (Inr (lane_start s l), s2)"
    by (simp add: advance_enqueue_head_def tx_bind_def reserve_enqueue_seq_def s1(3) tx_simps s2_def fun_upd_idem)
  ultimately show ?thesis
    using s1 lane_rel.trans [OF s1(2)]
    by (auto simp: position_lane_def tx_simps s2_def)
qed

lemma position_lanes_result:
  "distinct (map fst lanes) \<Longrightarrow>
   \<exists>s'. tx_for position_lane lanes s =
       (Inr (map (\<lambda>lr. number_from (lane_start s (fst lr)) (snd lr)) lanes), s') \<and> lane_frame s s' \<and>
     s_heads s' = (\<lambda>l. case map_of lanes l of None \<Rightarrow> s_heads s l
                         | Some rs \<Rightarrow> Some (lane_start s l + int (length rs)))"
proof (induction lanes arbitrary: s)
  case Nil
  then show ?case by (simp add: tx_simps lane_rel.refl)
next
  case (Cons lr lanes)
  obtain l rs where lr: "lr = (l, rs)" by (cases lr)
  obtain s1 where s1: "position_lane (l, rs) s = (Inr (number_from (lane_start s l) rs), s1)"
    "lane_frame s s1" "s_heads s1 = (s_heads s)(l \<mapsto> lane_start s l + int (length rs))"
    using position_lane_result by blast
  obtain s2 where s2: "tx_for position_lane lanes s1 =
       (Inr (map (\<lambda>lr. number_from (lane_start s1 (fst lr)) (snd lr)) lanes), s2)" "lane_frame s1 s2"
    "s_heads s2 = (\<lambda>l. case map_of lanes l of None \<Rightarrow> s_heads s1 l
                         | Some rs \<Rightarrow> Some (lane_start s1 l + int (length rs)))"
    using Cons.IH [of s1] Cons.prems by auto
  have start: "lane_start s1 l' = lane_start s l'" if "l' \<noteq> l" for l'
    using that by (simp add: lane_start_def s1(3))
  have same: "map (\<lambda>lr. number_from (lane_start s1 (fst lr)) (snd lr)) lanes =
      map (\<lambda>lr. number_from (lane_start s (fst lr)) (snd lr)) lanes"
    using Cons.prems start by (intro map_cong refl) (metis fst_conv image_eqI distinct.simps(2) list.simps(9) list.set_map lr)
  have "map_of lanes l = None" using Cons.prems by (simp add: lr map_of_eq_None_iff)
  then have "s_heads s2 = (\<lambda>l'. case map_of (lr # lanes) l' of None \<Rightarrow> s_heads s l'
      | Some rs \<Rightarrow> Some (lane_start s l' + int (length rs)))"
    by (auto simp: s2(3) s1(3) lr start fun_eq_iff split: option.split)
  then show ?case
    using s1(1) s2(1) lane_rel.trans [OF s1(2) s2(2)] by (simp add: lr tx_simps same)
qed

subsection \<open>Positions are fresh\<close>

text \<open>
  The invariant of the ready table: no two rows share a position of a lane, whatever their partition, and
  every row lies below the head of its lane.  With it go the freshness of job ids and a readable ring.
\<close>

definition row_lane :: "ready_transition_row \<Rightarrow> lane" where
  "row_lane r = (r_queue r, r_priority r, rt_enqueue_shard r)"

definition ready_pos :: "ready_transition_row \<Rightarrow> lane \<times> int" where
  "ready_pos r = (row_lane r, rt_lane_seq r)"

definition insert_pos :: "runtime_ready_insert \<Rightarrow> lane \<times> int" where
  "insert_pos r = (insert_lane r, ri_lane_seq r)"

definition lanes_wf :: "store \<Rightarrow> bool" where
  "lanes_wf s \<longleftrightarrow>
    distinct (map ready_pos (s_ready s)) \<and>
    list_all (\<lambda>r. s_heads s (row_lane r) \<noteq> None \<and> rt_lane_seq r < lane_start s (row_lane r)) (s_ready s)"

definition store_wf :: "store \<Rightarrow> bool" where
  "store_wf s \<longleftrightarrow>
    lanes_wf s \<and> ring_wf (s_authority s) (s_queue_ring s) \<and>
    distinct (map r_job_id (s_deferred s)) \<and>
    list_all (\<lambda>r. r_job_id r < s_next_job_id s) (s_deferred s)"

lemma ready_pos_entry [simp]: "ready_pos (ready_entry ring r) = insert_pos r"
  by (simp add: ready_pos_def row_lane_def ready_entry_def insert_pos_def insert_lane_def row_defs
      existing_ready_row.defs ready_transition_row.defs)

lemma ready_key_pos: "ready_pos r = (\<lambda>(slot, q, p, sh, seq). ((q, p, sh), seq)) (ready_key r)"
  by (simp add: ready_key_def ready_pos_def row_lane_def)

lemma length_number_from [simp]: "length (number_from h rs) = length rs"
  by (simp add: number_from_def)

lemma number_from_pos:
  "\<forall>r \<in> set rs. insert_lane r = l \<Longrightarrow>
     map insert_pos (number_from h rs) = map (\<lambda>i. (l, h + int i)) [0..<length rs]"
  by (rule nth_equalityI) (auto simp: number_from_def nth_enumerate_eq insert_pos_def insert_lane_def)

abbreviation positioned :: "store \<Rightarrow> (lane \<times> runtime_ready_insert list) list \<Rightarrow> runtime_ready_insert list" where
  "positioned s lanes \<equiv> concat (map (\<lambda>lr. number_from (lane_start s (fst lr)) (snd lr)) lanes)"

lemma positioned_pos:
  "lanes_own lanes \<Longrightarrow> map insert_pos (positioned s lanes) =
     concat (map (\<lambda>(l, rs). map (\<lambda>i. (l, lane_start s l + int i)) [0..<length rs]) lanes)"
proof (induction lanes)
  case (Cons lr lanes)
  then show ?case using number_from_pos [of "snd lr" "fst lr" "lane_start s (fst lr)"]
    by (auto simp: lanes_own_def case_prod_beta)
qed simp

lemma positioned_distinct:
  "lanes_own lanes \<Longrightarrow> distinct (map insert_pos (positioned s lanes))"
proof -
  have "distinct (map fst lanes) \<Longrightarrow>
      distinct (concat (map (\<lambda>(l, rs). map (\<lambda>i. (l, lane_start s l + int i)) [0..<length rs]) lanes))"
    by (induction lanes) (auto simp: distinct_map inj_on_def rev_image_eqI)
  then show "distinct (map insert_pos (positioned s lanes))" if "lanes_own lanes"
    unfolding positioned_pos [OF that] using that by (simp add: lanes_own_def)
qed

lemma positioned_range:
  assumes "lanes_own lanes" "(l, n) \<in> set (map insert_pos (positioned s lanes))"
  shows "\<exists>rs. map_of lanes l = Some rs \<and> lane_start s l \<le> n \<and> n < lane_start s l + int (length rs)"
  using assms unfolding positioned_pos [OF assms(1)] by (fastforce simp: lanes_own_def)

lemma distinct_map_via: "distinct (map (\<lambda>x. f (g x)) xs) \<Longrightarrow> distinct (map g xs)"
  by (induction xs) auto

text \<open>The insert of positioned rows meets no key conflict and keeps the invariant.\<close>

lemma insert_positioned:
  assumes own: "lanes_own lanes" and wf: "lanes_wf s" and frame: "lane_frame s s1"
    and heads: "s_heads s1 = (\<lambda>l. case map_of lanes l of None \<Rightarrow> s_heads s l
                         | Some rs \<Rightarrow> Some (lane_start s l + int (length rs)))"
  defines "rows \<equiv> positioned s lanes"
  shows "execute_ready_inserts_tx ring rows s1 =
      (Inr (length rows), s1\<lparr>s_ready := s_ready s @ map (ready_entry ring) rows\<rparr>)"
    and "lanes_wf (s1\<lparr>s_ready := s_ready s @ map (ready_entry ring) rows\<rparr>)"
proof -
  let ?entries = "map (ready_entry ring) rows"
  have pos: "map ready_pos ?entries = map insert_pos rows" by simp
  have ready: "s_ready s1 = s_ready s" by (rule lane_frame_fields [OF frame])
  have dist: "distinct (map insert_pos rows)" unfolding rows_def by (rule positioned_distinct [OF own])
  have fresh: "x \<notin> set (map ready_pos (s_ready s))" if "x \<in> set (map insert_pos rows)" for x
  proof
    obtain l n where x: "x = (l, n)" by (cases x)
    assume "x \<in> set (map ready_pos (s_ready s))"
    then have "n < lane_start s l" using wf by (auto simp: x lanes_wf_def ready_pos_def list_all_iff)
    moreover have "lane_start s l \<le> n"
      using positioned_range [OF own, of l n s] that unfolding rows_def x by blast
    ultimately show False by simp
  qed
  have "distinct (map ready_key ?entries)"
    using dist distinct_map_via [of "\<lambda>(slot, q, p, sh, seq). ((q, p, sh), seq)" ready_key ?entries]
    unfolding ready_key_pos [symmetric] pos by simp
  moreover have "k \<notin> set (map ready_key (s_ready s))" if "k \<in> set (map ready_key ?entries)" for k
    using that fresh [of "(\<lambda>(slot, q, p, sh, seq). ((q, p, sh), seq)) k"] pos
    by (smt (verit) imageE image_eqI list.set_map ready_key_pos)
  ultimately show "execute_ready_inserts_tx ring rows s1 =
      (Inr (length rows), s1\<lparr>s_ready := s_ready s @ ?entries\<rparr>)"
    unfolding execute_ready_inserts_tx_def Let_def list_all_iff
    by (cases "rows = []") (simp_all add: ready del: map_map set_map)
  have start: "s_heads s1 l \<noteq> None \<and> lane_start s1 l \<ge> lane_start s l" if "s_heads s l \<noteq> None" for l
    using that by (auto simp: heads lane_start_def split: option.split)
  have new: "s_heads s1 (row_lane e) \<noteq> None \<and> rt_lane_seq e < lane_start s1 (row_lane e)" if "e \<in> set ?entries" for e
  proof -
    have "(row_lane e, rt_lane_seq e) \<in> set (map insert_pos rows)"
      using that by (metis pos ready_pos_def image_eqI list.set_map)
    then obtain rs where "map_of lanes (row_lane e) = Some rs"
      "rt_lane_seq e < lane_start s (row_lane e) + int (length rs)"
      using positioned_range [OF own, of "row_lane e" "rt_lane_seq e" s] unfolding rows_def by blast
    then show ?thesis by (simp add: heads lane_start_def [of s1])
  qed
  have "lane_start (s1\<lparr>s_ready := s_ready s @ ?entries\<rparr>) = lane_start s1" by (simp add: lane_start_def fun_eq_iff)
  moreover have "distinct (map ready_pos (s_ready s @ ?entries))"
    unfolding map_append pos distinct_append using wf dist fresh by (auto simp only: lanes_wf_def)
  moreover have "s_heads s1 (row_lane e) \<noteq> None \<and> rt_lane_seq e < lane_start s1 (row_lane e)"
    if "e \<in> set (s_ready s)" for e
    using that wf start [of "row_lane e"] unfolding lanes_wf_def list_all_iff by (blast intro: order_less_le_trans)
  ultimately show "lanes_wf (s1\<lparr>s_ready := s_ready s @ ?entries\<rparr>)"
    using new by (simp add: lanes_wf_def list_all_iff ball_Un del: map_map map_append set_map)
qed

subsection \<open>Claims of unique keys\<close>

definition claims_free :: "store \<Rightarrow> (bytes \<times> job_id) list \<Rightarrow> bool" where
  "claims_free s claims \<longleftrightarrow>
    distinct (map fst claims) \<and> list_all (\<lambda>(k, j). s_claims s k = None \<or> s_claims s k = Some j) claims"

lemma acquire_claims_result:
  "distinct (map fst xs) \<Longrightarrow>
   \<exists>s'. tx_for (\<lambda>(key, job_id). acquire_claim key job_id) xs s =
       (Inr (map (\<lambda>(k, j). s_claims s k = None \<or> s_claims s k = Some j) xs), s') \<and>
     s' = s\<lparr>s_claims := map_of xs ++ s_claims s\<rparr>"
proof (induction xs arbitrary: s)
  case Nil
  then show ?case by (simp add: tx_simps)
next
  case (Cons kj xs)
  obtain k j where kj: "kj = (k, j)" by (cases kj)
  define s1 where "s1 = (case s_claims s k of None \<Rightarrow> s\<lparr>s_claims := (s_claims s)(k \<mapsto> j)\<rparr> | Some _ \<Rightarrow> s)"
  have acq: "acquire_claim k j s = (Inr (s_claims s k = None \<or> s_claims s k = Some j), s1)"
    by (simp add: acquire_claim_def s1_def split: option.split)
  have other: "k' \<noteq> k \<Longrightarrow> s_claims s1 k' = s_claims s k'" for k'
    by (simp add: s1_def split: option.split)
  have same: "map (\<lambda>(k, j). s_claims s1 k = None \<or> s_claims s1 k = Some j) xs =
      map (\<lambda>(k, j). s_claims s k = None \<or> s_claims s k = Some j) xs"
  proof (intro map_cong refl)
    fix x assume "x \<in> set xs"
    then have "fst x \<noteq> k" using Cons.prems by (auto simp: kj)
    from other [OF this] show "(\<lambda>(k, j). s_claims s1 k = None \<or> s_claims s1 k = Some j) x =
        (\<lambda>(k, j). s_claims s k = None \<or> s_claims s k = Some j) x"
      by (simp add: case_prod_beta)
  qed
  have "map_of xs ++ s_claims s1 = map_of (kj # xs) ++ s_claims s"
    by (auto simp: fun_eq_iff s1_def kj map_add_def split: option.split)
  moreover have "s1\<lparr>s_claims := c\<rparr> = s\<lparr>s_claims := c\<rparr>" for c
    by (simp add: s1_def split: option.split)
  ultimately show ?case
    using Cons.IH [of s1] Cons.prems acq by (simp add: kj tx_simps same fun_upd_def)
qed

lemma map_of_eqI_distinct:
  "distinct (map fst xs) \<Longrightarrow> distinct (map fst ys) \<Longrightarrow> set xs = set ys \<Longrightarrow> map_of xs = map_of ys"
  by (metis map_of_inject_set)

lemma map_of_sort_key: "distinct (map fst xs) \<Longrightarrow> map_of (sort_key f xs) = map_of xs"
  by (rule map_of_eqI_distinct) (simp_all add: distinct_map)

lemma filter_length_all: "length (filter P xs) = length xs \<longleftrightarrow> (\<forall>x \<in> set xs. P x)"
  by (metis filter_True length_filter_less less_irrefl)

lemma sync_enqueue_result:
  "sync_enqueue_unique_claims claims s =
    (if claims_free s claims
     then (Inr (), s\<lparr>s_claims := s_claims s ++ map_of claims\<rparr>)
     else (Inl unique_conflict, snd (sync_enqueue_unique_claims claims s)))"
proof (cases "claims = [] \<or> \<not> distinct (map fst claims)")
  case True
  then show ?thesis
    by (auto simp: sync_enqueue_unique_claims_def claims_free_def tx_simps)
next
  case False
  let ?ok = "\<lambda>(k, j). s_claims s k = None \<or> s_claims s k = Some j"
  have d: "distinct (map fst (sort_key fst claims))" using False
    by (metis distinct_map distinct_sort set_sort)
  have run: "sync_enqueue_unique_claims claims s =
      (if length (filter ?ok (sort_key fst claims)) \<noteq> length claims then
         (Inl unique_conflict, s\<lparr>s_claims := map_of claims ++ s_claims s\<rparr>)
       else (Inr (), s\<lparr>s_claims := map_of claims ++ s_claims s\<rparr>))"
    using False acquire_claims_result [OF d, of s] map_of_sort_key [of claims fst]
    by (auto simp: sync_enqueue_unique_claims_def tx_simps filter_map o_def)
  have all: "length (filter ?ok (sort_key fst claims)) = length claims \<longleftrightarrow> claims_free s claims"
    using False filter_length_all [of ?ok "sort_key fst claims"] by (simp add: claims_free_def list_all_iff)
  have "(map_of claims ++ s_claims s) k = (s_claims s ++ map_of claims) k"
    if "claims_free s claims" for k
    using that by (auto simp: claims_free_def list_all_iff map_add_def split: option.split dest: map_of_SomeD)
  then have "claims_free s claims \<Longrightarrow> map_of claims ++ s_claims s = s_claims s ++ map_of claims" by blast
  then show ?thesis unfolding run using all by auto
qed

lemma claims_free_Nil [simp]: "claims_free s []"
  by (simp add: claims_free_def)

text \<open>
  C25: the claim of a unique key follows the state of the job.  A transition fails, with the unique
  conflict, exactly when the new state claims the key, the old one did not, and another job holds it;
  claims of other jobs never change; and a job that held its key exactly when its state claimed it does so
  after the transition.
\<close>

theorem sync_unique_claim_follows_state:
  assumes run: "sync_unique_claim j (Some k) us old new s = (r, s')"
  shows "r = (if state_claims us new \<and> \<not> state_claims us old \<and> s_claims s k \<noteq> None \<and> s_claims s k \<noteq> Some j
              then Inl unique_conflict else Inr ()) \<and>
    s' = s\<lparr>s_claims := (s_claims s)(k := s_claims s' k)\<rparr> \<and>
    (\<forall>k' j'. j' \<noteq> j \<longrightarrow> (s_claims s' k' = Some j' \<longleftrightarrow> s_claims s k' = Some j')) \<and>
    ((s_claims s k = Some j \<longleftrightarrow> state_claims us old) \<and> r = Inr () \<longrightarrow> (s_claims s' k = Some j \<longleftrightarrow> state_claims us new))"
  using run
  by (auto simp: sync_unique_claim_def Let_def release_claim_def acquire_claim_def tx_bind_def tx_simps
      fun_upd_idem split: if_splits option.splits)

subsection \<open>What an enqueue writes\<close>

lemma execute_ready_copy_eq: "execute_ready_copy_tx ring rows s = execute_ready_inserts_tx ring rows s"
  by (simp add: execute_ready_copy_tx_def copy_ready_rows_def execute_ready_inserts_tx_def tx_simps)

abbreviation insert_claims :: "runtime_ready_insert list \<Rightarrow> (bytes \<times> job_id) list" where
  "insert_claims rows \<equiv>
    concat (map (\<lambda>row. enqueue_claim (r_unique_states row) Available (r_unique_key row) (r_job_id row)) rows)"

text \<open>
  \<open>ready_inserted s lanes claims s'\<close>: \<open>s'\<close> is \<open>s\<close> with the rows of \<open>lanes\<close> appended at the heads of their
  lanes, in the open partition, and with the claims taken.
\<close>

definition ready_inserted ::
  "store \<Rightarrow> (lane \<times> runtime_ready_insert list) list \<Rightarrow> (bytes \<times> job_id) list \<Rightarrow> store \<Rightarrow> bool" where
  "ready_inserted s lanes claims s' \<longleftrightarrow>
    (\<exists>ring. ring_cursor (s_authority s) (s_queue_ring s) = Inr ring \<and>
       s_ready s' = s_ready s @ map (ready_entry ring) (positioned s lanes)) \<and>
    lanes_wf s' \<and> s_claims s' = s_claims s ++ map_of claims \<and>
    s_heads s' = (\<lambda>l. case map_of lanes l of None \<Rightarrow> s_heads s l
                         | Some rs \<Rightarrow> Some (lane_start s l + int (length rs))) \<and>
    s_deferred s' = s_deferred s \<and> s_done s' = s_done s \<and> s_dlq s' = s_dlq s \<and>
    s_authority s' = s_authority s \<and> s_queue_ring s' = s_queue_ring s \<and> s_config s' = s_config s \<and>
    s_next_job_id s \<le> s_next_job_id s'"

lemma lanes_wf_cong:
  "s_ready s' = s_ready s \<Longrightarrow> s_heads s' = s_heads s \<Longrightarrow> lanes_wf s' = lanes_wf s"
  by (simp add: lanes_wf_def lane_start_def)

lemma insert_segments_result:
  "\<exists>n segs. insert_ready_segments_tx ring rows s = (Inr n, s\<lparr>s_segments := segs\<rparr>)"
proof (cases "ready_segments_from_rows rows = []")
  case True
  then have "insert_ready_segments_tx ring rows s = (Inr 0, s\<lparr>s_segments := s_segments s\<rparr>)"
    by (simp add: insert_ready_segments_tx_def tx_simps)
  then show ?thesis by blast
qed (auto simp: insert_ready_segments_tx_def tx_simps Let_def)

lemma insert_positioned_rows:
  assumes own: "lanes_own lanes" and wf: "lanes_wf s"
    and ring: "ring_cursor (s_authority s) (s_queue_ring s) = Inr ring"
  shows "\<exists>s'. tx_bind (tx_for position_lane lanes) (\<lambda>positioned.
       tx_bind current_queue_ring (\<lambda>ring.
       tx_bind (execute_ready_inserts_tx ring (concat positioned)) (\<lambda>_.
       tx_bind (insert_ready_segments_tx ring (concat positioned)) (\<lambda>_. tx_ret n)))) s = (Inr n, s') \<and>
     ready_inserted s lanes [] s' \<and> s_next_job_id s' = s_next_job_id s \<and> s_notified s' = s_notified s"
proof -
  have d: "distinct (map fst lanes)" using own by (simp add: lanes_own_def)
  obtain s1 where s1: "tx_for position_lane lanes s =
       (Inr (map (\<lambda>lr. number_from (lane_start s (fst lr)) (snd lr)) lanes), s1)" "lane_frame s s1"
    "s_heads s1 = (\<lambda>l. case map_of lanes l of None \<Rightarrow> s_heads s l
                         | Some rs \<Rightarrow> Some (lane_start s l + int (length rs)))"
    using position_lanes_result [OF d] by blast
  note f = lane_frame_fields [OF s1(2)]
  have cur: "current_queue_ring s1 = (Inr ring, s1)" by (simp add: current_queue_ring_def f ring)
  define s2 where "s2 = s1\<lparr>s_ready := s_ready s @ map (ready_entry ring) (positioned s lanes)\<rparr>"
  have ex: "execute_ready_inserts_tx ring (positioned s lanes) s1 = (Inr (length (positioned s lanes)), s2)"
    and wf2: "lanes_wf s2"
    unfolding s2_def by (rule insert_positioned [OF own wf s1(2,3)])+
  obtain m segs where seg: "insert_ready_segments_tx ring (positioned s lanes) s2 = (Inr m, s2\<lparr>s_segments := segs\<rparr>)"
    using insert_segments_result by blast
  have "lanes_wf (s2\<lparr>s_segments := segs\<rparr>)" using wf2 lanes_wf_cong [of "s2\<lparr>s_segments := segs\<rparr>" s2] by simp
  then have "ready_inserted s lanes [] (s2\<lparr>s_segments := segs\<rparr>)"
    using ring by (simp add: ready_inserted_def s2_def f s1(3))
  then show ?thesis using s1(1) cur ex seg by (simp add: tx_simps s2_def f)
qed

lemma insert_ready_rows_result:
  assumes wf: "lanes_wf s" "ring_wf (s_authority s) (s_queue_ring s)" and ne: "rows \<noteq> []"
  defines "grouped \<equiv> fst (group_ready_rows_by_shard (s_queue_meta s) rows (s_local s))"
  shows "\<exists>lanes. list_all2 lane_job_of grouped lanes \<and>
    (let claims = (if synced then [] else insert_claims (concat (map snd lanes))) in
     if claims_free s claims
     then \<exists>s'. insert_ready_rows_tx rows synced s = (Inr (length rows), s') \<and>
            ready_inserted s lanes claims s' \<and>
            s_next_job_id s' = s_next_job_id s + int (missing_ids rows) \<and> s_notified s' = s_notified s
     else \<exists>s'. insert_ready_rows_tx rows synced s = (Inl unique_conflict, s'))"
proof -
  define st where "st = snd (group_ready_rows_by_shard (s_queue_meta s) rows (s_local s))"
  define s1 where "s1 = s\<lparr>s_local := st\<rparr>"
  have grp: "group_rows_tx rows s = (Inr grouped, s1)"
    by (simp add: group_rows_tx_def grouped_def s1_def st_def case_prod_beta)
  have m: "mset (omap_values grouped) = mset rows" by (simp add: grouped_def group_ready_rows_mset)
  then have len: "length (omap_values grouped) = length rows" by (rule mset_eq_length)
  have miss: "missing_ids (omap_values grouped) = missing_ids rows"
    by (metis m mset_filter size_mset)
  define s2 where "s2 = s1\<lparr>s_next_job_id := s_next_job_id s + int (missing_ids rows)\<rparr>"
  define ids where "ids = map (\<lambda>i. s_next_job_id s + int i) [0..<missing_ids rows]"
  have ids: "next_job_ids (missing_ids rows) s1 = (Inr ids, s2)"
    by (simp add: next_job_ids_def ids_def s2_def s1_def)
  obtain lanes where lanes: "assign_job_ids grouped ids = Inr lanes" "list_all2 lane_job_of grouped lanes"
    using assign_job_ids_ok [of grouped ids] by (auto simp: miss ids_def)
  define claims where "claims = (if synced then [] else insert_claims (concat (map snd lanes)))"
  have sync: "(if \<not> synced then sync_ready_enqueue_unique_claims (concat (map snd lanes)) else tx_ret ()) s2 =
      sync_enqueue_unique_claims claims s2"
    by (simp add: claims_def sync_ready_enqueue_unique_claims_def sync_enqueue_unique_claims_def tx_simps)
  have free: "claims_free s2 claims = claims_free s claims" by (simp add: claims_free_def s2_def s1_def)
  show ?thesis
  proof (cases "claims_free s claims")
    case False
    then have "insert_ready_rows_tx rows synced s =
        (Inl unique_conflict, snd (sync_enqueue_unique_claims claims s2))"
      using ne sync_enqueue_result [of claims s2]
      by (simp add: insert_ready_rows_tx_def insert_ready_rows_with_def tx_simps grp miss ids lanes sync free)
    with False lanes(2) show ?thesis by (intro exI [of _ lanes]) (simp add: Let_def claims_def [symmetric])
  next
    case True
    define s3 where "s3 = s2\<lparr>s_claims := s_claims s ++ map_of claims\<rparr>"
    have run3: "sync_enqueue_unique_claims claims s2 = (Inr (), s3)"
      using sync_enqueue_result [of claims s2] True by (simp add: free s3_def) (simp add: s2_def s1_def)
    have eq3: "s_ready s3 = s_ready s" "s_heads s3 = s_heads s" "s_authority s3 = s_authority s"
      "s_queue_ring s3 = s_queue_ring s" "s_notified s3 = s_notified s" "s_deferred s3 = s_deferred s"
      "s_done s3 = s_done s" "s_dlq s3 = s_dlq s" "s_config s3 = s_config s"
      "s_next_job_id s3 = s_next_job_id s + int (missing_ids rows)"
      "s_claims s3 = s_claims s ++ map_of claims"
      by (simp_all add: s3_def s2_def s1_def)
    have start3: "lane_start s3 = lane_start s" by (simp add: lane_start_def fun_eq_iff eq3)
    obtain ring where ring: "ring_cursor (s_authority s) (s_queue_ring s) = Inr ring"
      using auth_ring.cursor_read [OF wf(2)] by blast
    have "lanes_own lanes" using grouped_lanes_own lanes(2) unfolding grouped_def by blast
    moreover have "lanes_wf s3" using wf(1) lanes_wf_cong [OF eq3(1,2)] by simp
    ultimately obtain s' where s': "tx_bind (tx_for position_lane lanes) (\<lambda>positioned.
       tx_bind current_queue_ring (\<lambda>ring.
       tx_bind (execute_ready_inserts_tx ring (concat positioned)) (\<lambda>_.
       tx_bind (insert_ready_segments_tx ring (concat positioned)) (\<lambda>_. tx_ret (length rows))))) s3 =
         (Inr (length rows), s')" "ready_inserted s3 lanes [] s'" "s_next_job_id s' = s_next_job_id s3"
       "s_notified s' = s_notified s3"
      using insert_positioned_rows [of lanes s3 ring "length rows"] ring by (auto simp: eq3)
    have "ready_inserted s lanes claims s'"
      using s'(2) unfolding ready_inserted_def eq3 start3 by auto
    moreover have "insert_ready_rows_tx rows synced s = (Inr (length rows), s')"
      using ne s'(1)
      by (simp add: insert_ready_rows_tx_def insert_ready_rows_with_def tx_simps grp miss ids lanes sync run3 len)
    ultimately show ?thesis
      using True lanes(2) s'(3,4) by (intro exI [of _ lanes]) (simp add: Let_def claims_def [symmetric] eq3)
  qed
qed

subsection \<open>Heads and ids only grow\<close>

text \<open>
  Whatever a transaction of the write path does, and wherever it stops, heads of lanes and the id
  sequence do not move back; this is what makes a rolled-back store well formed.
\<close>

definition seq_le :: "int option \<Rightarrow> int option \<Rightarrow> bool" where
  "seq_le a b \<longleftrightarrow> (case a of None \<Rightarrow> True | Some n \<Rightarrow> (case b of None \<Rightarrow> False | Some n' \<Rightarrow> n \<le> n'))"

lemma seq_le_refl [simp]: "seq_le a a"
  by (simp add: seq_le_def split: option.split)

lemma seq_le_trans: "seq_le a b \<Longrightarrow> seq_le b c \<Longrightarrow> seq_le a c"
  by (auto simp: seq_le_def split: option.splits)

definition heads_le :: "(lane \<rightharpoonup> int) \<Rightarrow> (lane \<rightharpoonup> int) \<Rightarrow> bool" where
  "heads_le m m' \<longleftrightarrow> (\<forall>l. seq_le (m l) (m' l))"

lemma heads_le_refl [simp]: "heads_le m m"
  by (simp add: heads_le_def)

lemma heads_le_trans: "heads_le a b \<Longrightarrow> heads_le b c \<Longrightarrow> heads_le a c"
  unfolding heads_le_def by (blast intro: seq_le_trans)

lemma heads_le_upd: "seq_le (m l) (Some n) \<Longrightarrow> heads_le m (m(l \<mapsto> n))"
  by (simp add: heads_le_def del: split_paired_All)

definition grows :: "store \<Rightarrow> store \<Rightarrow> bool" where
  "grows s s' \<longleftrightarrow>
    heads_le (s_heads s) (s_heads s') \<and> s_next_job_id s \<le> s_next_job_id s' \<and>
    s_authority s' = s_authority s \<and> s_queue_ring s' = s_queue_ring s"

interpretation grow: tx_relation grows
  by unfold_locales (auto simp: grows_def intro: heads_le_trans)

lemma grows_same_heads:
  "s_heads s' = s_heads s \<Longrightarrow> s_next_job_id s' = s_next_job_id s \<Longrightarrow> s_authority s' = s_authority s \<Longrightarrow>
   s_queue_ring s' = s_queue_ring s \<Longrightarrow> grows s s'"
  by (simp add: grows_def)

lemmas grow_intros = grow.keeps_basic grow.keeps_bind grow.keeps_for grow.keeps_option

lemma acquire_grows: "tx_keeps grows (acquire_claim k j)"
  by (auto simp: tx_keeps_def acquire_claim_def grows_def split: option.split)

lemma sync_unique_claim_grows: "tx_keeps grows (sync_unique_claim j k us old new)"
  unfolding sync_unique_claim_def Let_def release_claim_def
  by (auto intro!: grow_intros acquire_grows grow.keeps_set split: option.split simp: grows_def)

lemma sync_enqueue_grows: "tx_keeps grows (sync_enqueue_unique_claims claims)"
  unfolding sync_enqueue_unique_claims_def
  by (auto intro!: grow_intros acquire_grows simp: case_prod_beta)

lemma sync_rows_grows: "tx_keeps grows (sync_rows f old rows)"
  unfolding sync_rows_def by (intro grow_intros sync_unique_claim_grows)

lemma ensure_lane_inserts_grows: "tx_keeps grows (ensure_lane_inserts l)"
  unfolding ensure_lane_inserts_def
  by (rule grow.keeps_set) (simp add: grows_def mark_lane_ensured_def ensure_row_def heads_le_upd seq_le_def)

lemma invalidate_grows: "tx_keeps grows (tx_set (invalidate_cached_lane l))"
  by (rule grow.keeps_set) (simp add: grows_def invalidate_cached_lane_def)

lemma ensure_lane_grows: "tx_keeps grows (ensure_lane l)"
  unfolding ensure_lane_def by (auto intro!: grow_intros ensure_lane_inserts_grows invalidate_grows)

lemma reserve_grows: "tx_keeps grows (reserve_enqueue_seq l n)"
  by (auto simp: tx_keeps_def reserve_enqueue_seq_def grows_def seq_le_def intro!: heads_le_upd split: option.split)

lemma advance_grows: "tx_keeps grows (advance_enqueue_head l n)"
  unfolding advance_enqueue_head_def
  by (intro grow_intros reserve_grows ensure_lane_inserts_grows invalidate_grows)

lemma position_lane_grows: "tx_keeps grows (position_lane lr)"
  unfolding position_lane_def by (intro grow_intros ensure_lane_grows advance_grows)

lemma statements_grow:
  "tx_keeps grows (group_rows_tx rows)" "tx_keeps grows (next_job_ids n)"
  "tx_keeps grows current_queue_ring" "tx_keeps grows (execute_ready_inserts_tx ring ins)"
  "tx_keeps grows (insert_ready_segments_tx ring ins)" "tx_keeps grows (execute_deferred_inserts_tx ds)"
  "tx_keeps grows (notify_queues_tx qs)" "tx_keeps grows (shard_for_enqueue_tx q key)"
  by (auto simp: tx_keeps_def group_rows_tx_def next_job_ids_def current_queue_ring_def
      execute_ready_inserts_tx_def insert_ready_segments_tx_def execute_deferred_inserts_tx_def
      notify_queues_tx_def shard_for_enqueue_tx_def Let_def tx_simps case_prod_beta grow.refl
      grows_same_heads) (simp_all add: grows_def)

lemma insert_ready_rows_grows: "tx_keeps grows (insert_ready_rows_tx rows synced)"
  unfolding insert_ready_rows_tx_def insert_ready_rows_with_def sync_ready_enqueue_unique_claims_def Let_def
  by (intro grow.keeps_if grow_intros statements_grow position_lane_grows sync_enqueue_grows)

lemma rollback_wf:
  assumes wf: "store_wf s" and "grows s s'"
  shows "store_wf (rollback s s')"
proof -
  have heads: "s_heads s l \<noteq> None \<Longrightarrow> s_heads (rollback s s') l \<noteq> None \<and> lane_start s l \<le> lane_start (rollback s s') l" for l
  proof -
    have "seq_le (s_heads s l) (s_heads s' l)" using assms(2) unfolding grows_def heads_le_def by blast
    then show "s_heads s l \<noteq> None \<Longrightarrow> ?thesis"
      by (auto simp: seq_le_def rollback_def lane_start_def split: option.splits)
  qed
  have same: "s_ready (rollback s s') = s_ready s" "s_deferred (rollback s s') = s_deferred s"
    "s_authority (rollback s s') = s_authority s" "s_queue_ring (rollback s s') = s_queue_ring s"
    "s_next_job_id s \<le> s_next_job_id (rollback s s')"
    using assms(2) by (simp_all add: rollback_def grows_def)
  have "lanes_wf (rollback s s')"
    using wf heads unfolding store_wf_def lanes_wf_def list_all_iff same by (meson order_less_le_trans)
  then show ?thesis
    using wf same(5) unfolding store_wf_def same(1-4) list_all_iff by (meson order_less_le_trans)
qed

subsection \<open>A batch is enqueued whole or not at all\<close>

lemma partition_jobs_ok:
  "partition_jobs env cfg now i jobs = Inr (ready, deferred) \<Longrightarrow>
     length ready + length deferred = length jobs \<and> list_all (\<lambda>r. df_state r = Scheduled) deferred"
proof (induction jobs arbitrary: i ready deferred)
  case (Cons job jobs)
  then show ?case
    by (auto simp: res_bind_eq_Inr Let_def scheduled_row_def split: if_splits prod.splits)
qed simp

lemma with_job_ids_simps [simp]:
  "length ids = length rows \<Longrightarrow> length (with_job_ids rows ids) = length rows"
  "length ids = length ds \<Longrightarrow> length (with_deferred_ids ds ids) = length ds"
  "length ids = length ds \<Longrightarrow> map r_job_id (with_deferred_ids ds ids) = ids"
  "missing_ids (with_job_ids rows ids) = 0"
  by (auto simp: with_job_ids_def with_deferred_ids_def case_prod_beta o_def filter_empty_conv
      intro!: nth_equalityI)

lemma with_deferred_ids_state:
  "list_all (\<lambda>r. df_state r = Scheduled) ds \<Longrightarrow> list_all (\<lambda>r. df_state r = Scheduled) (with_deferred_ids ds ids)"
  by (auto simp: with_deferred_ids_def list_all_iff dest: set_zip_leftD)

text \<open>The fields a failed or successful batch may not touch, besides the ones the theorem names.\<close>

lemma deferred_insert_ok:
  assumes "list_all (\<lambda>r. df_state r = Scheduled) ds" "distinct (map r_job_id ds)"
    "\<forall>r \<in> set ds. r_job_id r \<notin> set (map r_job_id (s_deferred s))"
  shows "(if ds \<noteq> [] then execute_deferred_inserts_tx ds else tx_ret 0) s =
    (Inr (length ds), s\<lparr>s_deferred := s_deferred s @ map deferred_entry ds\<rparr>)"
  using assms by (auto simp: execute_deferred_inserts_tx_def list_all_iff tx_simps)

lemma deferred_entry_id [simp]: "r_job_id (deferred_entry r) = r_job_id r"
  by (simp add: deferred_entry_def)

lemma notify_result: "\<exists>ch. notify_queues_tx qs s = (Inr (), s\<lparr>s_notified := s_notified s @ ch\<rparr>)"
proof -
  define ch where "ch = remdups_adj (sort (map (\<lambda>q. ''awa:'' @ logical_queue_name (s_config s) q) qs))"
  have "notify_queues_tx qs s = (Inr (), s\<lparr>s_notified := s_notified s @ ch\<rparr>)"
    unfolding notify_queues_tx_def tx_bind_step ch_def [symmetric] by (simp add: tx_simps)
  then show ?thesis by blast
qed

lemma insert_ready_synced:
  assumes "lanes_wf s" "ring_wf (s_authority s) (s_queue_ring s)" "missing_ids rows = 0"
  shows "\<exists>s' es. (if rows \<noteq> [] then insert_ready_rows_tx rows True else tx_ret 0) s = (Inr (length rows), s') \<and>
    s_ready s' = s_ready s @ es \<and> length es = length rows \<and> lanes_wf s' \<and> s_claims s' = s_claims s \<and>
    s_deferred s' = s_deferred s \<and> s_authority s' = s_authority s \<and> s_queue_ring s' = s_queue_ring s \<and>
    s_next_job_id s' = s_next_job_id s"
proof (cases "rows = []")
  case False
  obtain lanes s' where l: "list_all2 lane_job_of
        (fst (group_ready_rows_by_shard (s_queue_meta s) rows (s_local s))) lanes"
    and s': "insert_ready_rows_tx rows True s = (Inr (length rows), s')" "ready_inserted s lanes [] s'"
      "s_next_job_id s' = s_next_job_id s"
    using insert_ready_rows_result [OF assms(1,2) False, of True] assms(3) by auto
  have "length (positioned s lanes) = length (concat (map snd lanes))"
    by (simp add: length_concat o_def)
  also have "\<dots> = length rows"
    using lane_jobs_lengths [OF l] mset_eq_length [OF group_ready_rows_mset] by simp
  finally show ?thesis using s' False by (auto simp: ready_inserted_def)
qed (use assms in \<open>simp add: tx_simps\<close>)

definition enqueued :: "store \<Rightarrow> nat \<Rightarrow> store \<Rightarrow> bool" where
  "enqueued s n s' \<longleftrightarrow> store_wf s' \<and>
    (\<exists>ready deferred. s_ready s' = s_ready s @ ready \<and> s_deferred s' = s_deferred s @ deferred \<and>
       length ready + length deferred = n) \<and>
    s_next_job_id s' = s_next_job_id s + int n"

definition not_enqueued :: "store \<Rightarrow> store \<Rightarrow> bool" where
  "not_enqueued s s' \<longleftrightarrow> store_wf s' \<and> s_ready s' = s_ready s \<and> s_deferred s' = s_deferred s \<and>
    s_claims s' = s_claims s \<and> s_segments s' = s_segments s \<and> s_notified s' = s_notified s"

lemma fresh_ids:
  assumes "store_wf s" "map r_job_id ds = drop m (map (\<lambda>i. s_next_job_id s + int i) [0..<n])"
  shows "distinct (map r_job_id (s_deferred s @ ds))"
    and "list_all (\<lambda>r. r_job_id r < s_next_job_id s + int n) (s_deferred s @ ds)"
proof -
  have new: "s_next_job_id s \<le> i \<and> i < s_next_job_id s + int n" if "i \<in> set (map r_job_id ds)" for i
    using that unfolding assms(2) by (auto dest!: in_set_dropD)
  have old: "i < s_next_job_id s" if "i \<in> set (map r_job_id (s_deferred s))" for i
    using that assms(1) by (auto simp: store_wf_def list_all_iff)
  have "distinct (map r_job_id ds)" unfolding assms(2) by (simp add: distinct_map inj_on_def)
  moreover have "distinct (map r_job_id (s_deferred s))" using assms(1) by (simp add: store_wf_def)
  ultimately show "distinct (map r_job_id (s_deferred s @ ds))" using old new by (fastforce simp del: set_map)
  show "list_all (\<lambda>r. r_job_id r < s_next_job_id s + int n) (s_deferred s @ ds)"
    using old new by (fastforce simp: list_all_iff)
qed

lemma enqueue_rows_result:
  assumes wf: "store_wf s" and sched: "list_all (\<lambda>r. df_state r = Scheduled) deferred0"
  shows "case enqueue_rows_with insert_ready_rows_tx execute_deferred_inserts_tx ready0 deferred0 s of
      (Inr n, s') \<Rightarrow> n = length ready0 + length deferred0 \<and> enqueued s n s'
    | (Inl e, s') \<Rightarrow> e = unique_conflict \<and> not_enqueued s s'"
proof -
  define n where "n = length ready0 + length deferred0"
  define ids where "ids = map (\<lambda>i. s_next_job_id s + int i) [0..<n]"
  define s1 where "s1 = s\<lparr>s_next_job_id := s_next_job_id s + int n\<rparr>"
  define ready where "ready = with_job_ids ready0 (take (length ready0) ids)"
  define deferred where "deferred = with_deferred_ids deferred0 (drop (length ready0) ids)"
  define claims where "claims = batch_enqueue_unique_claims ready deferred"
  have ids: "next_job_ids n s = (Inr ids, s1)" by (simp add: next_job_ids_def ids_def s1_def)
  have lens: "length (take (length ready0) ids) = length ready0" "length (drop (length ready0) ids) = length deferred0"
    by (simp_all add: ids_def n_def)
  let ?m = "tx_bind (sync_enqueue_unique_claims claims) (\<lambda>_.
      tx_bind (if ready \<noteq> [] then insert_ready_rows_tx ready True else tx_ret 0) (\<lambda>n_ready.
      tx_bind (if deferred \<noteq> [] then execute_deferred_inserts_tx deferred else tx_ret 0) (\<lambda>n_deferred.
      tx_bind (notify_queues_tx (map rr_queue ready)) (\<lambda>_.
        tx_ret (n_ready + n_deferred)))))"
  have run: "enqueue_rows_with insert_ready_rows_tx execute_deferred_inserts_tx ready0 deferred0 s =
      (case ?m s1 of (Inl e, s') \<Rightarrow> (Inl e, rollback s s') | (Inr a, s') \<Rightarrow> (Inr a, s'))"
    by (simp add: enqueue_rows_with_def in_tx_def tx_simps ids n_def [symmetric] ready_def deferred_def
        claims_def Let_def)
  show ?thesis
  proof (cases "claims_free s claims")
    case False
    then have "?m s1 = (Inl unique_conflict, snd (sync_enqueue_unique_claims claims s1))"
      using sync_enqueue_result [of claims s1] by (simp add: tx_simps claims_free_def s1_def)
    moreover have "grows s1 (snd (sync_enqueue_unique_claims claims s1))"
      using sync_enqueue_grows by (simp add: tx_keeps_def)
    then have "store_wf (rollback s (snd (sync_enqueue_unique_claims claims s1)))"
      by (intro rollback_wf [OF wf]) (simp add: grows_def s1_def)
    ultimately show ?thesis unfolding run by (simp add: not_enqueued_def) (simp add: rollback_def)
  next
    case True
    define s2 where "s2 = s1\<lparr>s_claims := s_claims s ++ map_of claims\<rparr>"
    have r2: "sync_enqueue_unique_claims claims s1 = (Inr (), s2)"
      using sync_enqueue_result [of claims s1] True by (simp add: claims_free_def s1_def s2_def)
    have eq2: "s_ready s2 = s_ready s" "s_deferred s2 = s_deferred s" "s_authority s2 = s_authority s"
      "s_queue_ring s2 = s_queue_ring s" "s_next_job_id s2 = s_next_job_id s + int n" "s_heads s2 = s_heads s"
      by (simp_all add: s2_def s1_def)
    have wf2: "lanes_wf s2" "ring_wf (s_authority s2) (s_queue_ring s2)" "missing_ids ready = 0"
      using wf lanes_wf_cong [OF eq2(1,6)] by (simp_all add: store_wf_def eq2 ready_def)
    obtain s3 es where s3: "(if ready \<noteq> [] then insert_ready_rows_tx ready True else tx_ret 0) s2 =
        (Inr (length ready), s3)" "s_ready s3 = s_ready s @ es" "length es = length ready" "lanes_wf s3"
      "s_deferred s3 = s_deferred s" "s_authority s3 = s_authority s" "s_queue_ring s3 = s_queue_ring s"
      "s_next_job_id s3 = s_next_job_id s + int n"
      using insert_ready_synced [OF wf2] by (auto simp: eq2)
    have dids: "map r_job_id deferred = drop (length ready0) ids"
      unfolding deferred_def by (rule with_job_ids_simps(3) [OF lens(2)])
    have "map r_job_id (map deferred_entry deferred) = drop (length ready0) ids" using dids by (simp add: o_def)
    note fresh = fresh_ids [OF wf this [unfolded ids_def]]
    define s4 where "s4 = s3\<lparr>s_deferred := s_deferred s @ map deferred_entry deferred\<rparr>"
    have s4: "(if deferred \<noteq> [] then execute_deferred_inserts_tx deferred else tx_ret 0) s3 = (Inr (length deferred), s4)"
      unfolding s4_def s3(5) [symmetric]
    proof (rule deferred_insert_ok)
      show "list_all (\<lambda>r. df_state r = Scheduled) deferred"
        unfolding deferred_def by (rule with_deferred_ids_state [OF sched])
      show "distinct (map r_job_id deferred)" "\<forall>r \<in> set deferred. r_job_id r \<notin> set (map r_job_id (s_deferred s3))"
        using fresh(1) by (auto simp: o_def s3)
    qed
    obtain ch where nt: "notify_queues_tx (map rr_queue ready) s4 = (Inr (), s4\<lparr>s_notified := s_notified s4 @ ch\<rparr>)"
      using notify_result by blast
    let ?s5 = "s4\<lparr>s_notified := s_notified s4 @ ch\<rparr>"
    have len: "length ready = length ready0" "length deferred = length deferred0"
      unfolding ready_def deferred_def
      by (rule with_job_ids_simps(1) [OF lens(1)] with_job_ids_simps(2) [OF lens(2)])+
    have lw: "lanes_wf ?s5" using s3(4) lanes_wf_cong [of ?s5 s3] by (simp add: s4_def)
    have "store_wf ?s5"
      using lw wf fresh unfolding store_wf_def by (simp add: s4_def s3)
    then have "enqueued s n ?s5"
      using s3 len by (auto simp: enqueued_def s4_def n_def)
    then show ?thesis unfolding run using r2 s3(1) s4 nt len by (simp add: tx_simps n_def)
  qed
qed


lemma filter_positions:
  "distinct (map fst lanes) \<Longrightarrow>
   map snd (filter (\<lambda>p. fst p = l)
     (concat (map (\<lambda>(l, rs). map (\<lambda>i. (l, h l + int i)) [0..<length rs]) lanes))) =
   map (\<lambda>i. h l + int i) [0..<(case map_of lanes l of None \<Rightarrow> 0 | Some rs \<Rightarrow> length rs)]"
proof (induction lanes)
  case (Cons lr lanes)
  obtain l' rs where lr: "lr = (l', rs)" by (cases lr)
  have none: "l = l' \<Longrightarrow> map_of lanes l = None" using Cons.prems by (simp add: lr map_of_eq_None_iff)
  show ?case
    using Cons none by (cases "l = l'") (simp_all add: lr filter_map o_def)
qed simp

text \<open>
  C16: positions of a lane are handed out consecutively.  The rows that an insert appends to a lane take, in
  order, the positions from the lane's head on, 1 for a lane that has none yet; the head moves past them,
  and no two ready rows share a position, whatever partition they are in.
\<close>

theorem ready_rows_take_next_positions:
  assumes wf: "store_wf s" and run: "insert_ready_rows_tx rows synced s = (Inr n, s')"
  shows "n = length rows \<and> lanes_wf s' \<and>
    (\<exists>es. s_ready s' = s_ready s @ es \<and> length es = length rows \<and>
      (\<forall>l. let k = length (filter (\<lambda>r. row_lane r = l) es) in
         map rt_lane_seq (filter (\<lambda>r. row_lane r = l) es) = map (\<lambda>i. lane_start s l + int i) [0..<k] \<and>
         lane_start s' l = lane_start s l + int k))"
proof (cases "rows = []")
  case True
  then show ?thesis
    using wf run by (simp add: insert_ready_rows_tx_def insert_ready_rows_with_def tx_simps store_wf_def)
next
  case False
  let ?g = "fst (group_ready_rows_by_shard (s_queue_meta s) rows (s_local s))"
  obtain lanes claims where l: "list_all2 lane_job_of ?g lanes" and r: "ready_inserted s lanes claims s'"
    and n: "n = length rows"
    using insert_ready_rows_result [OF _ _ False, of s synced] wf run
    by (auto simp: store_wf_def Let_def split: if_splits)
  have own: "lanes_own lanes" by (rule grouped_lanes_own [OF l])
  obtain ring where ready: "s_ready s' = s_ready s @ map (ready_entry ring) (positioned s lanes)"
    using r by (auto simp: ready_inserted_def)
  have heads: "s_heads s' = (\<lambda>l. case map_of lanes l of None \<Rightarrow> s_heads s l
                         | Some rs \<Rightarrow> Some (lane_start s l + int (length rs)))"
    using r unfolding ready_inserted_def by blast
  let ?es = "map (ready_entry ring) (positioned s lanes)"
  have len: "length ?es = length rows"
    using lane_jobs_lengths [OF l] mset_eq_length [OF group_ready_rows_mset] by (simp add: length_concat o_def)
  have "let k = length (filter (\<lambda>r. row_lane r = l) ?es) in
      map rt_lane_seq (filter (\<lambda>r. row_lane r = l) ?es) = map (\<lambda>i. lane_start s l + int i) [0..<k] \<and>
      lane_start s' l = lane_start s l + int k" for l
  proof -
    have "map rt_lane_seq (filter (\<lambda>r. row_lane r = l) ?es) = map snd (filter (\<lambda>p. fst p = l) (map ready_pos ?es))"
      by (simp add: filter_map o_def ready_pos_def)
    also have "map ready_pos ?es = map insert_pos (positioned s lanes)" by simp
    also have "map snd (filter (\<lambda>p. fst p = l) \<dots>) =
        map (\<lambda>i. lane_start s l + int i) [0..<(case map_of lanes l of None \<Rightarrow> 0 | Some rs \<Rightarrow> length rs)]"
      unfolding positioned_pos [OF own] using own by (intro filter_positions) (simp add: lanes_own_def)
    finally have seqs: "map rt_lane_seq (filter (\<lambda>r. row_lane r = l) ?es) = \<dots>" .
    from arg_cong [OF this, of length]
    have "length (filter (\<lambda>r. row_lane r = l) ?es) = (case map_of lanes l of None \<Rightarrow> 0 | Some rs \<Rightarrow> length rs)"
      unfolding length_map by simp
    moreover have "lane_start s' l = lane_start s l + int (case map_of lanes l of None \<Rightarrow> 0 | Some rs \<Rightarrow> length rs)"
      unfolding lane_start_def heads by (simp split: option.split)
    ultimately show ?thesis using seqs unfolding Let_def by simp
  qed
  note lane = this
  have "lanes_wf s'" using r unfolding ready_inserted_def by blast
  then show ?thesis using n ready len lane by (intro conjI exI [of _ ?es] allI) assumption+
qed

subsection \<open>Concrete instances\<close>

text \<open>A store as it is after installation, for a queue with the default configuration.\<close>

definition fresh_store :: store where
  "fresh_store =
    \<lparr> s_config = queue_storage_config_default, s_now = 1000,
      s_local = \<lparr> sl_shard_rotor = 0, sl_next_stripe_probe = 0, sl_enqueue_shards_cache = Map.empty \<rparr>,
      s_ensured = {}, s_queue_meta = Map.empty, s_paused = [], s_authority = Columns, s_queue_ring = small_ring, s_lease_ring = small_ring,
      s_claim_ring = small_ring, s_claim_cursors = Map.empty, s_next_job_id = 1, s_next_receipt_id = 1, s_next_batch_id = 1, s_lanes = {}, s_heads = Map.empty, s_claim_heads = Map.empty,
      s_claims = Map.empty, s_ready = [], s_segments = [], s_deferred = [], s_done = [],
      s_count_deltas = [], s_live_counts = [], s_counters_trusted = True, s_rollups = [],
      s_rollup_deltas = [], s_ready_tombs = [], s_claim_attempts = [], s_receipt_batches = [],
      s_receipt_tombs = [], s_dlq = [], s_leases = [], s_lease_claims = [],
      s_claim_batches = [], s_closures = [], s_closure_batches = [], s_attempts = [], s_notified = [] \<rparr>"

lemma fresh_store_wf: "store_wf fresh_store"
  by (simp add: store_wf_def fresh_store_def lanes_wf_def small_ring_def columns_wf_def ledger_rows_wf_def)

definition plain_env :: enqueue_env where
  "plain_env =
    \<lparr> ee_insert = \<lparr> ie_blake3 = id, ie_to_vec = (\<lambda>_. []), ie_hex_encode = id, ie_rfc3339 = (\<lambda>_. []),
                    ie_trace_capture_env = None, ie_current_traceparent = None \<rparr>,
      ee_default_hash = (\<lambda>_. 0) \<rparr>"

definition mail_job :: "timestamp option \<Rightarrow> insert_params" where
  "mail_job run_at =
    \<lparr> ip_kind = ''mail'', ip_args = JObject [], ip_opts = insert_opts_default\<lparr>io_run_at := run_at\<rparr> \<rparr>"

definition mail_row :: "runtime_ready_row" where
  "mail_row = bench_row queue_storage_config_default 1000 ''mail'' 2 0"

theorem sync_unique_claim_follows_state_witness:
  "fst (sync_unique_claim 7 (Some ''k'') (Some ''01000000'') None (Some Available) fresh_store) = Inr () \<and>
   s_claims (snd (sync_unique_claim 7 (Some ''k'') (Some ''01000000'') None (Some Available) fresh_store)) ''k''
     = Some 7"
  using sync_unique_claim_follows_state [of 7 "''k''" "Some ''01000000''" None "Some Available" fresh_store
      "fst (sync_unique_claim 7 (Some ''k'') (Some ''01000000'') None (Some Available) fresh_store)"
      "snd (sync_unique_claim 7 (Some ''k'') (Some ''01000000'') None (Some Available) fresh_store)"]
  by (simp add: fresh_store_def state_claims_def unique_state_claims_def nth_opt_def)


theorem ready_rows_take_next_positions_witness:
  "\<exists>s'. insert_ready_rows_tx [mail_row, mail_row] False fresh_store = (Inr 2, s') \<and> lanes_wf s' \<and>
     map rt_lane_seq (s_ready s') = [1, 2]"
proof -
  let ?r = "insert_ready_rows_tx [mail_row, mail_row] False fresh_store"
  have "fst ?r = Inr 2 \<and> map rt_lane_seq (s_ready (snd ?r)) = [1, 2]" by code_simp
  then obtain s' where s': "?r = (Inr 2, s')" "map rt_lane_seq (s_ready s') = [1, 2]" by (cases ?r) auto
  have "lanes_wf s'" using ready_rows_take_next_positions [OF fresh_store_wf s'(1)] by (elim conjE)
  with s' show ?thesis by (intro exI [of _ s'] conjI)
qed

end
