(* ===== verification/Awa_Terminal.thy ===== *)
theory Awa_Terminal
  imports Awa_Enqueue
begin

section \<open>Terminal rows and their counters\<close>

text \<open>
  The terminal side of \<^verbatim>\<open>queue_storage.rs\<close>: the inserts into \<^verbatim>\<open>done_entries\<close> and
  \<^verbatim>\<open>dlq_entries\<close>, the signed count deltas that go with every terminal row, the maintenance that folds
  them into live counters, the rebuild of the counters, the rollup of pruned counts, and the prune of
  the queue ring with its retention floor.  The main invariant is the one the code states: folded
  counters plus pending deltas equal the number of terminal rows.
\<close>


declare split_paired_All [simp del] split_paired_Ex [simp del] map_of_eq_Some_iff [simp del]

subsection \<open>Count deltas\<close>

definition counter_key :: "done_job_row \<Rightarrow> terminal_counter_key" where
  "counter_key row =
    (dn_ready_slot row, dn_ready_generation row, r_queue row, r_priority row, dn_enqueue_shard row,
     terminal_counter_bucket (r_job_id row))"

definition done_rows_to_counter_keys :: "done_job_row list \<Rightarrow> terminal_counter_key list" where
  "done_rows_to_counter_keys rows = map counter_key rows"

text \<open>\<^verbatim>\<open>*by_group.entry(key).or_insert(0) += d\<close>\<close>

definition add_delta :: "'k::linorder \<times> int \<Rightarrow> ('k, int) omap \<Rightarrow> ('k, int) omap" where
  "add_delta kd m = omap_update (fst kd) 0 (\<lambda>n. n + snd kd) m"

definition group_deltas :: "('k::linorder \<times> int) list \<Rightarrow> ('k, int) omap" where
  "group_deltas kds = foldl (\<lambda>m kd. add_delta kd m) [] kds"

fun bucketed :: "bool \<Rightarrow> terminal_counter_key \<Rightarrow> terminal_counter_key" where
  "bucketed per_lane (slot, gen, queue, prio, shard, bucket) =
    (slot, gen, queue, prio, shard, if per_lane then 0 else bucket)"

definition append_terminal_count_deltas_tx :: "(terminal_counter_key, int) omap \<Rightarrow> unit tx" where
  "append_terminal_count_deltas_tx by_group =
    (let deltas = filter (\<lambda>kd. snd kd \<noteq> 0) by_group in
     if deltas = [] then tx_ret ()
     else tx_set (\<lambda>s.
       let per_lane = (s_authority s = Ledger);
           rows = filter (\<lambda>kd. snd kd \<noteq> 0)
                    (group_deltas (map (\<lambda>(k, d). (bucketed per_lane k, d)) deltas))
       in s\<lparr>s_count_deltas := s_count_deltas s @ rows\<rparr>))"

definition increment_live_terminal_counters_tx :: "done_job_row list \<Rightarrow> unit tx" where
  "increment_live_terminal_counters_tx rows =
    (if rows = [] then tx_ret ()
     else append_terminal_count_deltas_tx (group_deltas (map (\<lambda>row. (counter_key row, 1)) rows)))"

definition decrement_live_terminal_counters_tx :: "terminal_counter_key list \<Rightarrow> unit tx" where
  "decrement_live_terminal_counters_tx keys =
    (if keys = [] then tx_ret ()
     else append_terminal_count_deltas_tx (group_deltas (map (\<lambda>key. (key, - 1)) keys)))"


subsection \<open>Terminal rows\<close>

definition done_key :: "done_entry \<Rightarrow> int \<times> string \<times> int \<times> int \<times> int" where
  "done_key d = (de_ready_slot d, de_queue d, de_priority d, de_enqueue_shard d, de_lane_seq d)"

definition insert_done_entry :: "done_entry \<Rightarrow> unit tx" where
  "insert_done_entry d s =
    (if done_key d \<in> set (map done_key (s_done s))
     then (Inl (pkey_conflict (partition_name ''done_entries'' (de_ready_slot d))), s)
     else (Inr (), s\<lparr>s_done := s_done s @ [d]\<rparr>))"

text \<open>The ready row at the coordinates of a terminal row.\<close>

definition ready_of_done :: "store \<Rightarrow> int \<times> int \<times> string \<times> int \<times> int \<times> int \<Rightarrow> ready_transition_row option" where
  "ready_of_done s key =
    find (\<lambda>r. (rt_ready_slot r, rt_ready_generation r, r_queue r, r_priority r, rt_enqueue_shard r,
               rt_lane_seq r) = key) (s_ready s)"

definition done_ready_key :: "done_job_row \<Rightarrow> int \<times> int \<times> string \<times> int \<times> int \<times> int" where
  "done_ready_key row =
    (dn_ready_slot row, dn_ready_generation row, r_queue row, r_priority row, dn_enqueue_shard row,
     dn_lane_seq row)"

definition ready_payloads_for_done_rows :: "store \<Rightarrow> done_job_row \<Rightarrow> json option" where
  "ready_payloads_for_done_rows s row = map_option r_payload (ready_of_done s (done_ready_key row))"

definition keep_ready_backing :: "job_state option \<Rightarrow> bool" where
  "keep_ready_backing old_state = (old_state = Some Running \<or> old_state = Some WaitingExternal)"

definition insert_done_rows_tx :: "done_job_row list \<Rightarrow> job_state option \<Rightarrow> nat tx" where
  "insert_done_rows_tx rows old_state =
    (if rows = [] then tx_ret 0
     else
       tx_bind (sync_rows dn_state old_state rows) (\<lambda>_.
       tx_bind (tx_get (\<lambda>s. if \<exists>row \<in> set rows. \<not> is_storage_payload_empty (r_payload row)
                             then ready_payloads_for_done_rows s else (\<lambda>_. None))) (\<lambda>ready_payload.
       let ordered = sort_key (\<lambda>row. (done_ready_key row, r_job_id row)) rows;
           backed = (\<lambda>row. keep_ready_backing old_state \<and> dn_lane_seq row \<ge> 0);
           ready_backed = filter backed ordered;
           synthetic = filter (\<lambda>row. \<not> backed row) ordered in
       tx_bind (tx_for (\<lambda>row. insert_done_entry (store_ready_backed row (ready_payload row))) ready_backed) (\<lambda>_.
       tx_bind (tx_for (\<lambda>row. insert_done_entry (store_synthetic row (ready_payload row))) synthetic) (\<lambda>_.
       tx_bind (increment_live_terminal_counters_tx rows) (\<lambda>_.
         tx_ret (length rows)))))))"

definition dlq_entry :: "dlq_job_row \<Rightarrow> dlq_job_row" where
  "dlq_entry row = row\<lparr>r_payload := coalesced_payload (r_payload row)\<rparr>"

definition insert_dlq_entry :: "dlq_job_row \<Rightarrow> unit tx" where
  "insert_dlq_entry row s =
    (if r_job_id row \<in> set (map r_job_id (s_dlq s)) then (Inl (pkey_conflict ''dlq_entries''), s)
     else (Inr (), s\<lparr>s_dlq := s_dlq s @ [dlq_entry row]\<rparr>))"

definition insert_dlq_rows_tx :: "dlq_job_row list \<Rightarrow> job_state option \<Rightarrow> nat tx" where
  "insert_dlq_rows_tx rows old_state =
    (if rows = [] then tx_ret 0
     else
       tx_bind (sync_rows (\<lambda>_. Failed) old_state rows) (\<lambda>_.
       tx_bind (tx_for insert_dlq_entry rows) (\<lambda>_. tx_ret (length rows))))"

text \<open>
  The read of a terminal row through its ready row, as \<^verbatim>\<open>done_ready_join\<close> and
  \<^verbatim>\<open>done_row_projection\<close> write it.
\<close>

definition ready_backing_of :: "ready_transition_row \<Rightarrow> ready_backing" where
  "ready_backing_of r =
    \<lparr> rb_args = r_args r, rb_max_attempts = r_max_attempts r, rb_run_at = r_run_at r,
      rb_attempted_at = r_attempted_at r, rb_created_at = r_created_at r,
      rb_unique_key = r_unique_key r, rb_unique_states = r_unique_states r,
      rb_payload = Some (r_payload r) \<rparr>"

definition done_ready_join :: "store \<Rightarrow> done_entry \<Rightarrow> ready_backing option" where
  "done_ready_join s d =
    map_option ready_backing_of
      (ready_of_done s (de_ready_slot d, de_ready_generation d, de_queue d, de_priority d,
                        de_enqueue_shard d, de_lane_seq d))"

definition read_done_row :: "store \<Rightarrow> done_entry \<Rightarrow> done_job_row" where
  "read_done_row s d = done_row_projection d (done_ready_join s d)"

subsection \<open>Closing receipt claims by row\<close>

definition has_closure :: "store \<Rightarrow> int \<Rightarrow> job_id \<Rightarrow> int \<Rightarrow> bool" where
  "has_closure s slot job_id run_lease \<longleftrightarrow>
    (\<exists>c \<in> set (s_closures s). cc_claim_slot c = slot \<and> cc_job_id c = job_id \<and> cc_run_lease c = run_lease)"

text \<open>
  Closures for the row claims of some attempts, \<^verbatim>\<open>ON CONFLICT DO NOTHING\<close>, and the closing time on the rows
  that got one.
\<close>

definition close_row_claims :: "string \<Rightarrow> (job_id \<times> int) list \<Rightarrow> unit tx" where
  "close_row_claims outcome refs =
    tx_set (\<lambda>s.
      let hit = (\<lambda>c. (lc_job_id c, lc_run_lease c) \<in> set refs \<and>
                     \<not> has_closure s (lc_claim_slot c) (lc_job_id c) (lc_run_lease c));
          new = map (\<lambda>c. \<lparr> cc_claim_slot = lc_claim_slot c, cc_job_id = lc_job_id c,
                            cc_run_lease = lc_run_lease c, cc_outcome = outcome, cc_closed_at = s_now s \<rparr>)
                  (filter hit (s_lease_claims s))
      in s\<lparr>s_closures := s_closures s @ new,
           s_lease_claims := map (\<lambda>c. if hit c
               then c\<lparr>lc_closed_at := Some (or_default (lc_closed_at c) (s_now s))\<rparr> else c)
             (s_lease_claims s)\<rparr>)"

definition ensure_terminal_removed_receipt_closures_tx :: "done_job_row list \<Rightarrow> unit tx" where
  "ensure_terminal_removed_receipt_closures_tx rows =
    tx_bind (tx_get (\<lambda>s. cfg_lease_claim_receipts (s_config s))) (\<lambda>receipts.
      if rows = [] \<or> \<not> receipts then tx_ret ()
      else close_row_claims ''terminal_removed'' (map (\<lambda>row. (r_job_id row, r_run_lease row)) rows))"


subsection \<open>Counters: rebuild and fold\<close>

definition live_key :: "bool \<Rightarrow> done_entry \<Rightarrow> live_counter_key" where
  "live_key per_lane d =
    (de_ready_slot d, de_queue d, de_priority d, de_enqueue_shard d,
     if per_lane then 0 else terminal_counter_bucket (de_job_id d))"

definition rebuild_terminal_counters :: "nat tx" where
  "rebuild_terminal_counters s =
    (let counts = group_deltas (map (\<lambda>d. (live_key (s_authority s = Ledger) d, 1)) (s_done s))
     in (Inr (length counts),
         s\<lparr>s_live_counts := counts, s_count_deltas := [], s_counters_trusted := True\<rparr>))"

fun delta_lane :: "terminal_counter_key \<Rightarrow> int \<times> string \<times> int \<times> int" where
  "delta_lane (slot, gen, queue, prio, shard, bucket) = (slot, queue, prio, shard)"

fun delta_live_key :: "terminal_counter_key \<Rightarrow> live_counter_key" where
  "delta_live_key (slot, gen, queue, prio, shard, bucket) = (slot, queue, prio, shard, bucket)"

fun delta_slot :: "terminal_counter_key \<Rightarrow> int" where
  "delta_slot (slot, _) = slot"

fun delta_generation :: "terminal_counter_key \<Rightarrow> int" where
  "delta_generation (slot, gen, _) = gen"

fun live_lane :: "live_counter_key \<Rightarrow> int \<times> string \<times> int \<times> int" where
  "live_lane (slot, queue, prio, shard, bucket) = (slot, queue, prio, shard)"

fun lane_live_key :: "int \<times> string \<times> int \<times> int \<Rightarrow> live_counter_key" where
  "lane_live_key (slot, queue, prio, shard) = (slot, queue, prio, shard, 0)"

text \<open>
  The fold under the ledger: every lane with a net change collapses to one row of bucket 0.
\<close>

definition fold_per_lane ::
  "(terminal_counter_key \<times> int) list \<Rightarrow> (live_counter_key \<times> int) list \<Rightarrow> (live_counter_key \<times> int) list \<times> nat" where
  "fold_per_lane deltas live =
    (let grouped = filter (\<lambda>kd. snd kd \<noteq> 0) (group_deltas (map (\<lambda>(k, d). (delta_lane k, d)) deltas));
         touched = (\<lambda>kc. live_lane (fst kc) \<in> set (map fst grouped));
         folded = map (\<lambda>(lane, d). (lane_live_key lane,
                        d + sum_list (map snd (filter (\<lambda>kc. live_lane (fst kc) = lane) live)))) grouped
     in (filter (\<lambda>kc. \<not> touched kc) live @ filter (\<lambda>kc. snd kc \<noteq> 0) folded, length grouped))"

text \<open>
  The fold under the columns: per bucket, an update clamped at zero, or an insert of a positive count.
\<close>

definition fold_per_bucket ::
  "(terminal_counter_key \<times> int) list \<Rightarrow> (live_counter_key \<times> int) list \<Rightarrow> (live_counter_key \<times> int) list \<times> nat" where
  "fold_per_bucket deltas live =
    (let grouped = filter (\<lambda>kd. snd kd \<noteq> 0) (group_deltas (map (\<lambda>(k, d). (delta_live_key k, d)) deltas))
     in (map (\<lambda>(k, n). case map_of grouped k of None \<Rightarrow> (k, n) | Some d \<Rightarrow> (k, max 0 (n + d))) live @
         filter (\<lambda>kd. snd kd > 0 \<and> fst kd \<notin> set (map fst live)) grouped, length grouped))"

datatype slot_rollup = RollEmpty | Rolled_slot nat nat | RollSkippedActive | RollSkippedMvccPinned | RollBlocked

text \<open>
  What the maintenance transactions see of the world: whether another backend pins the horizon, whether the
  serializer of the ring is free, the results of the table lock and of the truncation, and what committed
  while the lock was awaited.
\<close>

record maint_env =
  me_pinned :: bool
  me_lock_free :: bool
  me_lock_result :: "sqlx_error option"
  me_while_waiting :: "store \<Rightarrow> store"
  me_truncate_result :: "sqlx_error option"
  me_durations :: prune_durations

definition acquire_queue_serializer :: "maint_env \<Rightarrow> store \<Rightarrow> bool" where
  "acquire_queue_serializer env s = (case s_authority s of Columns \<Rightarrow> True | Ledger \<Rightarrow> me_lock_free env)"

definition queue_prune_has_active_leases :: "store \<Rightarrow> int \<Rightarrow> int \<Rightarrow> bool" where
  "queue_prune_has_active_leases s slot gen \<longleftrightarrow>
    (\<exists>l \<in> set (s_leases s). ls_ready_slot l = slot \<and> ls_ready_generation l = gen)"

definition queue_prune_has_pending_ready :: "store \<Rightarrow> int \<Rightarrow> int \<Rightarrow> bool" where
  "queue_prune_has_pending_ready s slot gen \<longleftrightarrow>
    (\<exists>r \<in> set (s_ready s). rt_ready_slot r = slot \<and> rt_ready_generation r = gen \<and>
       (case s_claim_heads s (row_lane r) of None \<Rightarrow> False | Some claim_seq \<Rightarrow> rt_lane_seq r \<ge> claim_seq))"

definition queue_prune_has_unclosed_claim_refs :: "store \<Rightarrow> int \<Rightarrow> int \<Rightarrow> bool" where
  "queue_prune_has_unclosed_claim_refs s slot gen \<longleftrightarrow>
    (let rows = filter (\<lambda>c. lc_ready_slot c = slot \<and> lc_ready_generation c = gen) (s_lease_claims s);
         batches = filter (\<lambda>b. lb_ready_slot b = slot \<and> lb_ready_generation b = gen) (s_claim_batches s);
         explicit = filter (\<lambda>c. has_closure s (lc_claim_slot c) (lc_job_id c) (lc_run_lease c)) rows;
         compact = filter (\<lambda>x. xb_ready_slot x = slot \<and> xb_ready_generation x = gen) (s_closure_batches s) in
     length rows + sum_list (map (\<lambda>b. length (lb_items b)) batches) \<noteq>
     length explicit + sum_list (map (\<lambda>x. length (xb_receipt_ids x)) compact))"

definition slot_deltas :: "int \<Rightarrow> store \<Rightarrow> (terminal_counter_key \<times> int) list" where
  "slot_deltas slot s = filter (\<lambda>kd. delta_slot (fst kd) = slot) (s_count_deltas s)"

definition fold_slot_deltas :: "ring_authority \<Rightarrow> int \<Rightarrow> int \<Rightarrow> store \<Rightarrow> slot_rollup \<times> store" where
  "fold_slot_deltas authority slot gen s =
    (let deltas = filter (\<lambda>kd. delta_generation (fst kd) = gen) (slot_deltas slot s) in
     if deltas = [] then (RollEmpty, s)
     else
       let (live, keys) = (case authority of
                             Ledger \<Rightarrow> fold_per_lane deltas (s_live_counts s)
                           | Columns \<Rightarrow> fold_per_bucket deltas (s_live_counts s))
       in (Rolled_slot (length deltas) keys,
           s\<lparr>s_live_counts := live,
             s_count_deltas := filter (\<lambda>kd. delta_slot (fst kd) \<noteq> slot) (s_count_deltas s)\<rparr>))"

definition rollup_terminal_count_delta_slot ::
  "maint_env \<Rightarrow> int \<Rightarrow> int \<Rightarrow> store \<Rightarrow> (awa_error + slot_rollup) \<times> store" where
  "rollup_terminal_count_delta_slot env slot gen s =
    (let authority = s_authority s; ring = s_queue_ring s in
     if \<not> acquire_queue_serializer env s then (Inr RollBlocked, s)
     else case ring_cursor authority ring of
       Inl e \<Rightarrow> (Inl e, s)
     | Inr (current_slot, current_generation) \<Rightarrow>
         if map_of (rs_slots ring) slot = None then (Inr RollEmpty, s)
         else if current_slot = slot then (Inr RollSkippedActive, s)
         else if ring_slot_generation current_slot current_generation (rs_slot_count ring) slot \<noteq> Some gen
         then (Inr RollEmpty, s)
         else if me_pinned env then (Inr RollSkippedMvccPinned, s)
         else if queue_prune_has_pending_ready s slot gen then (Inr RollSkippedActive, s)
         else
           let s1 = me_while_waiting env s in
           case me_lock_result env of
             Some err \<Rightarrow> (if is_lock_contention_error err then (Inr RollBlocked, s1)
                          else (Inl (map_sqlx_error err), s1))
           | None \<Rightarrow>
               if queue_prune_has_active_leases s1 slot gen then (Inr RollSkippedActive, s1)
               else if queue_prune_has_unclosed_claim_refs s1 slot gen then (Inr RollSkippedActive, s1)
               else
                 let (outcome, s2) = fold_slot_deltas authority slot gen s1 in
                 if outcome = RollEmpty then (Inr RollEmpty, s1)
                 else case me_truncate_result env of
                   None \<Rightarrow> (Inr outcome, s2)
                 | Some err \<Rightarrow> (if is_lock_contention_error err then (Inr RollBlocked, s1)
                                else (Inl (map_sqlx_error err), s1)))"

record delta_rollup_outcome =
  ro_rolled_slots :: nat
  ro_delta_rows :: nat
  ro_grouped_keys :: nat
  ro_skipped_active_slots :: nat
  ro_blocked_slots :: nat
  ro_skipped_mvcc_pinned :: bool

definition delta_rollup_default :: delta_rollup_outcome where
  "delta_rollup_default =
    \<lparr> ro_rolled_slots = 0, ro_delta_rows = 0, ro_grouped_keys = 0, ro_skipped_active_slots = 0,
      ro_blocked_slots = 0, ro_skipped_mvcc_pinned = False \<rparr>"

definition terminal_delta_rollup_candidates :: "store \<Rightarrow> awa_error + (int \<times> int) list" where
  "terminal_delta_rollup_candidates s =
    (case ledger_cursor (s_queue_ring s) of
       Inl e \<Rightarrow> Inl e
     | Inr (current_slot, gen) \<Rightarrow>
         Inr (filter (\<lambda>(slot, g). slot \<ge> 0 \<and>
                        (\<exists>kd \<in> set (slot_deltas slot s). delta_generation (fst kd) = g))
                (initialized_sealed_ring_slots current_slot gen (rs_slot_count (s_queue_ring s)))))"

fun rollup_slots ::
  "(int \<Rightarrow> maint_env) \<Rightarrow> nat \<Rightarrow> (int \<times> int) list \<Rightarrow> delta_rollup_outcome \<Rightarrow> store \<Rightarrow>
     (awa_error + delta_rollup_outcome) \<times> store" where
  "rollup_slots env max_slots [] outcome s = (Inr outcome, s)"
| "rollup_slots env max_slots ((slot, gen) # slots) outcome s =
    (if ro_rolled_slots outcome \<ge> max_slots then (Inr outcome, s)
     else case rollup_terminal_count_delta_slot (env slot) slot gen s of
       (Inl e, s') \<Rightarrow> (Inl e, s')
     | (Inr RollEmpty, s') \<Rightarrow> rollup_slots env max_slots slots outcome s'
     | (Inr (Rolled_slot rows keys), s') \<Rightarrow>
         rollup_slots env max_slots slots
           (outcome\<lparr>ro_rolled_slots := ro_rolled_slots outcome + 1, ro_delta_rows := ro_delta_rows outcome + rows,
                   ro_grouped_keys := ro_grouped_keys outcome + keys\<rparr>) s'
     | (Inr RollSkippedActive, s') \<Rightarrow>
         rollup_slots env max_slots slots
           (outcome\<lparr>ro_skipped_active_slots := ro_skipped_active_slots outcome + 1\<rparr>) s'
     | (Inr RollSkippedMvccPinned, s') \<Rightarrow> (Inr (outcome\<lparr>ro_skipped_mvcc_pinned := True\<rparr>), s')
     | (Inr RollBlocked, s') \<Rightarrow>
         rollup_slots env max_slots slots (outcome\<lparr>ro_blocked_slots := ro_blocked_slots outcome + 1\<rparr>) s')"

definition rollup_terminal_count_deltas ::
  "(int \<Rightarrow> maint_env) \<Rightarrow> nat \<Rightarrow> store \<Rightarrow> (awa_error + delta_rollup_outcome) \<times> store" where
  "rollup_terminal_count_deltas env max_slots s =
    (if max_slots = 0 then (Inr delta_rollup_default, s)
     else case terminal_delta_rollup_candidates s of
       Inl e \<Rightarrow> (Inl e, s)
     | Inr slots \<Rightarrow> rollup_slots env max_slots slots delta_rollup_default s)"


subsection \<open>Rollups of pruned counts\<close>

text \<open>The grouping both functions share: rows without a change are skipped.\<close>

definition group_rollups :: "(string \<times> int \<times> int \<times> int) list \<Rightarrow> (string \<times> int, int \<times> int) omap" where
  "group_rollups deltas =
    foldl (\<lambda>m (queue, priority, c, f).
             if c = 0 \<and> f = 0 then m
             else omap_update (queue, priority) (0, 0) (\<lambda>(c0, f0). (c0 + c, f0 + f)) m) [] deltas"

definition upsert_rollup :: "(string \<times> int) \<times> (int \<times> int) \<Rightarrow> (string \<times> int, int \<times> int) omap \<Rightarrow>
    (string \<times> int, int \<times> int) omap" where
  "upsert_rollup kd m =
    (case map_of m (fst kd) of
       None \<Rightarrow> omap_insert (fst kd) (snd kd) m
     | Some (c, f) \<Rightarrow> omap_insert (fst kd) (max 0 (c + fst (snd kd)), max 0 (f + snd (snd kd))) m)"

definition adjust_terminal_rollups_batch :: "(string \<times> int \<times> int \<times> int) list \<Rightarrow> unit tx" where
  "adjust_terminal_rollups_batch deltas =
    (let grouped = group_rollups deltas in
     if grouped = [] then tx_ret ()
     else tx_set (\<lambda>s. s\<lparr>s_rollups := foldl (\<lambda>m kd. upsert_rollup kd m) (s_rollups s) grouped\<rparr>))"

definition append_terminal_rollup_deltas_tx :: "(string \<times> int \<times> int \<times> int) list \<Rightarrow> unit tx" where
  "append_terminal_rollup_deltas_tx deltas =
    (let grouped = group_rollups deltas in
     if grouped = [] then tx_ret ()
     else tx_set (\<lambda>s. s\<lparr>s_rollup_deltas := s_rollup_deltas s @
            map (\<lambda>((queue, priority), (c, f)). (queue, priority, c, f)) grouped\<rparr>))"

record rollup_fold_outcome =
  rf_folded_delta_rows :: nat
  rf_folded_keys :: nat
  rf_skipped_mvcc_pinned :: bool

definition fold_terminal_rollup_deltas :: "bool \<Rightarrow> rollup_fold_outcome tx" where
  "fold_terminal_rollup_deltas pinned =
    (if pinned then tx_ret \<lparr> rf_folded_delta_rows = 0, rf_folded_keys = 0, rf_skipped_mvcc_pinned = True \<rparr>
     else
       tx_bind (tx_get s_rollup_deltas) (\<lambda>deltas.
       tx_bind (tx_set (\<lambda>s. s\<lparr>s_rollup_deltas := []\<rparr>)) (\<lambda>_.
       if deltas = []
       then tx_ret \<lparr> rf_folded_delta_rows = 0, rf_folded_keys = 0, rf_skipped_mvcc_pinned = False \<rparr>
       else
         tx_bind (adjust_terminal_rollups_batch deltas) (\<lambda>_.
           tx_ret \<lparr> rf_folded_delta_rows = length deltas,
                    rf_folded_keys = length (remdups (map (\<lambda>(q, p, _). (q, p)) deltas)),
                    rf_skipped_mvcc_pinned = False \<rparr>))))"

subsection \<open>Pruning the queue ring\<close>

text \<open>
  Timestamps count milliseconds and the retention is in whole seconds, as \<^verbatim>\<open>as_secs\<close> makes it.
\<close>

definition retention_secs :: "millis \<Rightarrow> int" where
  "retention_secs failed_retention = min (failed_retention div 1000) (2 ^ 63 - 1)"

definition within_floor :: "int \<Rightarrow> timestamp \<Rightarrow> done_entry \<Rightarrow> bool" where
  "within_floor secs now d \<longleftrightarrow> de_state d = Failed \<and> de_finalized_at d \<ge> now - secs * 1000"

definition slot_done :: "int \<Rightarrow> store \<Rightarrow> done_entry list" where
  "slot_done slot s = filter (\<lambda>d. de_ready_slot d = slot) (s_done s)"

definition carried_entry :: "store \<Rightarrow> int \<times> int \<Rightarrow> done_entry \<Rightarrow> done_entry" where
  "carried_entry s cursor d =
    (let row = (read_done_row s d)\<lparr>dn_ready_slot := fst cursor, dn_ready_generation := snd cursor\<rparr>
     in (store_synthetic row None)\<lparr>de_payload := Some (r_payload row)\<rparr>)"

definition carried_key :: "int \<times> int \<Rightarrow> done_entry \<Rightarrow> terminal_counter_key" where
  "carried_key cursor d =
    (fst cursor, snd cursor, de_queue d, de_priority d, de_enqueue_shard d,
     terminal_counter_bucket (de_job_id d))"

definition carry_failed_rows :: "int \<Rightarrow> int \<times> int \<Rightarrow> int \<Rightarrow> nat tx" where
  "carry_failed_rows secs cursor slot =
    (if secs > 0 then
       tx_bind (tx_get (\<lambda>s. filter (within_floor secs (s_now s)) (slot_done slot s))) (\<lambda>carried.
       tx_bind (tx_get (\<lambda>s. map (carried_entry s cursor) carried)) (\<lambda>entries.
       tx_bind (tx_for insert_done_entry entries) (\<lambda>_.
       if carried \<noteq> [] then
         tx_bind (tx_set (\<lambda>s. s\<lparr>s_count_deltas := s_count_deltas s @
                    group_deltas (map (\<lambda>d. (carried_key cursor d, 1)) carried)\<rparr>))
           (\<lambda>_. tx_ret (length carried))
       else tx_ret 0)))
     else tx_ret 0)"

definition receipt_removed :: "store \<Rightarrow> receipt_completion_batch \<Rightarrow> completion_item \<Rightarrow> bool" where
  "receipt_removed s b i \<longleftrightarrow>
    (\<exists>x \<in> set (s_receipt_tombs s). rx_ready_slot x = rc_ready_slot b \<and>
       rx_ready_generation x = rc_ready_generation b \<and> rx_job_id x = ci_job_id i \<and>
       rx_run_lease x = ci_run_lease i)"

text \<open>
  The counts of the partition about to be truncated, one row for each terminal row of it: (1, 0) for a
  row that is not failed, (0, 1) for a failed row outside the floor.
\<close>

definition pruned_terminal_counts :: "int \<Rightarrow> int \<Rightarrow> store \<Rightarrow> (string \<times> int \<times> int \<times> int) list" where
  "pruned_terminal_counts secs slot s =
    map (\<lambda>d. (de_queue d, de_priority d,
               if de_state d \<noteq> Failed then 1 else 0,
               if de_state d = Failed \<and> \<not> (secs > 0 \<and> within_floor secs (s_now s) d) then 1 else 0))
      (slot_done slot s) @
    concat (map (\<lambda>b. map (\<lambda>i. (rc_queue b, rc_priority b, 1, 0))
                        (filter (\<lambda>i. \<not> receipt_removed s b i) (rc_items b)))
      (filter (\<lambda>b. rc_ready_slot b = slot) (s_receipt_batches s)))"

definition truncate_queue_slot :: "int \<Rightarrow> store \<Rightarrow> store" where
  "truncate_queue_slot slot s =
    s\<lparr>s_ready := filter (\<lambda>r. rt_ready_slot r \<noteq> slot) (s_ready s),
      s_claim_attempts := filter (\<lambda>b. cb_ready_slot b \<noteq> slot) (s_claim_attempts s),
      s_done := filter (\<lambda>d. de_ready_slot d \<noteq> slot) (s_done s),
      s_ready_tombs := filter (\<lambda>t. tm_ready_slot t \<noteq> slot) (s_ready_tombs s),
      s_segments := filter (\<lambda>g. fst g \<noteq> slot) (s_segments s),
      s_receipt_batches := filter (\<lambda>b. rc_ready_slot b \<noteq> slot) (s_receipt_batches s),
      s_receipt_tombs := filter (\<lambda>x. rx_ready_slot x \<noteq> slot) (s_receipt_tombs s),
      s_count_deltas := filter (\<lambda>kd. delta_slot (fst kd) \<noteq> slot) (s_count_deltas s)\<rparr>"

definition prune_slot :: "int \<Rightarrow> int \<times> int \<Rightarrow> int \<Rightarrow> nat tx" where
  "prune_slot secs cursor slot =
    tx_bind (carry_failed_rows secs cursor slot) (\<lambda>carried.
    tx_bind (tx_get (pruned_terminal_counts secs slot)) (\<lambda>counts.
    tx_bind (tx_set (truncate_queue_slot slot)) (\<lambda>_.
    tx_bind (if counts \<noteq> [] then append_terminal_rollup_deltas_tx counts else tx_ret ()) (\<lambda>_.
    tx_bind (tx_set (\<lambda>s. s\<lparr>s_live_counts :=
               filter (\<lambda>kc. fst (fst kc) \<noteq> slot) (s_live_counts s)\<rparr>)) (\<lambda>_.
      tx_ret carried)))))"

definition queue_prune_gates :: "int \<Rightarrow> int \<Rightarrow> store \<Rightarrow> skip_reason option" where
  "queue_prune_gates slot gen s =
    (if queue_prune_has_active_leases s slot gen then Some QueueActiveLeases
     else if queue_prune_has_pending_ready s slot gen then Some QueuePendingReady
     else if queue_prune_has_unclosed_claim_refs s slot gen then Some QueueUnclosedClaimRefs
     else None)"

definition prune_oldest :: "maint_env \<Rightarrow> millis \<Rightarrow> store \<Rightarrow> (awa_error + prune_outcome) \<times> store" where
  "prune_oldest env failed_retention s =
    (let authority = s_authority s; ring = s_queue_ring s; secs = retention_secs failed_retention in
     case ring_cursor authority ring of
       Inl e \<Rightarrow> (Inl e, s)
     | Inr cursor \<Rightarrow>
         (case oldest_initialized_ring_slot (fst cursor) (snd cursor) (rs_slot_count ring) of
            None \<Rightarrow> (Inr Noop, s)
          | Some (slot, gen) \<Rightarrow>
              if \<not> acquire_queue_serializer env s then (Inr (Blocked slot), s)
              else if map_of (rs_slots ring) slot = None then (Inr Noop, s)
              else (case queue_prune_gates slot gen s of
                Some reason \<Rightarrow> (Inr (SkippedActive slot reason (busy_indicator True)), s)
              | None \<Rightarrow>
                  let s1 = me_while_waiting env s in
                  (case me_lock_result env of
                     Some err \<Rightarrow> (lock_failed err slot, s1)
                   | None \<Rightarrow>
                       (case queue_prune_gates slot gen s1 of
                          Some reason \<Rightarrow> (Inr (SkippedActive slot reason (busy_indicator True)), s1)
                        | None \<Rightarrow>
                            (case prune_slot secs cursor slot s1 of
                               (Inl e, s2) \<Rightarrow> (Inl e, rollback s1 s2)
                             | (Inr carried, s2) \<Rightarrow>
                                 (case me_truncate_result env of
                                    Some err \<Rightarrow> (lock_failed err slot, rollback s1 s2)
                                  | None \<Rightarrow> (Inr (Pruned slot gen carried (me_durations env)), s2))))))))"

subsection \<open>Sums of deltas\<close>

definition dsum :: "('k \<Rightarrow> bool) \<Rightarrow> ('k \<times> int) list \<Rightarrow> int" where
  "dsum P l = sum_list (map snd (filter (\<lambda>kd. P (fst kd)) l))"

lemma dsum_simps [simp]:
  "dsum P [] = 0" "dsum P (kd # l) = (if P (fst kd) then snd kd else 0) + dsum P l"
  "dsum P (l @ l') = dsum P l + dsum P l'"
  by (simp_all add: dsum_def)

lemma dsum_nonzero [simp]: "dsum P (filter (\<lambda>kd. snd kd \<noteq> 0) l) = dsum P l"
  by (induction l) auto

lemma dsum_omap_insert:
  "omap_wf m \<Longrightarrow> dsum P (omap_insert k v m) = dsum P m + (if P k then v - or_default (map_of m k) 0 else 0)"
proof (induction k v m rule: omap_insert.induct)
  case (2 k v k' v' m)
  have less: "k < k' \<Longrightarrow> map_of ((k', v') # m) k = None"
    using 2 by (auto simp: omap_wf_def map_of_eq_None_iff dest: order_less_trans)
  have wf: "omap_wf m" using 2 by (simp add: omap_wf_def)
  consider "k < k'" | "k = k'" | "\<not> k < k'" "k \<noteq> k'" by auto
  then show ?case
  proof cases
    case 1
    then show ?thesis using less by (simp add: or_default_def)
  next
    case 2
    then show ?thesis by (simp add: or_default_def)
  next
    case 3
    then show ?thesis using 2(1) [OF 3(1,2) wf] by simp
  qed
qed (simp add: or_default_def)

lemma add_delta_wf [simp, intro]: "omap_wf m \<Longrightarrow> omap_wf (add_delta kd m)"
  by (simp add: add_delta_def)

lemma dsum_add_delta: "omap_wf m \<Longrightarrow> dsum P (add_delta kd m) = dsum P m + (if P (fst kd) then snd kd else 0)"
  by (auto simp: add_delta_def omap_update_def dsum_omap_insert or_default_def split: option.split)

lemma group_deltas_fold:
  "omap_wf m \<Longrightarrow> omap_wf (foldl (\<lambda>m kd. add_delta kd m) m kds) \<and>
     dsum P (foldl (\<lambda>m kd. add_delta kd m) m kds) = dsum P m + dsum P kds"
  by (induction kds arbitrary: m) (auto simp: dsum_add_delta)

lemma group_deltas_wf [simp]: "omap_wf (group_deltas kds)"
  using group_deltas_fold [of "[]" kds "\<lambda>_. True"] by (simp add: group_deltas_def)

lemma dsum_group [simp]: "dsum P (group_deltas kds) = dsum P kds"
  using group_deltas_fold [of "[]" kds P] by (simp add: group_deltas_def)

lemma dsum_map_fst: "dsum P (map (\<lambda>(k, d). (f k, d)) kds) = dsum (\<lambda>k. P (f k)) kds"
  by (induction kds) auto

lemma dsum_ones: "dsum P (map (\<lambda>x. (f x, 1)) xs) = int (length (filter (\<lambda>x. P (f x)) xs))"
  by (induction xs) auto

lemma dsum_minus_ones: "dsum P (map (\<lambda>x. (f x, - 1)) xs) = - int (length (filter (\<lambda>x. P (f x)) xs))"
  by (induction xs) auto

lemma dsum_filter: "dsum P (filter (\<lambda>kd. Q (fst kd)) l) = dsum (\<lambda>k. P k \<and> Q k) l"
  by (induction l) auto

lemma dsum_map_of: "distinct (map fst l) \<Longrightarrow> dsum (\<lambda>k'. k' = k) l = or_default (map_of l k) 0"
proof (induction l)
  case (Cons kd l)
  have "k \<notin> set (map fst l) \<Longrightarrow> dsum (\<lambda>k'. k' = k) l = 0"
    by (induction l) auto
  with Cons show ?case by (cases kd) (auto simp: or_default_def)
qed (simp add: or_default_def)


subsection \<open>Exact counters\<close>

definition done_lane :: "done_entry \<Rightarrow> int \<times> string \<times> int \<times> int" where
  "done_lane d = (de_ready_slot d, de_queue d, de_priority d, de_enqueue_shard d)"

definition entry_key :: "done_entry \<Rightarrow> terminal_counter_key" where
  "entry_key d =
    (de_ready_slot d, de_ready_generation d, de_queue d, de_priority d, de_enqueue_shard d,
     terminal_counter_bucket (de_job_id d))"

definition exact_by ::
  "(live_counter_key \<Rightarrow> 'k) \<Rightarrow> (terminal_counter_key \<Rightarrow> 'k) \<Rightarrow> (done_entry \<Rightarrow> 'k) \<Rightarrow> store \<Rightarrow> bool" where
  "exact_by live delta entry s \<longleftrightarrow>
    (\<forall>k. dsum (\<lambda>l. live l = k) (s_live_counts s) + dsum (\<lambda>d. delta d = k) (s_count_deltas s) =
         int (length (filter (\<lambda>d. entry d = k) (s_done s))))"

text \<open>
  The counters agree with the terminal rows: lane by lane under the ledger, and bucket by bucket of a
  lane while the columns are authoritative.
\<close>

definition counters_exact :: "store \<Rightarrow> bool" where
  "counters_exact s \<longleftrightarrow>
    distinct (map fst (s_live_counts s)) \<and>
    (case s_authority s of
       Columns \<Rightarrow> exact_by id delta_live_key (live_key False) s
     | Ledger \<Rightarrow> exact_by live_lane delta_lane done_lane s)"

text \<open>
  The two views of a counter as one interface: what a live row, a delta and a terminal row are counted under.
\<close>

locale counter_view =
  fixes live :: "live_counter_key \<Rightarrow> 'k"
    and delta :: "terminal_counter_key \<Rightarrow> 'k"
    and entry :: "done_entry \<Rightarrow> 'k"
    and slot_of :: "'k \<Rightarrow> int"
    and auth :: ring_authority
  assumes delta_entry: "delta (entry_key d) = entry d"
    and delta_bucketed: "delta (bucketed (auth = Ledger) k) = delta k"
    and slot_live: "slot_of (live l) = fst l"
    and slot_delta: "slot_of (delta k) = delta_slot k"
    and slot_entry: "slot_of (entry d) = de_ready_slot d"
begin

lemma append_deltas:
  assumes "s_authority s = auth"
  shows "\<exists>ds. append_terminal_count_deltas_tx g s = (Inr (), s\<lparr>s_count_deltas := s_count_deltas s @ ds\<rparr>) \<and>
    (\<forall>k. dsum (\<lambda>d. delta d = k) ds = dsum (\<lambda>d. delta d = k) g)"
proof (cases "filter (\<lambda>kd. snd kd \<noteq> 0) g = []")
  case True
  then have "dsum P g = 0" for P using dsum_nonzero [of P g] by simp
  then show ?thesis
    using True by (intro exI [of _ "[]"]) (simp add: append_terminal_count_deltas_tx_def tx_simps)
next
  case False
  let ?ds = "filter (\<lambda>kd. snd kd \<noteq> 0)
    (group_deltas (map (\<lambda>(k, d). (bucketed (s_authority s = Ledger) k, d)) (filter (\<lambda>kd. snd kd \<noteq> 0) g)))"
  have "dsum (\<lambda>d. delta d = k) ?ds = dsum (\<lambda>d. delta d = k) g" for k
    by (simp add: dsum_map_fst assms delta_bucketed)
  with False show ?thesis
    by (intro exI [of _ ?ds]) (simp add: append_terminal_count_deltas_tx_def tx_simps Let_def)
qed

text \<open>Terminal rows appended with their deltas, and terminal rows removed with theirs.\<close>

lemma exact_append:
  assumes "exact_by live delta entry s" "s_live_counts s' = s_live_counts s" "s_done s' = s_done s @ new"
    "s_count_deltas s' = s_count_deltas s @ ds"
    "\<And>k. dsum (\<lambda>d. delta d = k) ds = int (length (filter (\<lambda>d. entry d = k) new))"
  shows "exact_by live delta entry s'"
  using assms by (simp add: exact_by_def)

lemma exact_remove:
  assumes "exact_by live delta entry s" "s_live_counts s' = s_live_counts s"
    "s_done s' = filter (\<lambda>d. \<not> P d) (s_done s)" "s_count_deltas s' = s_count_deltas s @ ds"
    "\<And>k. dsum (\<lambda>d. delta d = k) ds = - int (length (filter (\<lambda>d. entry d = k) (filter P (s_done s))))"
  shows "exact_by live delta entry s'"
proof -
  have "length (filter Q xs) = length (filter Q (filter P xs)) + length (filter Q (filter (\<lambda>d. \<not> P d) xs))" for Q xs
    by (induction xs) auto
  note split = this [of "\<lambda>d. entry d = _" "s_done s"]
  show ?thesis
    unfolding exact_by_def assms(2-4)
  proof
    fix k
    show "dsum (\<lambda>l. live l = k) (s_live_counts s) + dsum (\<lambda>d. delta d = k) (s_count_deltas s @ ds) =
        int (length (filter (\<lambda>d. entry d = k) (filter (\<lambda>d. \<not> P d) (s_done s))))"
      using assms(1) [unfolded exact_by_def, rule_format, of k] assms(5) [of k] split [of k] by simp
  qed
qed

text \<open>A whole slot dropped from all three tables.\<close>

lemma exact_drop_slot:
  assumes "exact_by live delta entry s"
    "s_live_counts s' = filter (\<lambda>kc. fst (fst kc) \<noteq> slot) (s_live_counts s)"
    "s_done s' = filter (\<lambda>d. de_ready_slot d \<noteq> slot) (s_done s)"
    "s_count_deltas s' = filter (\<lambda>kd. delta_slot (fst kd) \<noteq> slot) (s_count_deltas s)"
  shows "exact_by live delta entry s'"
  unfolding exact_by_def
proof
  fix k
  have l: "(live l = k \<and> fst l \<noteq> slot) = (live l = k \<and> slot_of k \<noteq> slot)" for l using slot_live [of l] by metis
  have d: "(delta d = k \<and> delta_slot d \<noteq> slot) = (delta d = k \<and> slot_of k \<noteq> slot)" for d using slot_delta [of d] by metis
  have e: "(entry d = k \<and> de_ready_slot d \<noteq> slot) = (entry d = k \<and> slot_of k \<noteq> slot)" for d using slot_entry [of d] by metis
  have ls: "dsum (\<lambda>l. live l = k) (s_live_counts s') = dsum (\<lambda>l. live l = k \<and> slot_of k \<noteq> slot) (s_live_counts s)"
    unfolding assms(2) dsum_filter [of _ "\<lambda>l. fst l \<noteq> slot"] l ..
  have ds: "dsum (\<lambda>d. delta d = k) (s_count_deltas s') = dsum (\<lambda>d. delta d = k \<and> slot_of k \<noteq> slot) (s_count_deltas s)"
    unfolding assms(4) dsum_filter [of _ "\<lambda>d. delta_slot d \<noteq> slot"] d ..
  have es: "filter (\<lambda>d. entry d = k) (s_done s') = filter (\<lambda>d. entry d = k \<and> slot_of k \<noteq> slot) (s_done s)"
    unfolding assms(3) filter_filter by (rule filter_cong) (use e in \<open>auto simp: conj_commute\<close>)
  show "dsum (\<lambda>l. live l = k) (s_live_counts s') + dsum (\<lambda>d. delta d = k) (s_count_deltas s') =
      int (length (filter (\<lambda>d. entry d = k) (s_done s')))"
    using assms(1) unfolding ls ds es exact_by_def by (cases "slot_of k = slot") (simp_all add: dsum_def)
qed

end

interpretation bucket_view: counter_view id delta_live_key "live_key False" fst Columns
  by unfold_locales (auto simp: entry_key_def live_key_def elim!: delta_live_key.elims split: prod.splits)

interpretation lane_view: counter_view live_lane delta_lane done_lane fst Ledger
  by unfold_locales (auto simp: entry_key_def done_lane_def split: prod.splits)

lemma counters_exact_Columns:
  "s_authority s = Columns \<Longrightarrow> counters_exact s \<longleftrightarrow>
     distinct (map fst (s_live_counts s)) \<and> exact_by id delta_live_key (live_key False) s"
  by (simp add: counters_exact_def)

lemma counters_exact_Ledger:
  "s_authority s = Ledger \<Longrightarrow> counters_exact s \<longleftrightarrow>
     distinct (map fst (s_live_counts s)) \<and> exact_by live_lane delta_lane done_lane s"
  by (simp add: counters_exact_def)

text \<open>
  What an operation may do to the three tables without spoiling exactness, for whichever view is in force: append
  rows with their deltas or remove rows with theirs.
\<close>

definition counted :: "store \<Rightarrow> (terminal_counter_key \<times> int) list \<Rightarrow> done_entry list \<Rightarrow> bool" where
  "counted s ds es \<longleftrightarrow>
    (case s_authority s of
       Columns \<Rightarrow> (\<forall>k. dsum (\<lambda>d. delta_live_key d = k) ds = int (length (filter (\<lambda>d. live_key False d = k) es)))
     | Ledger \<Rightarrow> (\<forall>k. dsum (\<lambda>d. delta_lane d = k) ds = int (length (filter (\<lambda>d. done_lane d = k) es))))"

lemma counters_append:
  assumes "counters_exact s" "s_authority s' = s_authority s" "s_live_counts s' = s_live_counts s"
    "s_done s' = s_done s @ new" "s_count_deltas s' = s_count_deltas s @ ds" "counted s ds new"
  shows "counters_exact s'"
  using assms bucket_view.exact_append [of s s' new ds] lane_view.exact_append [of s s' new ds]
  by (cases "s_authority s") (simp_all add: counters_exact_def counted_def)

lemma counters_remove:
  assumes "counters_exact s" "s_authority s' = s_authority s" "s_live_counts s' = s_live_counts s"
    "s_done s' = filter (\<lambda>d. \<not> P d) (s_done s)" "s_count_deltas s' = s_count_deltas s @ ds"
    "counted s (map (\<lambda>(k, d). (k, - d)) ds) (filter P (s_done s))"
  shows "counters_exact s'"
proof -
  have neg: "dsum Q (map (\<lambda>(k, d). (k, - d)) ds) = - dsum Q ds" for Q :: "terminal_counter_key \<Rightarrow> bool"
    by (induction ds) auto
  have flip: "(- x = int n) = (x = - int n)" for x n by auto
  show ?thesis
    using assms bucket_view.exact_remove [of s s' P ds] lane_view.exact_remove [of s s' P ds]
    by (cases "s_authority s") (simp_all add: counters_exact_def counted_def neg flip)
qed

lemma counted_entries:
  assumes "s_authority s = a"
  shows "counted s (map (\<lambda>d. (bucketed (a = Ledger) (entry_key d), 1)) es) es"
    and "counted s (map (\<lambda>d. (entry_key d, 1)) es) es"
  using assms
  by (cases a; simp add: counted_def dsum_ones [of _ "\<lambda>d. bucketed _ (entry_key d)"] dsum_ones [of _ entry_key]
      bucket_view.delta_entry lane_view.delta_entry bucket_view.delta_bucketed [simplified]
      lane_view.delta_bucketed [simplified])+

lemma append_deltas_counted:
  "\<exists>ds. append_terminal_count_deltas_tx g s = (Inr (), s\<lparr>s_count_deltas := s_count_deltas s @ ds\<rparr>) \<and>
     (\<forall>es. counted s g es \<longrightarrow> counted s ds es) \<and>
     (\<forall>es. counted s (map (\<lambda>(k, d). (k, - d)) g) es \<longrightarrow> counted s (map (\<lambda>(k, d). (k, - d)) ds) es)"
proof -
  have neg: "dsum Q (map (\<lambda>(k, d). (k, - d)) xs) = - dsum Q xs" for Q :: "terminal_counter_key \<Rightarrow> bool" and xs
    by (induction xs) auto
  show ?thesis
  proof (cases "s_authority s")
    case Columns
    then show ?thesis using bucket_view.append_deltas [of s g] by (auto simp: counted_def neg)
  next
    case Ledger
    then show ?thesis using lane_view.append_deltas [of s g] by (auto simp: counted_def neg)
  qed
qed

subsection \<open>Terminal inserts keep the counters exact\<close>

text \<open>The unique-claim loop changes nothing but the claims.\<close>

definition claims_only :: "store \<Rightarrow> store \<Rightarrow> bool" where
  "claims_only s s' \<longleftrightarrow> s'\<lparr>s_claims := s_claims s\<rparr> = s"

lemma claims_only_iff: "claims_only s s' \<longleftrightarrow> (\<exists>m. s' = s\<lparr>s_claims := m\<rparr>)"
  by (cases s; cases s') (auto simp: claims_only_def)

interpretation claims_rel: tx_relation claims_only
  by unfold_locales (simp add: claims_only_def, auto simp: claims_only_iff)

lemma sync_rows_claims_only: "tx_keeps claims_only (sync_rows f old rows)"
proof -
  have "tx_keeps claims_only (acquire_claim key j)" for key j
    by (auto simp: tx_keeps_def acquire_claim_def claims_only_def split: option.split)
  then show ?thesis
    unfolding sync_rows_def sync_unique_claim_def Let_def release_claim_def
    by (intro claims_rel.keeps_for claims_rel.keeps_bind claims_rel.keeps_basic claims_rel.keeps_if
        claims_rel.keeps_option claims_rel.keeps_set) (auto simp: claims_only_def)
qed

lemma insert_done_entries:
  "tx_for (\<lambda>x. insert_done_entry (f x)) xs s = (Inr us, s') \<Longrightarrow> s' = s\<lparr>s_done := s_done s @ map f xs\<rparr>"
  by (induction xs arbitrary: s us)
    (fastforce simp: tx_simps tx_bind_Inr insert_done_entry_def split: if_splits)+

lemma stored_key [simp]:
  "entry_key (store_ready_backed row p) = counter_key row" "entry_key (store_synthetic row p) = counter_key row"
  by (simp_all add: entry_key_def counter_key_def store_ready_backed_def store_synthetic_def)

lemma dsum_units: "dsum P (map (\<lambda>x. (f x, 1)) xs) = int (size (filter_mset P (mset (map f xs))))"
  by (induction xs) auto

lemma counted_mset:
  assumes "mset (map f xs) = mset (map entry_key es)"
  shows "counted s (group_deltas (map (\<lambda>x. (f x, 1)) xs)) es"
proof -
  have "size (filter_mset (\<lambda>k. P k) (mset (map entry_key es))) = length (filter (\<lambda>d. P (entry_key d)) es)" for P
    by (induction es) auto
  then show ?thesis
    by (simp add: counted_def dsum_units assms bucket_view.delta_entry lane_view.delta_entry del: mset_map
        split: ring_authority.split)
qed

lemma increment_counted:
  assumes "mset (map counter_key rows) = mset (map entry_key es)"
  shows "\<exists>ds. increment_live_terminal_counters_tx rows s = (Inr (), s\<lparr>s_count_deltas := s_count_deltas s @ ds\<rparr>) \<and>
    counted s ds es"
proof (cases "rows = []")
  case True
  then have "es = []" using assms by simp
  then show ?thesis using True
    by (intro exI [of _ "[]"])
      (simp add: increment_live_terminal_counters_tx_def tx_simps counted_def split: ring_authority.split)
next
  case False
  show ?thesis
    using append_deltas_counted [of "group_deltas (map (\<lambda>row. (counter_key row, 1)) rows)" s] counted_mset [OF assms]
    unfolding increment_live_terminal_counters_tx_def if_not_P [OF False] by blast
qed

lemma mset_partition: "mset (map f (filter P xs)) + mset (map f (filter (\<lambda>x. \<not> P x) xs)) = mset (map f xs)"
  by (induction xs) auto

lemma insert_done_rows_result:
  assumes run: "insert_done_rows_tx rows old s = (Inr n, s')" and ne: "rows \<noteq> []"
  shows "\<exists>rp m es ds. s' = s\<lparr>s_claims := m, s_done := s_done s @ es, s_count_deltas := s_count_deltas s @ ds\<rparr> \<and>
    counted s ds es \<and> length es = length rows \<and>
    set es = (\<lambda>row. if keep_ready_backing old \<and> dn_lane_seq row \<ge> 0 then store_ready_backed row (rp row)
                    else store_synthetic row (rp row)) ` set rows"
proof -
  define ordered where "ordered = sort_key (\<lambda>row. (done_ready_key row, r_job_id row)) rows"
  define backed where "backed = (\<lambda>row::done_job_row. keep_ready_backing old \<and> dn_lane_seq row \<ge> 0)"
  obtain u s1 where s1: "sync_rows dn_state old rows s = (Inr u, s1)"
    using run ne by (auto simp: insert_done_rows_tx_def tx_bind_Inr)
  obtain m where m: "s1 = s\<lparr>s_claims := m\<rparr>"
    using claims_rel.keepsD [OF sync_rows_claims_only s1] by (auto simp: claims_only_iff)
  define rp where "rp = (if \<exists>row \<in> set rows. \<not> is_storage_payload_empty (r_payload row)
                         then ready_payloads_for_done_rows s1 else (\<lambda>_. None))"
  define es where "es = map (\<lambda>row. store_ready_backed row (rp row)) (filter backed ordered) @
    map (\<lambda>row. store_synthetic row (rp row)) (filter (\<lambda>row. \<not> backed row) ordered)"
  have entry: "map entry_key (map (\<lambda>row. store_ready_backed row (rp row)) xs) = map counter_key xs"
    "map entry_key (map (\<lambda>row. store_synthetic row (rp row)) xs) = map counter_key xs" for xs by simp_all
  have keys: "mset (map counter_key rows) = mset (map entry_key es)"
    unfolding es_def map_append mset_append entry mset_partition by (simp add: ordered_def)
  obtain s2 where s2: "s2 = s1\<lparr>s_done := s_done s1 @ es\<rparr>"
    "increment_live_terminal_counters_tx rows s2 = (Inr (), s')"
    using run ne s1
    by (auto simp: insert_done_rows_tx_def tx_simps tx_bind_Inr Let_def es_def simp flip: ordered_def backed_def rp_def
        dest!: insert_done_entries)
  obtain ds where ds: "s' = s2\<lparr>s_count_deltas := s_count_deltas s2 @ ds\<rparr>" "counted s2 ds es"
    using increment_counted [OF keys, of s2] s2 by auto
  have len: "length es = length rows"
    by (simp add: es_def sum_length_filter_compl) (simp add: ordered_def)
  have "set es = (\<lambda>row. if backed row then store_ready_backed row (rp row) else store_synthetic row (rp row)) ` set rows"
    by (auto simp: es_def ordered_def)
  then show ?thesis
    using ds s2(1) len by (intro exI [of _ rp] exI [of _ m] exI [of _ es] exI [of _ ds])
      (simp add: m counted_def backed_def)
qed

subsection \<open>Folding deltas keeps the counters exact\<close>

lemma live_lane_key [simp]: "live_lane (lane_live_key lane) = lane"
  by (cases lane) simp

lemma nonzero_map_of:
  "distinct (map fst g) \<Longrightarrow> distinct (map fst (filter (\<lambda>kd. snd kd \<noteq> 0) g))"
  by (induction g) auto


lemma grouped_deltas:
  fixes f :: "'a \<Rightarrow> 'k::linorder" and deltas :: "('a \<times> int) list"
  defines "g \<equiv> filter (\<lambda>kd. snd kd \<noteq> 0) (group_deltas (map (\<lambda>(k, d). (f k, d)) deltas))"
  shows "distinct (map fst g)" "dsum (\<lambda>k'. f k' = k) deltas = or_default (map_of g k) 0"
proof -
  show dist: "distinct (map fst g)"
    unfolding g_def by (intro nonzero_map_of omap_wf_distinct) simp
  have "dsum (\<lambda>k'. k' = k) g = dsum (\<lambda>k'. f k' = k) deltas"
    by (simp add: g_def dsum_map_fst)
  then show "dsum (\<lambda>k'. f k' = k) deltas = or_default (map_of g k) 0"
    by (simp add: dsum_map_of [OF dist])
qed

lemma dsum_lanes_out: "k \<notin> fst ` set g \<Longrightarrow> dsum (\<lambda>l. live_lane l = k) (map (\<lambda>(lane, d). (lane_live_key lane, v lane d)) g) = 0"
  by (induction g) auto

lemma dsum_lanes:
  "distinct (map fst g) \<Longrightarrow>
   dsum (\<lambda>l. live_lane l = k) (map (\<lambda>(lane, d). (lane_live_key lane, v lane d)) g) =
     (case map_of g k of None \<Rightarrow> 0 | Some d \<Rightarrow> v k d)"
  by (induction g) (auto simp: dsum_lanes_out simp del: map_of_eq_Some_iff split: option.split)

lemma fold_per_lane_sums:
  assumes dist: "distinct (map fst live)"
  shows "dsum (\<lambda>l. live_lane l = k) (fst (fold_per_lane deltas live)) =
      dsum (\<lambda>l. live_lane l = k) live + dsum (\<lambda>d. delta_lane d = k) deltas"
    and "distinct (map fst (fst (fold_per_lane deltas live)))"
proof -
  define g where "g = filter (\<lambda>kd. snd kd \<noteq> 0) (group_deltas (map (\<lambda>(k, d). (delta_lane k, d)) deltas))"
  define v where "v = (\<lambda>lane d. d + sum_list (map snd (filter (\<lambda>kc. live_lane (fst kc) = lane) live)))"
  note g = grouped_deltas [where f = delta_lane and deltas = deltas, folded g_def]
  have fold: "fst (fold_per_lane deltas live) =
      filter (\<lambda>kc. live_lane (fst kc) \<notin> fst ` set g) live @
      filter (\<lambda>kc. snd kc \<noteq> 0) (map (\<lambda>(lane, d). (lane_live_key lane, v lane d)) g)"
    by (simp add: fold_per_lane_def Let_def v_def flip: g_def)
  have untouched: "dsum (\<lambda>l. live_lane l = k) (filter (\<lambda>kc. live_lane (fst kc) \<notin> fst ` set g) live) =
      (if k \<in> fst ` set g then 0 else dsum (\<lambda>l. live_lane l = k) live)"
    by (induction live) auto
  have v: "v k d = d + dsum (\<lambda>l. live_lane l = k) live" for d by (simp add: v_def dsum_def)
  show "dsum (\<lambda>l. live_lane l = k) (fst (fold_per_lane deltas live)) =
      dsum (\<lambda>l. live_lane l = k) live + dsum (\<lambda>d. delta_lane d = k) deltas"
  proof (cases "map_of g k")
    case None
    then have "k \<notin> fst ` set g" by (simp add: map_of_eq_None_iff)
    then show ?thesis using None by (simp add: fold untouched dsum_lanes [OF g(1)] g(2) or_default_def)
  next
    case (Some d)
    then have "k \<in> fst ` set g" by (force dest: map_of_SomeD)
    then show ?thesis using Some by (simp add: fold untouched dsum_lanes [OF g(1)] g(2) or_default_def v)
  qed
  have keys: "distinct (map fst (map (\<lambda>(lane, d). (lane_live_key lane, v lane d)) g))"
  proof -
    have "map fst (map (\<lambda>(lane, d). (lane_live_key lane, v lane d)) g) = map lane_live_key (map fst g)"
      by (simp add: case_prod_beta)
    moreover have "inj_on lane_live_key A" for A by (rule inj_on_inverseI [of _ live_lane]) simp
    ultimately show ?thesis using g(1) by (simp add: distinct_map del: map_map)
  qed
  show "distinct (map fst (fst (fold_per_lane deltas live)))"
    unfolding fold map_append distinct_append
    using distinct_map_filter [OF dist] nonzero_map_of [OF keys] by (auto simp: image_iff)
qed

lemma map_of_bucket_update:
  "map_of (map (\<lambda>(k, n). case map_of g k of None \<Rightarrow> (k, n) | Some d \<Rightarrow> (k, f n d)) live) k =
     map_option (\<lambda>n. case map_of g k of None \<Rightarrow> n | Some d \<Rightarrow> f n d) (map_of live k)"
  by (induction live) (auto split: option.split)

lemma map_of_filter_keys:
  "distinct (map fst g) \<Longrightarrow> map_of (filter P g) k = (case map_of g k of None \<Rightarrow> None | Some d \<Rightarrow> if P (k, d) then Some d else None)"
  by (induction g) (auto simp: map_of_eq_None_iff simp del: map_of_eq_Some_iff split: option.split intro: rev_image_eqI)

lemma fold_per_bucket_sums:
  assumes dist: "distinct (map fst live)"
  shows "dsum (\<lambda>d. delta_live_key d = k) deltas = 0 \<or>
      0 \<le> dsum (\<lambda>l. l = k) live + dsum (\<lambda>d. delta_live_key d = k) deltas \<Longrightarrow>
      dsum (\<lambda>l. l = k) (fst (fold_per_bucket deltas live)) =
      dsum (\<lambda>l. l = k) live + dsum (\<lambda>d. delta_live_key d = k) deltas"
    and "distinct (map fst (fst (fold_per_bucket deltas live)))"
proof -
  define g where "g = filter (\<lambda>kd. snd kd \<noteq> 0) (group_deltas (map (\<lambda>(k, d). (delta_live_key k, d)) deltas))"
  note g = grouped_deltas [where f = delta_live_key and deltas = deltas, folded g_def]
  define upd where "upd = map (\<lambda>(k, n). case map_of g k of None \<Rightarrow> (k, n) | Some d \<Rightarrow> (k, max 0 (n + d))) live"
  define new where "new = filter (\<lambda>kd. snd kd > 0 \<and> fst kd \<notin> set (map fst live)) g"
  have fold: "fst (fold_per_bucket deltas live) = upd @ new"
    by (simp add: fold_per_bucket_def Let_def upd_def new_def flip: g_def)
  have upd: "map fst upd = map fst live"
    unfolding upd_def by (induction live) (auto split: option.split)
  show dist': "distinct (map fst (fst (fold_per_bucket deltas live)))"
  proof -
    have "distinct (map fst new)" unfolding new_def by (rule distinct_map_filter [OF g(1)])
    moreover have "fst ` set new \<subseteq> - (fst ` set live)"
      by (rule image_subsetI) (simp add: new_def)
    then have "fst ` set live \<inter> fst ` set new = {}" by (simp only: disjoint_eq_subset_Compl Int_commute [of "fst ` set live"])
    ultimately show ?thesis
      unfolding fold map_append distinct_append upd using dist by simp
  qed
  have new: "map_of new k = (case map_of g k of None \<Rightarrow> None
      | Some d \<Rightarrow> if d > 0 \<and> map_of live k = None then Some d else None)"
    unfolding new_def map_of_filter_keys [OF g(1)]
    by (cases "map_of g k") (simp_all add: map_of_eq_None_iff [of live])
  have nz: "map_of g k \<noteq> Some 0" using map_of_SomeD [of g k 0] by (auto simp: g_def)
  show "dsum (\<lambda>l. l = k) (fst (fold_per_bucket deltas live)) =
      dsum (\<lambda>l. l = k) live + dsum (\<lambda>d. delta_live_key d = k) deltas"
    if "dsum (\<lambda>d. delta_live_key d = k) deltas = 0 \<or>
      0 \<le> dsum (\<lambda>l. l = k) live + dsum (\<lambda>d. delta_live_key d = k) deltas"
    using that nz
    unfolding fold dsum_map_of [OF dist' [unfolded fold]] dsum_map_of [OF dist] g(2) map_of_append map_add_def new
    by (cases "map_of live k"; cases "map_of g k")
      (simp_all add: upd_def map_of_bucket_update or_default_def del: map_of_eq_Some_iff)
qed

lemma dsum_out: "(\<And>kd. kd \<in> set xs \<Longrightarrow> \<not> P (fst kd)) \<Longrightarrow> dsum P xs = 0"
  by (simp add: dsum_def filter_False)

lemma slot_deltas_parts:
  "dsum P (filter (\<lambda>kd. delta_slot (fst kd) \<noteq> slot) (s_count_deltas s)) + dsum P (slot_deltas slot s) =
     dsum P (s_count_deltas s)"
proof -
  have "dsum P (filter (\<lambda>kd. delta_slot (fst kd) \<noteq> slot) xs) + dsum P (filter (\<lambda>kd. delta_slot (fst kd) = slot) xs)
      = dsum P xs" for xs by (induction xs) auto
  then show ?thesis by (simp add: slot_deltas_def)
qed

lemma fold_slot_exact:
  assumes "exact_by live delta entry s"
    "\<And>k. dsum (\<lambda>l. live l = k) lc = dsum (\<lambda>l. live l = k) (s_live_counts s) + dsum (\<lambda>d. delta d = k) (slot_deltas slot s)"
  shows "exact_by live delta entry
    (s\<lparr>s_live_counts := lc, s_count_deltas := filter (\<lambda>kd. delta_slot (fst kd) \<noteq> slot) (s_count_deltas s)\<rparr>)"
  unfolding exact_by_def
proof
  fix k
  show "dsum (\<lambda>l. live l = k)
          (s_live_counts (s\<lparr>s_live_counts := lc, s_count_deltas := filter (\<lambda>kd. delta_slot (fst kd) \<noteq> slot) (s_count_deltas s)\<rparr>)) +
        dsum (\<lambda>d. delta d = k)
          (s_count_deltas (s\<lparr>s_live_counts := lc, s_count_deltas := filter (\<lambda>kd. delta_slot (fst kd) \<noteq> slot) (s_count_deltas s)\<rparr>)) =
        int (length (filter (\<lambda>d. entry d = k)
          (s_done (s\<lparr>s_live_counts := lc, s_count_deltas := filter (\<lambda>kd. delta_slot (fst kd) \<noteq> slot) (s_count_deltas s)\<rparr>))))"
    using assms(1) [unfolded exact_by_def, rule_format, of k] assms(2) [of k] slot_deltas_parts [of "\<lambda>d. delta d = k" slot s]
    by simp
qed

lemma fold_slot_deltas_exact:
  assumes exact: "counters_exact s" and auth: "s_authority s = authority"
    and one: "\<forall>kd \<in> set (slot_deltas slot s). delta_generation (fst kd) = gen"
  shows "counters_exact (snd (fold_slot_deltas authority slot gen s))"
proof -
  have deltas: "filter (\<lambda>kd. delta_generation (fst kd) = gen) (slot_deltas slot s) = slot_deltas slot s"
    using one by (simp add: filter_id_conv)

  have dist: "distinct (map fst (s_live_counts s))" using exact by (simp add: counters_exact_def)
  show ?thesis
  proof (cases authority)
    case Columns
    have bound: "dsum (\<lambda>d. delta_live_key d = k) (slot_deltas slot s) = 0 \<or>
        0 \<le> dsum (\<lambda>l. l = k) (s_live_counts s) + dsum (\<lambda>d. delta_live_key d = k) (slot_deltas slot s)" for k
    proof (cases "fst k = slot")
      case True
      then have "dsum (\<lambda>d. delta_live_key d = k) (filter (\<lambda>kd. delta_slot (fst kd) \<noteq> slot) (s_count_deltas s)) = 0"
        by (intro dsum_out) (auto simp: bucket_view.slot_delta [symmetric])
      then show ?thesis
        using slot_deltas_parts [of "\<lambda>d. delta_live_key d = k" slot s] exact auth Columns
        by (simp add: counters_exact_def exact_by_def)
    next
      case False
      then have "dsum (\<lambda>d. delta_live_key d = k) (slot_deltas slot s) = 0"
        by (intro dsum_out) (auto simp: slot_deltas_def bucket_view.slot_delta [symmetric])
      then show ?thesis ..
    qed
    have sums: "dsum (\<lambda>l. l = k) (fst (fold_per_bucket (slot_deltas slot s) (s_live_counts s))) =
        dsum (\<lambda>l. l = k) (s_live_counts s) + dsum (\<lambda>d. delta_live_key d = k) (slot_deltas slot s)" for k
      by (rule fold_per_bucket_sums(1) [OF dist bound])
    show ?thesis
      using fold_slot_exact [of id delta_live_key "live_key False" s "fst (fold_per_bucket (slot_deltas slot s) (s_live_counts s))" slot]
        sums fold_per_bucket_sums(2) [OF dist, of "slot_deltas slot s"] exact auth Columns
      by (simp add: fold_slot_deltas_def Let_def deltas counters_exact_def case_prod_beta)
  next
    case Ledger
    then show ?thesis
      using fold_slot_exact [of live_lane delta_lane done_lane s "fst (fold_per_lane (slot_deltas slot s) (s_live_counts s))" slot]
        fold_per_lane_sums(1) [OF dist] fold_per_lane_sums(2) [OF dist] exact auth
      by (simp add: fold_slot_deltas_def Let_def deltas counters_exact_def case_prod_beta)
  qed
qed

subsection \<open>Rebuild, flip and prune keep the counters exact\<close>

lemma counted_Nil [simp]: "counted s [] []"
  by (simp add: counted_def split: ring_authority.split)

lemma rebuild_terminal_counters_exact: "counters_exact (snd (rebuild_terminal_counters s))"
proof -
  have lane: "live_lane (live_key b d) = done_lane d" for b d by (simp add: live_key_def done_lane_def)
  show ?thesis
    by (simp add: rebuild_terminal_counters_def Let_def counters_exact_def exact_by_def omap_wf_distinct
        dsum_ones [of "\<lambda>l. live_lane l = _" "live_key True"] dsum_ones [of "\<lambda>l. l = _" "live_key False"] lane
        split: ring_authority.split)
qed

lemma dsum_sum:
  assumes "finite K" "f ` fst ` set l \<subseteq> K"
  shows "dsum (\<lambda>x. P (f x)) l = (\<Sum>k \<in> {k \<in> K. P k}. dsum (\<lambda>x. f x = k) l)"
  using assms(2)
proof (induction l)
  case (Cons kd l)
  have "(\<Sum>k \<in> {k \<in> K. P k}. if f (fst kd) = k then snd kd else 0) = (if P (f (fst kd)) then snd kd else 0)"
    using Cons.prems assms(1) by (subst sum.delta') auto
  then show ?case using Cons by (simp add: sum.distrib)
qed simp

lemma exact_by_coarser:
  fixes live :: "live_counter_key \<Rightarrow> 'k"
  assumes exact: "exact_by live delta entry s"
  shows "exact_by (\<lambda>l. g (live l)) (\<lambda>d. g (delta d)) (\<lambda>e. g (entry e)) s"
  unfolding exact_by_def
proof
  fix k
  define ones where "ones = map (\<lambda>d. (d, 1::int)) (s_done s)"
  define K where "K = live ` fst ` set (s_live_counts s) \<union> delta ` fst ` set (s_count_deltas s) \<union> entry ` fst ` set ones"
  have ones: "dsum P ones = int (length (filter P (s_done s)))" for P
    unfolding ones_def by (simp add: dsum_ones [of _ "\<lambda>d. d"])
  have K: "finite K" by (simp add: K_def)
  have sub: "live ` fst ` set (s_live_counts s) \<subseteq> K" "delta ` fst ` set (s_count_deltas s) \<subseteq> K"
    "entry ` fst ` set ones \<subseteq> K" by (auto simp: K_def)
  have pointwise: "dsum (\<lambda>l. live l = k') (s_live_counts s) + dsum (\<lambda>d. delta d = k') (s_count_deltas s) =
      dsum (\<lambda>d. entry d = k') ones" for k'
    using exact by (simp add: exact_by_def ones)
  have "dsum (\<lambda>l. g (live l) = k) (s_live_counts s) + dsum (\<lambda>d. g (delta d) = k) (s_count_deltas s) =
      dsum (\<lambda>d. g (entry d) = k) ones"
    unfolding dsum_sum [OF K sub(1), of "\<lambda>x. g x = k"] dsum_sum [OF K sub(2), of "\<lambda>x. g x = k"]
      dsum_sum [OF K sub(3), of "\<lambda>x. g x = k"] sum.distrib [symmetric] pointwise ..
  then show "dsum (\<lambda>l. g (live l) = k) (s_live_counts s) + dsum (\<lambda>d. g (delta d) = k) (s_count_deltas s) =
      int (length (filter (\<lambda>d. g (entry d) = k) (s_done s)))"
    by (simp add: ones)
qed

text \<open>Moving the ring's authority to the ledger coarsens the view and keeps the counters exact.\<close>

lemma flip_authority_exact:
  assumes "counters_exact s"
  shows "counters_exact (s\<lparr>s_authority := Ledger\<rparr>)"
proof -
  have lane: "live_lane (delta_live_key d) = delta_lane d" "live_lane (live_key False e) = done_lane e" for d e
    by (cases d) (simp_all add: live_key_def done_lane_def)
  show ?thesis
    using assms exact_by_coarser [of id delta_live_key "live_key False" s live_lane]
    by (cases "s_authority s") (simp_all add: counters_exact_def lane exact_by_def)
qed

lemma counters_drop_slot:
  assumes "counters_exact s" "s_authority s' = s_authority s"
    "s_live_counts s' = filter (\<lambda>kc. fst (fst kc) \<noteq> slot) (s_live_counts s)"
    "s_done s' = filter (\<lambda>d. de_ready_slot d \<noteq> slot) (s_done s)"
    "s_count_deltas s' = filter (\<lambda>kd. delta_slot (fst kd) \<noteq> slot) (s_count_deltas s)"
  shows "counters_exact s'"
  using assms bucket_view.exact_drop_slot [of s s' slot] lane_view.exact_drop_slot [of s s' slot]
    distinct_map_filter [of fst "s_live_counts s" "\<lambda>kc. fst (fst kc) \<noteq> slot"]
  by (cases "s_authority s") (simp_all add: counters_exact_def)

text \<open>What the prune of a slot does to the tables, once nothing in it fails.\<close>

definition carried_rows :: "int \<Rightarrow> int \<Rightarrow> store \<Rightarrow> done_entry list" where
  "carried_rows secs slot s = (if secs > 0 then filter (within_floor secs (s_now s)) (slot_done slot s) else [])"

lemma carried_entry_key: "entry_key (carried_entry s cursor d) = carried_key cursor d"
  by (simp add: carried_entry_def Let_def entry_key_def carried_key_def store_synthetic_def store_ready_backed_def
      read_done_row_def done_row_projection_def)

lemma carry_failed_rows_result:
  assumes "carry_failed_rows secs cursor slot s = (Inr n, s')"
  shows "n = length (carried_rows secs slot s) \<and>
    (\<exists>ds. s' = s\<lparr>s_done := s_done s @ map (carried_entry s cursor) (carried_rows secs slot s),
               s_count_deltas := s_count_deltas s @ ds\<rparr> \<and>
       counted s ds (map (carried_entry s cursor) (carried_rows secs slot s)))"
proof (cases "carried_rows secs slot s = []")
  case True
  then show ?thesis
    using assms
    by (intro conjI exI [of _ "[]"]) (auto simp: carry_failed_rows_def carried_rows_def tx_simps tx_bind_Inr split: if_splits)
next
  case False
  let ?c = "carried_rows secs slot s" and ?ds = "group_deltas (map (\<lambda>d. (carried_key cursor d, 1)) (carried_rows secs slot s))"
  have pos: "secs > 0" using False by (simp add: carried_rows_def split: if_splits)
  have eq: "filter (within_floor secs (s_now s)) (slot_done slot s) = ?c" using pos by (simp add: carried_rows_def)
  obtain us s1 where s1: "tx_for insert_done_entry (map (carried_entry s cursor) ?c) s = (Inr us, s1)"
    "n = length ?c" "s' = s1\<lparr>s_count_deltas := s_count_deltas s1 @ ?ds\<rparr>"
    using assms False pos by (auto simp: carry_failed_rows_def eq tx_simps tx_bind_Inr)
  have "s1 = s\<lparr>s_done := s_done s @ map (carried_entry s cursor) ?c\<rparr>"
    using insert_done_entries [of "\<lambda>x. x"] s1(1) by simp
  moreover have "counted s ?ds (map (carried_entry s cursor) ?c)"
    by (rule counted_mset) (simp add: carried_entry_key multiset.map_comp comp_def)
  ultimately show ?thesis using s1(2,3) by (intro conjI exI [of _ ?ds]) simp_all
qed

definition pruned_rollups :: "(string \<times> int \<times> int \<times> int) list \<Rightarrow> (string \<times> int \<times> int \<times> int) list" where
  "pruned_rollups counts = map (\<lambda>((queue, priority), (c, f)). (queue, priority, c, f)) (group_rollups counts)"

lemma append_rollups_result:
  "append_terminal_rollup_deltas_tx counts s = (Inr (), s\<lparr>s_rollup_deltas := s_rollup_deltas s @ pruned_rollups counts\<rparr>)"
  by (simp add: append_terminal_rollup_deltas_tx_def Let_def tx_simps pruned_rollups_def)

lemma prune_slot_result:
  assumes run: "prune_slot secs cursor slot s = (Inr n, s')" and other: "fst cursor \<noteq> slot"
  defines "entries \<equiv> map (carried_entry s cursor) (carried_rows secs slot s)"
  shows "n = length (carried_rows secs slot s) \<and>
    (\<exists>ds. counted s ds entries \<and>
       s' = (truncate_queue_slot slot s)\<lparr>s_done := filter (\<lambda>d. de_ready_slot d \<noteq> slot) (s_done s) @ entries,
         s_count_deltas := filter (\<lambda>kd. delta_slot (fst kd) \<noteq> slot) (s_count_deltas s @ ds),
         s_live_counts := filter (\<lambda>kc. fst (fst kc) \<noteq> slot) (s_live_counts s),
         s_rollup_deltas := s_rollup_deltas s @ pruned_rollups (pruned_terminal_counts secs slot s)\<rparr>)"
proof -
  obtain s1 where s1: "carry_failed_rows secs cursor slot s = (Inr n, s1)"
    using run by (auto simp: prune_slot_def tx_bind_Inr tx_simps)
  obtain ds where ds: "n = length (carried_rows secs slot s)" "counted s ds entries"
    "s1 = s\<lparr>s_done := s_done s @ entries, s_count_deltas := s_count_deltas s @ ds\<rparr>"
    using carry_failed_rows_result [OF s1] unfolding entries_def by blast
  have slots: "de_ready_slot e = fst cursor" if "e \<in> set entries" for e
    using that by (auto simp: entries_def carried_entry_def Let_def store_synthetic_def store_ready_backed_def)
  then have kept: "filter (\<lambda>d. de_ready_slot d \<noteq> slot) entries = entries" "filter (\<lambda>d. de_ready_slot d = slot) entries = []"
    using other by (auto simp: filter_id_conv filter_empty_conv)
  have counts: "pruned_terminal_counts secs slot s1 = pruned_terminal_counts secs slot s"
    unfolding pruned_terminal_counts_def slot_done_def receipt_removed_def by (simp add: ds(3) kept)
  define s2 where "s2 = truncate_queue_slot slot s1"
  have nil: "pruned_rollups [] = []" by (simp add: pruned_rollups_def group_rollups_def)
  have rolled: "(if c \<noteq> [] then append_terminal_rollup_deltas_tx c else tx_ret ()) t =
      (Inr (), t\<lparr>s_rollup_deltas := s_rollup_deltas t @ pruned_rollups c\<rparr>)" for c t
    by (simp add: append_rollups_result nil tx_simps)
  have s': "s' = s2\<lparr>s_rollup_deltas := s_rollup_deltas s2 @ pruned_rollups (pruned_terminal_counts secs slot s),
      s_live_counts := filter (\<lambda>kc. fst (fst kc) \<noteq> slot) (s_live_counts s2)\<rparr>"
    using run s1 unfolding counts [symmetric] by (simp add: prune_slot_def tx_simps rolled del: if_not_P flip: s2_def)
  show ?thesis
    using ds(1,2) by (intro conjI exI [of _ ds]) (simp_all add: s' s2_def truncate_queue_slot_def ds(3) kept)
qed

subsection \<open>What a prune of the queue ring keeps\<close>

lemma oldest_slot_other: "oldest_initialized_ring_slot c g n = Some (slot, h) \<Longrightarrow> slot \<noteq> c"
proof
  assume run: "oldest_initialized_ring_slot c g n = Some (slot, h)" and "slot = c"
  define off where "off = min (g + 1) n - 1"
  have off: "0 < off" "off < n" "slot = (c - off) mod n"
    using run by (auto simp: oldest_initialized_ring_slot_def Let_def off_def rem_euclid_def split: if_splits)
  then have "0 \<le> c" "c < n" using \<open>slot = c\<close> pos_mod_bound [of n "c - off"] pos_mod_sign [of n "c - off"] by simp_all
  moreover have "(c - off) mod n = c mod n" using off \<open>slot = c\<close> calculation by simp
  then have "n dvd off" by (simp add: mod_eq_dvd_iff)
  ultimately show False using off zdvd_not_zless by blast
qed

lemma prune_oldest_PrunedE:
  assumes "prune_oldest env retention s = (Inr (Pruned slot gen n d), s')"
  obtains cursor where
    "oldest_initialized_ring_slot (fst cursor) (snd cursor) (rs_slot_count (s_queue_ring s)) = Some (slot, gen)"
    "queue_prune_gates slot gen (me_while_waiting env s) = None"
    "prune_slot (retention_secs retention) cursor slot (me_while_waiting env s) = (Inr n, s')" "fst cursor \<noteq> slot"
  using assms unfolding prune_oldest_def Let_def
  by (auto simp: lock_failed_def dest: oldest_slot_other split: sum.splits option.splits if_splits prod.splits)


lemma prune_oldest_kept:
  assumes "prune_oldest env retention s = (res, s')" "\<And>slot gen n d. res \<noteq> Inr (Pruned slot gen n d)"
  shows "s' = s \<or> s' = me_while_waiting env s \<or> (\<exists>s2. s' = rollback (me_while_waiting env s) s2)"
  using assms unfolding prune_oldest_def Let_def
  by (auto split: sum.splits option.splits if_splits prod.splits)

lemma prune_slot_exact:
  assumes "counters_exact s" "prune_slot secs cursor slot s = (Inr n, s')" "fst cursor \<noteq> slot"
  shows "counters_exact s'"
proof -
  let ?es = "map (carried_entry s cursor) (carried_rows secs slot s)"
  obtain ds where ds: "counted s ds ?es"
    and s': "s' = (truncate_queue_slot slot s)\<lparr>s_done := filter (\<lambda>d. de_ready_slot d \<noteq> slot) (s_done s) @ ?es,
         s_count_deltas := filter (\<lambda>kd. delta_slot (fst kd) \<noteq> slot) (s_count_deltas s @ ds),
         s_live_counts := filter (\<lambda>kc. fst (fst kc) \<noteq> slot) (s_live_counts s),
         s_rollup_deltas := s_rollup_deltas s @ pruned_rollups (pruned_terminal_counts secs slot s)\<rparr>"
    using prune_slot_result [OF assms(2,3)] by blast
  define s1 where "s1 = s\<lparr>s_done := s_done s @ ?es, s_count_deltas := s_count_deltas s @ ds\<rparr>"
  have "counters_exact s1"
    by (rule counters_append [OF assms(1) _ _ _ _ ds]) (simp_all add: s1_def)
  moreover have "filter (\<lambda>d. de_ready_slot d \<noteq> slot) ?es = ?es"
    using assms(3)
    by (auto simp: filter_id_conv carried_entry_def Let_def store_synthetic_def store_ready_backed_def)
  ultimately show ?thesis
    by (elim counters_drop_slot [where slot = slot]) (simp_all add: s' s1_def truncate_queue_slot_def)
qed

lemma counters_exact_cong:
  "s_authority s' = s_authority s \<Longrightarrow> s_done s' = s_done s \<Longrightarrow> s_count_deltas s' = s_count_deltas s \<Longrightarrow>
     s_live_counts s' = s_live_counts s \<Longrightarrow> counters_exact s' = counters_exact s"
  by (cases "s_authority s") (simp_all add: counters_exact_def exact_by_def)

lemma prune_oldest_exact:
  assumes "prune_oldest env retention s = (res, s')" "counters_exact s" "counters_exact (me_while_waiting env s)"
  shows "counters_exact s'"
proof (cases "\<exists>slot gen n d. res = Inr (Pruned slot gen n d)")
  case True
  then show ?thesis
    using assms prune_slot_exact by (blast elim: prune_oldest_PrunedE)
next
  case False
  have "counters_exact (rollback (me_while_waiting env s) s2)" for s2
    using assms(3) counters_exact_cong [of "rollback (me_while_waiting env s) s2" "me_while_waiting env s"]
    by (simp add: rollback_def)
  then show ?thesis using prune_oldest_kept [OF assms(1)] False assms(2,3) by blast
qed

subsection \<open>Totals of finished jobs\<close>

text \<open>
  The completed and failed totals of a queue and priority: terminal rows still stored, completion receipts not
  yet removed, rollup deltas waiting for the fold, and the folded rollups.
\<close>

definition rsum :: "string \<times> int \<Rightarrow> (string \<times> int \<times> int \<times> int) list \<Rightarrow> int \<times> int" where
  "rsum k rs = (sum_list (map (\<lambda>(q, p, c, f). if (q, p) = k then c else 0) rs),
                sum_list (map (\<lambda>(q, p, c, f). if (q, p) = k then f else 0) rs))"

definition plus2 :: "int \<times> int \<Rightarrow> int \<times> int \<Rightarrow> int \<times> int" where
  "plus2 a b = (fst a + fst b, snd a + snd b)"

definition terminal_tally :: "store \<Rightarrow> (string \<times> int \<times> int \<times> int) list" where
  "terminal_tally s =
    map (\<lambda>d. (de_queue d, de_priority d, if de_state d \<noteq> Failed then 1 else 0, if de_state d = Failed then 1 else 0))
      (s_done s) @
    concat (map (\<lambda>b. map (\<lambda>i. (rc_queue b, rc_priority b, 1, 0))
                        (filter (\<lambda>i. \<not> receipt_removed s b i) (rc_items b))) (s_receipt_batches s))"

definition finished_total :: "store \<Rightarrow> string \<times> int \<Rightarrow> int \<times> int" where
  "finished_total s k =
    plus2 (rsum k (terminal_tally s))
      (plus2 (rsum k (s_rollup_deltas s)) (or_default (map_of (s_rollups s) k) (0, 0)))"

lemma plus2_simps [simp]: "fst (plus2 a b) = fst a + fst b" "snd (plus2 a b) = snd a + snd b"
  by (simp_all add: plus2_def)

lemma rsum_simps [simp]:
  "rsum k [] = (0, 0)" "rsum k (x # xs) = plus2 (if (fst x, fst (snd x)) = k then snd (snd x) else (0, 0)) (rsum k xs)"
  "rsum k (xs @ ys) = plus2 (rsum k xs) (rsum k ys)"
  by (auto simp: rsum_def plus2_def case_prod_beta)

lemma group_rollups_fold:
  defines "step \<equiv> \<lambda>m (queue, priority, c, f). if c = 0 \<and> f = 0 then m
             else omap_update (queue, priority) (0, 0) (\<lambda>(c0, f0). (c0 + c, f0 + f)) m"
  shows "omap_wf m \<Longrightarrow> omap_wf (foldl step m rs) \<and>
    or_default (map_of (foldl step m rs) k) (0, 0) = plus2 (or_default (map_of m k) (0, 0)) (rsum k rs)"
proof (induction rs arbitrary: m)
  case (Cons r rs)
  obtain q p c f where r: "r = (q, p, c, f)" by (cases r)
  have wf: "omap_wf (step m r)" using Cons.prems by (simp add: step_def r)
  have "or_default (map_of (step m r) k) (0, 0) =
      plus2 (or_default (map_of m k) (0, 0)) (if (q, p) = k then (c, f) else (0, 0))"
    by (auto simp: step_def r omap_simps or_default_def plus2_def split: option.split prod.split)
  then show ?case using Cons.IH [OF wf] by (simp add: r plus2_def)
qed (simp add: plus2_def)

lemma group_rollups_sum:
  "omap_wf (group_rollups rs)" "or_default (map_of (group_rollups rs) k) (0, 0) = rsum k rs"
  using group_rollups_fold [of "[]" rs k] unfolding group_rollups_def
  by (simp_all add: or_default_def plus2_def)

lemma rsum_distinct:
  "distinct (map fst m) \<Longrightarrow> rsum k (map (\<lambda>((queue, priority), cf). (queue, priority, cf)) m) = or_default (map_of m k) (0, 0)"
proof (induction m)
  case (Cons x m)
  have out: "k \<notin> fst ` set m \<Longrightarrow> rsum k (map (\<lambda>((queue, priority), cf). (queue, priority, cf)) m) = (0, 0)"
    by (induction m) (auto simp: plus2_def)
  obtain q p c f where x: "x = ((q, p), c, f)" by (metis surj_pair)
  show ?case
  proof (cases "(q, p) = k")
    case True
    then show ?thesis using Cons.prems out unfolding True [symmetric] by (simp add: x plus2_def or_default_def)
  next
    case False
    then show ?thesis using Cons by (simp add: x plus2_def)
  qed
qed (simp add: or_default_def)

lemma pruned_rollups_sum [simp]: "rsum k (pruned_rollups rs) = rsum k rs"
proof -
  have "pruned_rollups rs = map (\<lambda>((queue, priority), cf). (queue, priority, cf)) (group_rollups rs)"
    by (auto simp: pruned_rollups_def)
  then show ?thesis
    using rsum_distinct [OF omap_wf_distinct [OF group_rollups_sum(1)], of k rs] group_rollups_sum(2) [of rs k] by simp
qed

text \<open>A row that leaves with the slot is counted by the rollup, or carried.\<close>

lemma rsum_partition:
  "rsum k (map f xs) = plus2 (rsum k (map f (filter P xs))) (rsum k (map f (filter (\<lambda>x. \<not> P x) xs)))"
  by (induction xs) (auto simp: plus2_def)

lemma rsum_concat_partition:
  "rsum k (concat (map f xs)) = plus2 (rsum k (concat (map f (filter P xs)))) (rsum k (concat (map f (filter (\<lambda>x. \<not> P x) xs))))"
  by (induction xs) (auto simp: plus2_def)

definition done_tally :: "done_entry \<Rightarrow> string \<times> int \<times> int \<times> int" where
  "done_tally d = (de_queue d, de_priority d, if de_state d \<noteq> Failed then 1 else 0, if de_state d = Failed then 1 else 0)"

definition receipt_tally :: "store \<Rightarrow> receipt_completion_batch \<Rightarrow> (string \<times> int \<times> int \<times> int) list" where
  "receipt_tally s b = map (\<lambda>i. (rc_queue b, rc_priority b, 1, 0)) (filter (\<lambda>i. \<not> receipt_removed s b i) (rc_items b))"

lemma terminal_tally_alt: "terminal_tally s = map done_tally (s_done s) @ concat (map (receipt_tally s) (s_receipt_batches s))"
  by (simp add: terminal_tally_def done_tally_def [abs_def] receipt_tally_def [abs_def])

lemma carried_tally:
  "rsum k (map done_tally (slot_done slot s)) =
     plus2 (rsum k (map done_tally (map (carried_entry s cursor) (carried_rows secs slot s))))
       (rsum k (map (\<lambda>d. (de_queue d, de_priority d, if de_state d \<noteq> Failed then 1 else 0,
          if de_state d = Failed \<and> \<not> (secs > 0 \<and> within_floor secs (s_now s) d) then 1 else 0)) (slot_done slot s)))"
proof -
  have "done_tally (carried_entry s cursor d) = done_tally d" for d
    by (simp add: done_tally_def carried_entry_def Let_def store_synthetic_def store_ready_backed_def
        read_done_row_def done_row_projection_def)
  then have same: "map done_tally (map (carried_entry s cursor) (carried_rows secs slot s)) =
      map done_tally (carried_rows secs slot s)" by simp
  show ?thesis
  proof (cases "secs > 0")
    case False
    then show ?thesis unfolding same by (simp add: carried_rows_def plus2_def done_tally_def [abs_def])
  next
    case True
    have "rsum k (map done_tally ds) = plus2 (rsum k (map done_tally (filter (within_floor secs now) ds)))
       (rsum k (map (\<lambda>d. (de_queue d, de_priority d, if de_state d \<noteq> Failed then 1 else 0,
          if de_state d = Failed \<and> \<not> within_floor secs now d then 1 else 0)) ds))" for now ds
      by (induction ds) (auto simp: plus2_def done_tally_def within_floor_def)
    then show ?thesis using True unfolding same by (simp add: carried_rows_def)
  qed
qed

lemma prune_slot_totals:
  assumes "prune_slot secs cursor slot s = (Inr n, s')" "fst cursor \<noteq> slot"
  shows "finished_total s' k = finished_total s k"
proof -
  let ?es = "map (carried_entry s cursor) (carried_rows secs slot s)"
  let ?counts = "map (\<lambda>d. (de_queue d, de_priority d, if de_state d \<noteq> Failed then 1 else 0,
          if de_state d = Failed \<and> \<not> (secs > 0 \<and> within_floor secs (s_now s) d) then 1 else 0)) (slot_done slot s)"
  obtain ds where s': "s' = (truncate_queue_slot slot s)\<lparr>s_done := filter (\<lambda>d. de_ready_slot d \<noteq> slot) (s_done s) @ ?es,
         s_count_deltas := filter (\<lambda>kd. delta_slot (fst kd) \<noteq> slot) (s_count_deltas s @ ds),
         s_live_counts := filter (\<lambda>kc. fst (fst kc) \<noteq> slot) (s_live_counts s),
         s_rollup_deltas := s_rollup_deltas s @ pruned_rollups (pruned_terminal_counts secs slot s)\<rparr>"
    using prune_slot_result [OF assms] by blast
  have receipts: "receipt_tally s' b = receipt_tally s b" if "rc_ready_slot b \<noteq> slot" for b
  proof -
    have "receipt_removed s' b i = receipt_removed s b i" for i
      using that by (auto simp: receipt_removed_def s' truncate_queue_slot_def)
    then show ?thesis by (simp add: receipt_tally_def)
  qed
  then have batches: "map (receipt_tally s') (s_receipt_batches s') =
      map (receipt_tally s) (filter (\<lambda>b. rc_ready_slot b \<noteq> slot) (s_receipt_batches s))"
    by (simp add: s' truncate_queue_slot_def)
  have counts: "rsum k (pruned_terminal_counts secs slot s) = plus2 (rsum k ?counts)
      (rsum k (concat (map (receipt_tally s) (filter (\<lambda>b. rc_ready_slot b = slot) (s_receipt_batches s)))))"
    by (simp add: pruned_terminal_counts_def receipt_tally_def [abs_def])
  show ?thesis
    unfolding finished_total_def terminal_tally_alt batches
    using carried_tally [of k slot s cursor secs] counts
      rsum_partition [of k done_tally "s_done s" "\<lambda>d. de_ready_slot d = slot"]
      rsum_concat_partition [of k "receipt_tally s" "s_receipt_batches s" "\<lambda>b. rc_ready_slot b = slot"]
    by (simp add: s' truncate_queue_slot_def plus2_def slot_done_def)
qed

lemma read_carried:
  assumes "ready_of_done s' (fst cursor, snd cursor, de_queue d, de_priority d, de_enqueue_shard d, de_lane_seq d) = None"
  shows "read_done_row s' (carried_entry s cursor d) =
    (read_done_row s d)\<lparr>dn_ready_slot := fst cursor, dn_ready_generation := snd cursor\<rparr>"
proof -
  have "done_ready_join s' (carried_entry s cursor d) = None"
    using assms by (simp add: done_ready_join_def carried_entry_def Let_def store_synthetic_def store_ready_backed_def
        read_done_row_def done_row_projection_def)
  then show ?thesis
    by (simp add: read_done_row_def carried_entry_def Let_def store_synthetic_def store_ready_backed_def
        done_row_projection_def or_default_def coalesce_def read_terminal_payload_def split: option.split)
qed

definition done_pos :: "done_entry \<Rightarrow> lane \<times> int" where
  "done_pos d = ((de_queue d, de_priority d, de_enqueue_shard d), de_lane_seq d)"

lemma prune_slot_carries:
  assumes run: "prune_slot secs cursor slot s = (Inr n, s')" and other: "fst cursor \<noteq> slot"
    and d: "d \<in> set (slot_done slot s)" "secs > 0" "within_floor secs (s_now s) d"
    and own: "\<forall>r \<in> set (s_ready s). ready_pos r = done_pos d \<longrightarrow> rt_ready_slot r = slot"
  shows "\<exists>d' \<in> set (s_done s'). read_done_row s' d' =
    (read_done_row s d)\<lparr>dn_ready_slot := fst cursor, dn_ready_generation := snd cursor\<rparr>"
proof -
  have "s_ready s' = filter (\<lambda>r. rt_ready_slot r \<noteq> slot) (s_ready s)" "carried_entry s cursor d \<in> set (s_done s')"
    using prune_slot_result [OF run other] d by (auto simp: truncate_queue_slot_def carried_rows_def)
  moreover from this(1) have
    "ready_of_done s' (fst cursor, snd cursor, de_queue d, de_priority d, de_enqueue_shard d, de_lane_seq d) = None"
    using own by (auto simp: ready_of_done_def find_None_iff ready_pos_def row_lane_def done_pos_def)
  ultimately show ?thesis using read_carried by blast
qed

text \<open>
  C4: a prune of the oldest queue segment forgets no finished job.  The slot had no lease, no unclaimed ready row and
  no open claim when it was dropped; the completed and failed totals of every queue and priority are those before
  the prune; and a failed row inside the retention floor reads back unchanged from the current slot, provided that no
  other slot holds a ready row at the same position of its lane.
\<close>

theorem prune_oldest_keeps_history:
  assumes run: "prune_oldest env retention s = (Inr (Pruned slot gen n d), s')"
    and "s1 = me_while_waiting env s"
  shows "\<not> queue_prune_has_active_leases s1 slot gen \<and> \<not> queue_prune_has_unclosed_claim_refs s1 slot gen \<and>
    (\<forall>r \<in> set (s_ready s1). rt_ready_slot r = slot \<and> rt_ready_generation r = gen \<longrightarrow>
       (\<forall>c. s_claim_heads s1 (row_lane r) = Some c \<longrightarrow> rt_lane_seq r < c)) \<and>
    (\<forall>k. finished_total s' k = finished_total s1 k) \<and>
    (\<exists>cur g. cur \<noteq> slot \<and>
       (\<forall>e \<in> set (slot_done slot s1). retention_secs retention > 0 \<longrightarrow>
          within_floor (retention_secs retention) (s_now s1) e \<longrightarrow>
          (\<forall>r \<in> set (s_ready s1). ready_pos r = done_pos e \<longrightarrow> rt_ready_slot r = slot) \<longrightarrow>
          (\<exists>e' \<in> set (s_done s'). read_done_row s' e' =
             (read_done_row s1 e)\<lparr>dn_ready_slot := cur, dn_ready_generation := g\<rparr>)))"
proof -
  obtain cursor where c: "queue_prune_gates slot gen s1 = None"
    "prune_slot (retention_secs retention) cursor slot s1 = (Inr n, s')" "fst cursor \<noteq> slot"
    using run assms(2) by (auto elim: prune_oldest_PrunedE)
  then have gates: "\<not> queue_prune_has_active_leases s1 slot gen" "\<not> queue_prune_has_pending_ready s1 slot gen"
    "\<not> queue_prune_has_unclosed_claim_refs s1 slot gen"
    by (auto simp: queue_prune_gates_def split: if_splits)
  have "rt_lane_seq r < c" if "r \<in> set (s_ready s1)" "rt_ready_slot r = slot \<and> rt_ready_generation r = gen"
    "s_claim_heads s1 (row_lane r) = Some c" for r c
    using gates(2) that unfolding queue_prune_has_pending_ready_def by fastforce
  then show ?thesis
    using gates prune_slot_totals [OF c(2,3)] prune_slot_carries [OF c(2,3)] c(3) by blast
qed

definition failed_mail :: done_job_row where
  "failed_mail =
    \<lparr> r_job_id = 7, r_kind = ''mail'', r_queue = ''q'', r_args = JString ''to'', r_priority = 2, r_attempt = 3,
      r_run_lease = 3, r_max_attempts = 3, r_run_at = 0, r_attempted_at = Some 500, r_created_at = 0,
      r_unique_key = None, r_unique_states = None, r_payload = JObject [], dn_ready_slot = 0,
      dn_ready_generation = 0, dn_state = Failed, dn_lane_seq = 0, dn_enqueue_shard = 0,
      dn_finalized_at = 900, dn_output = None \<rparr>"

definition failed_mail_ready :: ready_transition_row where
  "failed_mail_ready =
    \<lparr> r_job_id = 7, r_kind = ''mail'', r_queue = ''q'', r_args = JString ''to'', r_priority = 2, r_attempt = 0,
      r_run_lease = 0, r_max_attempts = 3, r_run_at = 0, r_attempted_at = None, r_created_at = 0,
      r_unique_key = None, r_unique_states = None, r_payload = JObject [], rt_ready_slot = 0,
      rt_ready_generation = 0, rt_lane_seq = 0, rt_enqueue_shard = 0 \<rparr>"

text \<open>A ring that has rotated once, with a failed job behind in slot 0 and its counter.\<close>

definition rotated_store :: store where
  "rotated_store = fresh_store\<lparr>s_authority := Ledger, s_queue_ring := rotated_ring,
     s_heads := [(''q'', 2, 0) \<mapsto> 1], s_claim_heads := [(''q'', 2, 0) \<mapsto> 1], s_ready := [failed_mail_ready],
     s_done := [store_ready_backed failed_mail None], s_live_counts := [((0, ''q'', 2, 0, 0), 1)]\<rparr>"

definition calm_maint :: maint_env where
  "calm_maint =
    \<lparr> me_pinned = False, me_lock_free = True, me_lock_result = None, me_while_waiting = id,
      me_truncate_result = None, me_durations = \<lparr>pd_lock = 0, pd_truncate = 0, pd_commit = 0\<rparr> \<rparr>"

lemmas rotated_store_defs =
  rotated_store_def fresh_store_def calm_maint_def failed_mail_def failed_mail_ready_def rotated_ring_def

lemma prune_rotated_store:
  "fst (prune_oldest calm_maint 3600000 rotated_store) = Inr (Pruned 0 0 1 (me_durations calm_maint))"
  by code_simp

theorem prune_oldest_keeps_history_witness:
  "\<exists>s'. prune_oldest calm_maint 3600000 rotated_store = (Inr (Pruned 0 0 1 (me_durations calm_maint)), s') \<and>
     finished_total s' (''q'', 2) = (0, 1) \<and>
     (\<exists>e' \<in> set (s_done s'). r_args (read_done_row s' e') = JString ''to'')"
proof -
  obtain s' where s': "prune_oldest calm_maint 3600000 rotated_store = (Inr (Pruned 0 0 1 (me_durations calm_maint)), s')"
    using prune_rotated_store by (metis prod.collapse)
  let ?e = "store_ready_backed failed_mail None"
  have w: "me_while_waiting calm_maint rotated_store = rotated_store" by (simp add: calm_maint_def)
  note h = prune_oldest_keeps_history [OF s' refl, unfolded w]
  have facts: "finished_total rotated_store (''q'', 2) = (0, 1)" "?e \<in> set (slot_done 0 rotated_store)"
    "within_floor (retention_secs 3600000) (s_now rotated_store) ?e" "retention_secs 3600000 > 0"
    "\<forall>r \<in> set (s_ready rotated_store). ready_pos r = done_pos ?e \<longrightarrow> rt_ready_slot r = 0"
    "r_args (read_done_row rotated_store ?e) = JString ''to''"
    by code_simp+
  obtain cur g e' where "e' \<in> set (s_done s')"
    "read_done_row s' e' = (read_done_row rotated_store ?e)\<lparr>dn_ready_slot := cur, dn_ready_generation := g\<rparr>"
    using h facts(2-5) by blast
  moreover from this(2) have "r_args (read_done_row s' e') = JString ''to''" using facts(6) by simp
  moreover have "finished_total s' (''q'', 2) = (0, 1)" using h facts(1) by simp
  ultimately show ?thesis using s' by blast
qed

subsection \<open>The fold of the rollup deltas\<close>

definition nonneg2 :: "int \<times> int \<Rightarrow> bool" where
  "nonneg2 cf \<longleftrightarrow> 0 \<le> fst cf \<and> 0 \<le> snd cf"

text \<open>
  With no negative count in sight the clamp of the update is idle, so a fold moves the waiting deltas into the rollups
  and changes no total.
\<close>

lemma upsert_rollup_sum:
  "nonneg2 (or_default (map_of m (fst kd)) (0, 0)) \<Longrightarrow> nonneg2 (snd kd) \<Longrightarrow>
   or_default (map_of (upsert_rollup kd m) k) (0, 0) =
     plus2 (or_default (map_of m k) (0, 0)) (if fst kd = k then snd kd else (0, 0))"
  by (auto simp: upsert_rollup_def omap_simps or_default_def plus2_def nonneg2_def split: option.split)

lemma fold_rollups_sum:
  assumes "distinct (map fst g)" "\<And>kd. kd \<in> set g \<Longrightarrow> nonneg2 (snd kd)"
    "\<And>k. nonneg2 (or_default (map_of m k) (0, 0))"
  shows "or_default (map_of (foldl (\<lambda>m kd. upsert_rollup kd m) m g) k) (0, 0) =
    plus2 (or_default (map_of m k) (0, 0)) (or_default (map_of g k) (0, 0))"
  using assms
proof (induction g arbitrary: m)
  case (Cons kd g)
  have up: "or_default (map_of (upsert_rollup kd m) k) (0, 0) =
      plus2 (or_default (map_of m k) (0, 0)) (if fst kd = k then snd kd else (0, 0))" for k
    using Cons.prems by (simp add: upsert_rollup_sum)
  have nn: "nonneg2 (or_default (map_of (upsert_rollup kd m) k) (0, 0))" for k
    using Cons.prems(2) [of kd] Cons.prems(3) [of k] unfolding up by (simp add: nonneg2_def plus2_def)
  have "fst kd = k \<Longrightarrow> map_of g k = None"
    using Cons.prems(1) by (auto simp: map_of_eq_None_iff)
  then show ?case
    using Cons.IH [OF _ _ nn] Cons.prems up [of k]
    by (cases kd) (auto simp: plus2_def or_default_def split: option.splits)
qed (simp add: plus2_def or_default_def)

lemma rsum_nonneg: "(\<And>r. r \<in> set rs \<Longrightarrow> nonneg2 (snd (snd r))) \<Longrightarrow> nonneg2 (rsum k rs)"
  by (induction rs) (auto simp: nonneg2_def plus2_def)

lemma fold_terminal_rollup_totals:
  assumes "\<And>r. r \<in> set (s_rollup_deltas s) \<Longrightarrow> nonneg2 (snd (snd r))"
    and "\<And>k. nonneg2 (or_default (map_of (s_rollups s) k) (0, 0))"
  shows "finished_total (snd (fold_terminal_rollup_deltas pinned s)) k = finished_total s k"
proof (cases "pinned \<or> s_rollup_deltas s = []")
  case True
  have "terminal_tally (s\<lparr>s_rollup_deltas := []\<rparr>) = terminal_tally s"
    by (simp add: terminal_tally_def receipt_removed_def)
  then show ?thesis using True
    by (auto simp: fold_terminal_rollup_deltas_def tx_simps finished_total_def)
next
  case False
  let ?g = "group_rollups (s_rollup_deltas s)"
  have dist: "distinct (map fst ?g)" by (simp add: omap_wf_distinct group_rollups_sum(1))
  have "nonneg2 (snd kd)" if "kd \<in> set ?g" for kd
  proof -
    have "map_of ?g (fst kd) = Some (snd kd)" using that dist by (simp add: map_of_is_SomeI)
    then have "snd kd = rsum (fst kd) (s_rollup_deltas s)"
      using group_rollups_sum(2) [of "s_rollup_deltas s" "fst kd"] by (simp add: or_default_def)
    then show ?thesis using rsum_nonneg [OF assms(1), of "s_rollup_deltas s" "fst kd"] by simp
  qed
  note sums = fold_rollups_sum [OF dist this assms(2), of k, unfolded group_rollups_sum(2)]
  define s1 where "s1 = s\<lparr>s_rollup_deltas := [], s_rollups := foldl (\<lambda>m kd. upsert_rollup kd m) (s_rollups s) ?g\<rparr>"
  have "terminal_tally s1 = terminal_tally s"
    by (simp add: terminal_tally_def receipt_removed_def s1_def)
  moreover have "snd (fold_terminal_rollup_deltas pinned s) = s1"
    using False
    by (simp add: fold_terminal_rollup_deltas_def tx_simps adjust_terminal_rollups_batch_def Let_def s1_def tx_ret_def)
  ultimately show ?thesis using sums by (simp add: finished_total_def s1_def plus2_def)
qed

subsection \<open>Removing terminal rows and rolling a slot up\<close>

lemma dsum_neg: "dsum Q (map (\<lambda>(k, d). (k, - d)) xs) = - dsum Q xs"
  by (induction xs) auto

lemma counted_neg_mset:
  assumes "mset (map f xs) = mset (map entry_key es)"
  shows "counted s (map (\<lambda>(k, d). (k, - d)) (group_deltas (map (\<lambda>x. (f x, - 1)) xs))) es"
proof -
  have "dsum P (map (\<lambda>x. (f x, - 1)) xs) = - dsum P (map (\<lambda>x. (f x, 1)) xs)" for P
    by (induction xs) auto
  then show ?thesis
    using counted_mset [OF assms, of s] by (simp add: counted_def dsum_neg split: ring_authority.splits)
qed

lemma decrement_counted:
  assumes "mset keys = mset (map entry_key es)"
  shows "\<exists>ds. decrement_live_terminal_counters_tx keys s = (Inr (), s\<lparr>s_count_deltas := s_count_deltas s @ ds\<rparr>) \<and>
    counted s (map (\<lambda>(k, d). (k, - d)) ds) es"
proof (cases "keys = []")
  case True
  then have "es = []" using assms by simp
  then show ?thesis using True
    by (intro exI [of _ "[]"]) (simp add: decrement_live_terminal_counters_tx_def tx_simps)
next
  case False
  show ?thesis
    using append_deltas_counted [of "group_deltas (map (\<lambda>key. (key, - 1)) keys)" s]
      counted_neg_mset [of "\<lambda>k. k" keys es s] assms
    unfolding decrement_live_terminal_counters_tx_def if_not_P [OF False] by auto
qed

lemma rollup_slot_exact:
  assumes "rollup_terminal_count_delta_slot env slot gen s = (res, s')" "counters_exact s"
    "counters_exact (me_while_waiting env s)" "s_authority (me_while_waiting env s) = s_authority s"
    "\<forall>kd \<in> set (slot_deltas slot (me_while_waiting env s)). delta_generation (fst kd) = gen"
  shows "counters_exact s'"
  using assms(1-3) fold_slot_deltas_exact [OF assms(3,4,5)]
  unfolding rollup_terminal_count_delta_slot_def Let_def
  by (auto split: sum.splits option.splits if_splits prod.splits)

text \<open>
  The pass over all sealed slots, with nothing else committing meanwhile: it stops at the first error, and the counters
  stay exact throughout.
\<close>

definition one_generation :: "store \<Rightarrow> bool" where
  "one_generation s \<longleftrightarrow>
    (\<forall>kd \<in> set (s_count_deltas s). \<forall>kd' \<in> set (s_count_deltas s).
       delta_slot (fst kd) = delta_slot (fst kd') \<longrightarrow> delta_generation (fst kd) = delta_generation (fst kd'))"

lemma fold_slot_deltas_fields:
  "s_authority (snd (fold_slot_deltas a slot gen s)) = s_authority s"
  "s_done (snd (fold_slot_deltas a slot gen s)) = s_done s"
  "set (s_count_deltas (snd (fold_slot_deltas a slot gen s))) \<subseteq> set (s_count_deltas s)"
  by (auto simp: fold_slot_deltas_def Let_def split: prod.splits)

lemma rollup_slot_fields:
  assumes "rollup_terminal_count_delta_slot env slot gen s = (res, s')" "me_while_waiting env = id"
  shows "s_authority s' = s_authority s \<and> s_done s' = s_done s \<and> set (s_count_deltas s') \<subseteq> set (s_count_deltas s)"
  using assms fold_slot_deltas_fields [of "s_authority s" slot gen s]
  unfolding rollup_terminal_count_delta_slot_def Let_def
  by (auto split: sum.splits option.splits if_splits prod.splits)

lemma rollup_slots_exact:
  assumes "rollup_slots env max_slots slots out s = (res, s')" "\<And>slot. me_while_waiting (env slot) = id"
    "counters_exact s" "\<And>slot gen kd. (slot, gen) \<in> set slots \<Longrightarrow> kd \<in> set (s_count_deltas s) \<Longrightarrow>
       delta_slot (fst kd) = slot \<Longrightarrow> delta_generation (fst kd) = gen"
    "ro_rolled_slots out \<le> max_slots"
  shows "counters_exact s' \<and> s_done s' = s_done s \<and> (\<forall>o'. res = Inr o' \<longrightarrow> ro_rolled_slots o' \<le> max_slots)"
  using assms
proof (induction slots arbitrary: out s)
  case (Cons sg slots)
  obtain slot gen where sg: "sg = (slot, gen)" by (cases sg)
  obtain r1 s1 where r1: "rollup_terminal_count_delta_slot (env slot) slot gen s = (r1, s1)" by fastforce
  have f: "s_done s1 = s_done s" "set (s_count_deltas s1) \<subseteq> set (s_count_deltas s)"
    using rollup_slot_fields [OF r1 Cons.prems(2)] by auto
  have one: "\<forall>kd \<in> set (slot_deltas slot s). delta_generation (fst kd) = gen"
    using Cons.prems(4) [of slot gen] by (auto simp: slot_deltas_def sg)
  have e: "counters_exact s1" using rollup_slot_exact [OF r1] Cons.prems(2,3) one by simp
  have rest: "delta_generation (fst kd) = g" if "(sl, g) \<in> set slots" "kd \<in> set (s_count_deltas s1)"
    "delta_slot (fst kd) = sl" for sl g kd using Cons.prems(4) [of sl g kd] that f(2) by auto
  have go: ?case if "rollup_slots env max_slots slots o' s1 = (res, s')" "ro_rolled_slots o' \<le> max_slots" for o'
    using Cons.IH [OF that(1) Cons.prems(2) e rest that(2)] f(1) by simp
  show ?case
  proof (cases "ro_rolled_slots out \<ge> max_slots")
    case True
    then show ?thesis using Cons.prems(1,3,5) by (auto simp: sg)
  next
    case False
    then show ?thesis
    proof (cases r1)
      case (Inl err)
      then show ?thesis using Cons.prems(1) False e f by (auto simp: sg r1)
    next
      case (Inr o1)
      show ?thesis
        using Cons.prems(1,5) False e f(1) go
        by (cases o1) (auto simp: sg r1 Inr)
    qed
  qed
qed auto

lemma candidate_has_delta:
  assumes "terminal_delta_rollup_candidates s = Inr slots" "(slot, gen) \<in> set slots"
  shows "\<exists>kd \<in> set (slot_deltas slot s). delta_generation (fst kd) = gen"
proof -
  obtain cs cg where "slots = filter (\<lambda>(slot, g). slot \<ge> 0 \<and>
      (\<exists>kd \<in> set (slot_deltas slot s). delta_generation (fst kd) = g))
      (initialized_sealed_ring_slots cs cg (rs_slot_count (s_queue_ring s)))"
    using assms(1) by (auto simp: terminal_delta_rollup_candidates_def split: sum.splits)
  then show ?thesis using assms(2) by simp
qed

text \<open>
  C21: the maintenance pass that folds count deltas keeps the terminal counters exact.  When the deltas of a slot are of
  one generation and nothing else commits during the pass, folded counters plus pending deltas equal the number of
  terminal rows afterwards as before, whichever step fails; the terminal rows are untouched and at most the given
  number of slots is rolled up.
\<close>

theorem rollup_pass_keeps_counters:
  assumes "rollup_terminal_count_deltas env max_slots s = (res, s')"
    and "counters_exact s" "one_generation s" "\<And>slot. me_while_waiting (env slot) = id"
  shows "counters_exact s' \<and> s_done s' = s_done s \<and> (\<forall>out. res = Inr out \<longrightarrow> ro_rolled_slots out \<le> max_slots)"
proof (cases "max_slots = 0")
  case True
  then show ?thesis
    using assms by (auto simp: rollup_terminal_count_deltas_def delta_rollup_default_def)
next
  case False
  show ?thesis
  proof (cases "terminal_delta_rollup_candidates s")
    case (Inl e)
    then show ?thesis using assms False by (auto simp: rollup_terminal_count_deltas_def)
  next
    case (Inr slots)
    have gens: "delta_generation (fst kd) = gen" if "(slot, gen) \<in> set slots" "kd \<in> set (s_count_deltas s)"
      "delta_slot (fst kd) = slot" for slot gen kd
    proof -
      from candidate_has_delta [OF Inr that(1)]
      obtain kd' where "kd' \<in> set (slot_deltas slot s)" "delta_generation (fst kd') = gen" by blast
      then show ?thesis
        using assms(3) [unfolded one_generation_def, THEN bspec, OF that(2), THEN bspec, of kd'] that(3)
        by (simp add: slot_deltas_def)
    qed
    have "rollup_slots env max_slots slots delta_rollup_default s = (res, s')"
      using assms(1) False Inr by (simp add: rollup_terminal_count_deltas_def)
    then show ?thesis
      by (rule rollup_slots_exact [OF _ assms(4,2) gens]) (simp_all add: delta_rollup_default_def)
  qed
qed

text \<open>The rotated store again, its counter still a pending delta, and a fold that takes it.\<close>

definition pending_store :: store where
  "pending_store = rotated_store\<lparr>s_live_counts := [], s_count_deltas := [((0, 0, ''q'', 2, 0, 0), 1)]\<rparr>"

lemma pending_store_exact: "counters_exact pending_store"
proof -
  have lane_only: "s_authority pending_store = Ledger" "s_live_counts pending_store = []"
    by (simp_all add: pending_store_def rotated_store_defs)
  have "dsum (\<lambda>d. delta_lane d = k) (s_count_deltas pending_store) =
      int (length (filter (\<lambda>d. done_lane d = k) (s_done pending_store)))" for k
    by (simp add: pending_store_def rotated_store_defs done_lane_def store_ready_backed_def)
  then show ?thesis
    using lane_only by (simp add: counters_exact_def exact_by_def)
qed

theorem rollup_pass_keeps_counters_witness:
  "\<exists>out s'. rollup_terminal_count_deltas (\<lambda>_. calm_maint) 4 pending_store = (Inr out, s') \<and>
     ro_rolled_slots out = 1 \<and> counters_exact s'"
proof -
  obtain res s' where r: "rollup_terminal_count_deltas (\<lambda>_. calm_maint) 4 pending_store = (res, s')" by fastforce
  have "map_sum (\<lambda>_. ()) ro_rolled_slots (fst (rollup_terminal_count_deltas (\<lambda>_. calm_maint) 4 pending_store)) = Inr 1"
    by code_simp
  then obtain out where "res = Inr out" "ro_rolled_slots out = 1" using r by (cases res) auto
  moreover have "one_generation pending_store" by code_simp
  ultimately show ?thesis
    using rollup_pass_keeps_counters [OF r pending_store_exact] r by (auto simp: calm_maint_def)
qed

end
