(* ===== verification/Awa_Attempts.thy ===== *)
theory Awa_Attempts
  imports Awa_Terminal
begin

section \<open>Running attempts\<close>

text \<open>
  The part of \<^verbatim>\<open>queue_storage.rs\<close> that owns a running attempt: receipt claims and their closing evidence,
  the materialization of a claim into a lease, heartbeats and progress, and \<^verbatim>\<open>take_running_attempt_tx\<close>, through
  which every outcome of an attempt passes.  The main theorem is that an attempt is taken at most once:
  the taker leaves evidence behind, and evidence turns every later taker away.
\<close>


subsection \<open>Closing evidence\<close>

definition batch_closed :: "store \<Rightarrow> int \<Rightarrow> int \<Rightarrow> bool" where
  "batch_closed s slot receipt_id \<longleftrightarrow>
    (\<exists>x \<in> set (s_closure_batches s). xb_claim_slot x = slot \<and> receipt_id \<in> set (xb_receipt_ids x))"

definition done_attempt :: "store \<Rightarrow> job_id \<Rightarrow> int \<Rightarrow> bool" where
  "done_attempt s job_id run_lease \<longleftrightarrow>
    (\<exists>d \<in> set (s_done s). de_job_id d = job_id \<and> de_run_lease d = run_lease)"

definition deferred_attempt :: "store \<Rightarrow> job_id \<Rightarrow> int \<Rightarrow> bool" where
  "deferred_attempt s job_id run_lease \<longleftrightarrow>
    (\<exists>d \<in> set (s_deferred s). r_job_id d = job_id \<and> r_run_lease d = run_lease)"

definition dlq_attempt :: "store \<Rightarrow> job_id \<Rightarrow> int \<Rightarrow> bool" where
  "dlq_attempt s job_id run_lease \<longleftrightarrow>
    (\<exists>d \<in> set (s_dlq s). r_job_id d = job_id \<and> r_run_lease d = run_lease)"

definition moved_on :: "store \<Rightarrow> job_id \<Rightarrow> int \<Rightarrow> bool" where
  "moved_on s job_id run_lease \<longleftrightarrow>
    done_attempt s job_id run_lease \<or> deferred_attempt s job_id run_lease \<or> dlq_attempt s job_id run_lease"

definition leased :: "store \<Rightarrow> job_id \<Rightarrow> int \<Rightarrow> bool" where
  "leased s job_id run_lease \<longleftrightarrow>
    (\<exists>l \<in> set (s_leases s). ls_job_id l = job_id \<and> ls_run_lease l = run_lease)"

definition receipt_closed_evidence :: "store \<Rightarrow> lease_claim \<Rightarrow> bool" where
  "receipt_closed_evidence s c \<longleftrightarrow>
    lc_closed_at c \<noteq> None \<or>
    has_closure s (lc_claim_slot c) (lc_job_id c) (lc_run_lease c) \<or>
    (\<exists>x \<in> set (s_closure_batches s). lc_receipt_id c \<in> set (xb_receipt_ids x)) \<or>
    moved_on s (lc_job_id c) (lc_run_lease c)"

text \<open>The anti-joins that every reader of a batch item repeats.\<close>

definition item_closed :: "store \<Rightarrow> lease_claim_batch \<Rightarrow> claim_item \<Rightarrow> bool" where
  "item_closed s b i \<longleftrightarrow>
    has_closure s (lb_claim_slot b) (it_job_id i) (it_run_lease i) \<or>
    batch_closed s (lb_claim_slot b) (it_receipt_id i)"

definition batch_items :: "store \<Rightarrow> (lease_claim_batch \<times> claim_item) list" where
  "batch_items s = concat (map (\<lambda>b. map (\<lambda>i. (b, i)) (lb_items b)) (s_claim_batches s))"


subsection \<open>Hydration\<close>

record deleted_lease_row =
  dl_ready_slot :: int
  dl_ready_generation :: int
  dl_job_id :: job_id
  dl_queue :: string
  dl_state :: job_state
  dl_priority :: int
  dl_attempt :: int
  dl_run_lease :: int
  dl_max_attempts :: int
  dl_lane_seq :: int
  dl_enqueue_shard :: int
  dl_attempted_at :: "timestamp option"

definition ready_snapshot :: "store \<Rightarrow> deleted_lease_row \<Rightarrow> ready_transition_row option" where
  "ready_snapshot s d =
    find (\<lambda>r. rt_ready_slot r = dl_ready_slot d \<and> rt_ready_generation r = dl_ready_generation d \<and>
              r_queue r = dl_queue d \<and> rt_enqueue_shard r = dl_enqueue_shard d \<and>
              rt_lane_seq r = dl_lane_seq d \<and> r_job_id r = dl_job_id d) (s_ready s)"

definition find_attempt :: "store \<Rightarrow> job_id \<Rightarrow> int \<Rightarrow> attempt_state_row option" where
  "find_attempt s job_id run_lease = find (\<lambda>a. as_job_id a = job_id \<and> as_run_lease a = run_lease) (s_attempts s)"

definition missing_ready_row :: "deleted_lease_row \<Rightarrow> awa_error" where
  "missing_ready_row d =
    Validation (''queue storage ready row missing for deleted lease job '' @ string_of_int (dl_job_id d) @
                '' run_lease '' @ string_of_int (dl_run_lease d))"

definition hydrate_row :: "deleted_lease_row \<Rightarrow> ready_transition_row \<Rightarrow> attempt_state_row option \<Rightarrow> lease_transition_row" where
  "hydrate_row d ready attempt =
    \<lparr> r_job_id = dl_job_id d, r_kind = r_kind ready, r_queue = r_queue ready, r_args = r_args ready,
      r_priority = dl_priority d, r_attempt = dl_attempt d, r_run_lease = dl_run_lease d,
      r_max_attempts = dl_max_attempts d, r_run_at = r_run_at ready, r_attempted_at = dl_attempted_at d,
      r_created_at = r_created_at ready, r_unique_key = r_unique_key ready,
      r_unique_states = r_unique_states ready, r_payload = r_payload ready,
      lt_ready_slot = dl_ready_slot d, lt_ready_generation = dl_ready_generation d, lt_state = dl_state d,
      lt_lane_seq = dl_lane_seq d, lt_enqueue_shard = dl_enqueue_shard d,
      lt_progress = Option.bind attempt as_progress \<rparr>"

definition hydrate_one :: "store \<Rightarrow> deleted_lease_row \<Rightarrow> awa_error + lease_transition_row" where
  "hydrate_one s d =
    (case ready_snapshot s d of
       None \<Rightarrow> Inl (missing_ready_row d)
     | Some ready \<Rightarrow> Inr (hydrate_row d ready (find_attempt s (dl_job_id d) (dl_run_lease d))))"

text \<open>Closure batches for some items, one for each claim slot and ready segment, ids in ascending order.\<close>

definition item_group :: "lease_claim_batch \<times> claim_item \<Rightarrow> int \<times> int \<times> int" where
  "item_group bi = (lb_claim_slot (fst bi), lb_ready_slot (fst bi), lb_ready_generation (fst bi))"

definition closure_batches :: "string \<Rightarrow> timestamp \<Rightarrow> (lease_claim_batch \<times> claim_item) list \<Rightarrow> claim_closure_batch list" where
  "closure_batches outcome now hits =
    map (\<lambda>(slot, ready_slot, ready_generation).
          \<lparr> xb_claim_slot = slot, xb_ready_slot = ready_slot, xb_ready_generation = ready_generation,
            xb_outcome = outcome,
            xb_receipt_ids = sort (map (\<lambda>bi. it_receipt_id (snd bi))
              (filter (\<lambda>bi. item_group bi = (slot, ready_slot, ready_generation)) hits)),
            xb_closed_at = now \<rparr>)
      (remdups (map item_group hits))"

definition rescue_closures :: "(job_id \<times> int) list \<Rightarrow> store \<Rightarrow> store" where
  "rescue_closures refs s =
    (let hits = filter (\<lambda>(b, i). (it_job_id i, it_run_lease i) \<in> set refs \<and> \<not> item_closed s b i) (batch_items s)
     in (snd (close_row_claims ''rescue'' refs s))
          \<lparr>s_closure_batches := s_closure_batches s @ closure_batches ''rescue'' (s_now s) hits\<rparr>)"

definition delete_attempts :: "(job_id \<times> int) list \<Rightarrow> store \<Rightarrow> store" where
  "delete_attempts refs s =
    s\<lparr>s_attempts := filter (\<lambda>a. (as_job_id a, as_run_lease a) \<notin> set refs) (s_attempts s)\<rparr>"

definition hydrate_deleted_leases_tx :: "deleted_lease_row list \<Rightarrow> bool \<Rightarrow> lease_transition_row list tx" where
  "hydrate_deleted_leases_tx deleted write_receipt_closures =
    (if deleted = [] then tx_ret []
     else
       let refs = map (\<lambda>d. (dl_job_id d, dl_run_lease d)) deleted in
       tx_bind (tx_get (\<lambda>s. hydrate_one s)) (\<lambda>hydrate.
       tx_bind (tx_set (delete_attempts refs)) (\<lambda>_.
       tx_bind (if write_receipt_closures then tx_set (rescue_closures refs) else tx_ret ()) (\<lambda>_.
         tx_for (\<lambda>d. tx_lift (hydrate d)) deleted))))"


subsection \<open>Taking a running attempt\<close>

definition deleted_of_item :: "lease_claim_batch \<times> claim_item \<Rightarrow> deleted_lease_row" where
  "deleted_of_item bi =
    (case bi of (b, i) \<Rightarrow>
      \<lparr> dl_ready_slot = lb_ready_slot b, dl_ready_generation = lb_ready_generation b, dl_job_id = it_job_id i,
        dl_queue = lb_queue b, dl_state = Running, dl_priority = lb_priority b, dl_attempt = it_attempt i,
        dl_run_lease = it_run_lease i, dl_max_attempts = it_max_attempts i, dl_lane_seq = it_lane_seq i,
        dl_enqueue_shard = lb_enqueue_shard b, dl_attempted_at = Some (lb_claimed_at b) \<rparr>)"

definition deleted_of_claim :: "lease_claim \<Rightarrow> deleted_lease_row" where
  "deleted_of_claim c =
    \<lparr> dl_ready_slot = lc_ready_slot c, dl_ready_generation = lc_ready_generation c, dl_job_id = lc_job_id c,
      dl_queue = lc_queue c, dl_state = Running, dl_priority = lc_priority c, dl_attempt = lc_attempt c,
      dl_run_lease = lc_run_lease c, dl_max_attempts = lc_max_attempts c, dl_lane_seq = lc_lane_seq c,
      dl_enqueue_shard = lc_enqueue_shard c, dl_attempted_at = Some (lc_claimed_at c) \<rparr>"

definition deleted_of_lease :: "lease_entry \<Rightarrow> deleted_lease_row" where
  "deleted_of_lease l =
    \<lparr> dl_ready_slot = ls_ready_slot l, dl_ready_generation = ls_ready_generation l, dl_job_id = ls_job_id l,
      dl_queue = ls_queue l, dl_state = ls_state l, dl_priority = ls_priority l, dl_attempt = ls_attempt l,
      dl_run_lease = ls_run_lease l, dl_max_attempts = ls_max_attempts l, dl_lane_seq = ls_lane_seq l,
      dl_enqueue_shard = ls_enqueue_shard l, dl_attempted_at = ls_attempted_at l \<rparr>"

definition item_at :: "lease_claim_batch \<Rightarrow> int \<Rightarrow> claim_item option" where
  "item_at b index =
    (if 1 \<le> index \<and> index \<le> int (length (lb_items b)) then Some (lb_items b ! nat (index - 1)) else None)"

text \<open>One closure batch for one item.\<close>

definition close_item :: "string \<Rightarrow> lease_claim_batch \<times> claim_item \<Rightarrow> store \<Rightarrow> store" where
  "close_item outcome bi s = s\<lparr>s_closure_batches := s_closure_batches s @ closure_batches outcome (s_now s) [bi]\<rparr>"

definition compact_target ::
  "store \<Rightarrow> job_id \<Rightarrow> int \<Rightarrow> int \<Rightarrow> int \<Rightarrow> int \<Rightarrow> int \<Rightarrow> (lease_claim_batch \<times> claim_item) option" where
  "compact_target s job_id run_lease claim_slot batch_id batch_index receipt_id =
    (case find (\<lambda>b. lb_claim_slot b = claim_slot \<and> lb_batch_id b = batch_id) (s_claim_batches s) of
       None \<Rightarrow> None
     | Some b \<Rightarrow>
         (case item_at b batch_index of
            None \<Rightarrow> None
          | Some i \<Rightarrow>
              if it_job_id i = job_id \<and> it_run_lease i = run_lease \<and> it_receipt_id i = receipt_id \<and>
                 \<not> item_closed s b i \<and> \<not> moved_on s job_id run_lease \<and> \<not> leased s job_id run_lease
              then Some (b, i) else None))"

definition close_compact_receipt_claim_tx ::
  "job_id \<Rightarrow> int \<Rightarrow> string \<Rightarrow> int \<Rightarrow> int \<Rightarrow> int \<Rightarrow> int \<Rightarrow> deleted_lease_row list tx" where
  "close_compact_receipt_claim_tx job_id run_lease outcome claim_slot batch_id batch_index receipt_id =
    (if claim_slot < 0 then tx_err (Validation (''invalid claim slot '' @ string_of_int claim_slot))
     else
       tx_bind (tx_get (\<lambda>s. compact_target s job_id run_lease claim_slot batch_id batch_index receipt_id)) (\<lambda>target.
         case target of
           None \<Rightarrow> tx_ret []
         | Some bi \<Rightarrow> tx_bind (tx_set (close_item outcome bi)) (\<lambda>_. tx_ret [deleted_of_item bi])))"

datatype claim_target = RowTarget lease_claim | BatchTarget "lease_claim_batch \<times> claim_item"

definition open_targets :: "store \<Rightarrow> job_id \<Rightarrow> int \<Rightarrow> claim_target list" where
  "open_targets s job_id run_lease =
    (if leased s job_id run_lease then []
     else
       map RowTarget (filter (\<lambda>c. lc_job_id c = job_id \<and> lc_run_lease c = run_lease \<and>
                                  \<not> receipt_closed_evidence s c) (s_lease_claims s)) @
       map BatchTarget (filter (\<lambda>(b, i). it_job_id i = job_id \<and> it_run_lease i = run_lease \<and>
                                  \<not> item_closed s b i \<and> \<not> moved_on s job_id run_lease) (batch_items s)))"

fun close_target :: "string \<Rightarrow> claim_target \<Rightarrow> store \<Rightarrow> store" where
  "close_target outcome (RowTarget c) s =
    s\<lparr>s_closures := s_closures s @
        [\<lparr> cc_claim_slot = lc_claim_slot c, cc_job_id = lc_job_id c, cc_run_lease = lc_run_lease c,
           cc_outcome = outcome, cc_closed_at = s_now s \<rparr>],
      s_lease_claims := map (\<lambda>c'. if lc_claim_slot c' = lc_claim_slot c \<and> lc_job_id c' = lc_job_id c \<and>
                                     lc_run_lease c' = lc_run_lease c
          then c'\<lparr>lc_closed_at := Some (or_default (lc_closed_at c') (s_now s))\<rparr> else c') (s_lease_claims s)\<rparr>"
| "close_target outcome (BatchTarget bi) s = close_item outcome bi s"

fun deleted_of_target :: "claim_target \<Rightarrow> deleted_lease_row" where
  "deleted_of_target (RowTarget c) = deleted_of_claim c"
| "deleted_of_target (BatchTarget bi) = deleted_of_item bi"

definition first_of :: "'a list \<Rightarrow> 'a option" where
  "first_of xs = (case xs of [] \<Rightarrow> None | x # _ \<Rightarrow> Some x)"

text \<open>The identity a claim carries when it came from a batch.\<close>

definition compact_identity :: "claimed_entry option \<Rightarrow> (int \<times> int \<times> int \<times> int) option" where
  "compact_identity claim =
    (case claim of
       None \<Rightarrow> None
     | Some c \<Rightarrow>
         if \<not> ce_lease_claim_receipt c then None
         else (case (ce_claim_batch_id c, ce_claim_batch_index c, ce_receipt_id c) of
                 (Some batch_id, Some batch_index, Some receipt_id) \<Rightarrow>
                   Some (ce_claim_slot c, batch_id, batch_index, receipt_id)
               | _ \<Rightarrow> None))"

definition close_open_receipt_claim_tx ::
  "job_id \<Rightarrow> int \<Rightarrow> string \<Rightarrow> claimed_entry option \<Rightarrow> lease_transition_row option tx" where
  "close_open_receipt_claim_tx job_id run_lease outcome claim =
    tx_bind (tx_get (\<lambda>s. cfg_lease_claim_receipts (s_config s))) (\<lambda>receipts.
      if \<not> receipts then tx_ret None
      else case compact_identity claim of
        Some (claim_slot, batch_id, batch_index, receipt_id) \<Rightarrow>
          tx_bind (close_compact_receipt_claim_tx job_id run_lease outcome claim_slot batch_id batch_index receipt_id)
            (\<lambda>deleted. if deleted = [] then tx_ret None
               else tx_bind (hydrate_deleted_leases_tx deleted False) (\<lambda>moved. tx_ret (first_of moved)))
      | None \<Rightarrow>
          tx_bind (tx_get (\<lambda>s. open_targets s job_id run_lease)) (\<lambda>targets.
            case targets of
              [] \<Rightarrow> tx_ret None
            | t # _ \<Rightarrow>
                tx_bind (tx_set (close_target outcome t)) (\<lambda>_.
                tx_bind (hydrate_deleted_leases_tx [deleted_of_target t] True) (\<lambda>moved.
                  tx_ret (first_of moved)))))"

definition running_lease :: "job_id \<Rightarrow> int \<Rightarrow> lease_entry \<Rightarrow> bool" where
  "running_lease job_id run_lease l \<longleftrightarrow>
    ls_job_id l = job_id \<and> ls_run_lease l = run_lease \<and> ls_state l = Running"

definition take_running_attempt_tx ::
  "job_id \<Rightarrow> int \<Rightarrow> string \<Rightarrow> claimed_entry option \<Rightarrow> lease_transition_row option tx" where
  "take_running_attempt_tx job_id run_lease receipt_outcome claim =
    tx_bind (close_open_receipt_claim_tx job_id run_lease receipt_outcome claim) (\<lambda>moved.
      case moved of
        Some row \<Rightarrow> tx_ret (Some row)
      | None \<Rightarrow>
          tx_bind (tx_get (\<lambda>s. filter (running_lease job_id run_lease) (s_leases s))) (\<lambda>leases.
          tx_bind (tx_set (\<lambda>s. s\<lparr>s_leases := filter (\<lambda>l. \<not> running_lease job_id run_lease l) (s_leases s)\<rparr>)) (\<lambda>_.
          if leases = [] then tx_ret None
          else tx_bind (hydrate_deleted_leases_tx (map deleted_of_lease leases) True)
                 (\<lambda>moved. tx_ret (first_of moved)))))"

subsection \<open>Open claims of some attempts\<close>

text \<open>
  The joins of the in-flight attempts of a statement with the open row claims and with the open items of batches.
  Each in-flight entry carries what the statement binds to it.
\<close>

definition row_claim_refs :: "store \<Rightarrow> (job_id \<times> int \<times> 'a) list \<Rightarrow> (lease_claim \<times> 'a) list" where
  "row_claim_refs s jobs =
    concat (map (\<lambda>c. map (\<lambda>(_, _, a). (c, a))
                        (filter (\<lambda>(j, l, _). j = lc_job_id c \<and> l = lc_run_lease c) jobs))
      (filter (\<lambda>c. \<not> receipt_closed_evidence s c) (s_lease_claims s)))"

definition batch_claim_refs ::
  "store \<Rightarrow> (job_id \<times> int \<times> 'a) list \<Rightarrow> ((lease_claim_batch \<times> claim_item) \<times> 'a) list" where
  "batch_claim_refs s jobs =
    concat (map (\<lambda>(b, i). map (\<lambda>(_, _, a). ((b, i), a))
                        (filter (\<lambda>(j, l, _). j = it_job_id i \<and> l = it_run_lease i) jobs))
      (filter (\<lambda>(b, i). \<not> item_closed s b i \<and> \<not> moved_on s (it_job_id i) (it_run_lease i)) (batch_items s)))"

definition claim_lease :: "int \<times> int \<Rightarrow> timestamp \<Rightarrow> lease_claim \<Rightarrow> lease_entry" where
  "claim_lease ring now c =
    \<lparr> ls_lease_slot = fst ring, ls_lease_generation = snd ring, ls_ready_slot = lc_ready_slot c,
      ls_ready_generation = lc_ready_generation c, ls_job_id = lc_job_id c, ls_queue = lc_queue c,
      ls_state = Running, ls_priority = lc_priority c, ls_attempt = lc_attempt c,
      ls_run_lease = lc_run_lease c, ls_max_attempts = lc_max_attempts c, ls_lane_seq = lc_lane_seq c,
      ls_enqueue_shard = lc_enqueue_shard c, ls_heartbeat_at = Some now, ls_deadline_at = lc_deadline_at c,
      ls_attempted_at = Some (lc_claimed_at c), ls_callback_id = None, ls_callback_timeout_at = None \<rparr>"

definition item_lease :: "int \<times> int \<Rightarrow> timestamp \<Rightarrow> lease_claim_batch \<times> claim_item \<Rightarrow> lease_entry" where
  "item_lease ring now bi =
    (case bi of (b, i) \<Rightarrow>
      \<lparr> ls_lease_slot = fst ring, ls_lease_generation = snd ring, ls_ready_slot = lb_ready_slot b,
        ls_ready_generation = lb_ready_generation b, ls_job_id = it_job_id i, ls_queue = lb_queue b,
        ls_state = Running, ls_priority = lb_priority b, ls_attempt = it_attempt i,
        ls_run_lease = it_run_lease i, ls_max_attempts = it_max_attempts i, ls_lane_seq = it_lane_seq i,
        ls_enqueue_shard = lb_enqueue_shard b, ls_heartbeat_at = Some now, ls_deadline_at = lb_deadline_at b,
        ls_attempted_at = Some (lb_claimed_at b), ls_callback_id = None, ls_callback_timeout_at = None \<rparr>)"

definition lease_key :: "lease_entry \<Rightarrow> int \<times> string \<times> int \<times> int \<times> int" where
  "lease_key l = (ls_lease_slot l, ls_queue l, ls_priority l, ls_enqueue_shard l, ls_lane_seq l)"

definition insert_lease :: "lease_entry \<Rightarrow> unit tx" where
  "insert_lease l s =
    (if lease_key l \<in> set (map lease_key (s_leases s))
     then (Inl (pkey_conflict (partition_name ''leases'' (ls_lease_slot l))), s)
     else (Inr (), s\<lparr>s_leases := s_leases s @ [l]\<rparr>))"

definition lease_pair :: "lease_entry \<Rightarrow> job_id \<times> int" where
  "lease_pair l = (ls_job_id l, ls_run_lease l)"

text \<open>
  The lease ring is read from its ledger under either authority; with no ledger row there is nothing to join.
\<close>

definition lease_ring_rows :: "store \<Rightarrow> (int \<times> int) list" where
  "lease_ring_rows s = (case ledger_cursor (s_lease_ring s) of Inl _ \<Rightarrow> [] | Inr cursor \<Rightarrow> [cursor])"

definition claim_ref_leases :: "store \<Rightarrow> (job_id \<times> int) list \<Rightarrow> lease_entry list" where
  "claim_ref_leases s jobs =
    (let inflight = map (\<lambda>(j, l). (j, l, ())) jobs in
     concat (map (\<lambda>ring.
        map (\<lambda>(c, _). claim_lease ring (s_now s) c) (row_claim_refs s inflight) @
        map (\<lambda>(bi, _). item_lease ring (s_now s) bi) (batch_claim_refs s inflight)) (lease_ring_rows s)))"

definition claim_ref_pairs :: "store \<Rightarrow> (job_id \<times> int) list \<Rightarrow> (job_id \<times> int) list" where
  "claim_ref_pairs s jobs =
    (let inflight = map (\<lambda>(j, l). (j, l, ())) jobs in
     map (\<lambda>(c, _). (lc_job_id c, lc_run_lease c)) (row_claim_refs s inflight) @
     map (\<lambda>((b, i), _). (it_job_id i, it_run_lease i)) (batch_claim_refs s inflight))"

definition ensure_running_leases_from_receipts_tx :: "(job_id \<times> int) list \<Rightarrow> nat tx" where
  "ensure_running_leases_from_receipts_tx jobs =
    (if jobs = [] then tx_ret 0
     else
       tx_bind (tx_get (\<lambda>s. filter (\<lambda>l. \<not> leased s (ls_job_id l) (ls_run_lease l)) (claim_ref_leases s jobs))) (\<lambda>new.
       tx_bind (tx_get (\<lambda>s. filter (\<lambda>(j, l). leased s j l) (claim_ref_pairs s jobs))) (\<lambda>already_live.
       let moved = remdups (map lease_pair new @ already_live) in
       tx_bind (tx_for insert_lease new) (\<lambda>_.
       tx_bind (tx_set (\<lambda>s. s\<lparr>s_lease_claims := map (\<lambda>c.
                  if (lc_job_id c, lc_run_lease c) \<in> set moved then c\<lparr>lc_materialized_at := Some (s_now s)\<rparr> else c)
                  (s_lease_claims s)\<rparr>)) (\<lambda>_.
         tx_ret (length moved))))))"

definition ensure_mutable_running_attempt_tx :: "job_id \<Rightarrow> int \<Rightarrow> unit tx" where
  "ensure_mutable_running_attempt_tx job_id run_lease =
    tx_bind (tx_get (\<lambda>s. cfg_lease_claim_receipts (s_config s))) (\<lambda>receipts.
      if receipts then
        tx_bind (ensure_running_leases_from_receipts_tx [(job_id, run_lease)]) (\<lambda>_. tx_ret ())
      else tx_ret ())"


subsection \<open>Heartbeats and progress\<close>

definition new_attempt :: "job_id \<times> int \<Rightarrow> attempt_state_row" where
  "new_attempt jl =
    \<lparr> as_job_id = fst jl, as_run_lease = snd jl, as_heartbeat_at = None, as_progress = None,
      as_callback_filter = None, as_callback_on_complete = None, as_callback_on_fail = None,
      as_callback_transform = None, as_callback_result = None \<rparr>"

definition attempt_pair :: "attempt_state_row \<Rightarrow> job_id \<times> int" where
  "attempt_pair a = (as_job_id a, as_run_lease a)"

text \<open>
  \<^verbatim>\<open>INSERT INTO attempt_state ... ON CONFLICT (job_id, run_lease) DO UPDATE SET ...\<close>: each proposed row sets
  the same columns of a new row or of the old one, and a pair proposed twice is an error of the statement.
\<close>

definition upsert_attempt :: "(job_id \<times> int) \<times> (attempt_state_row \<Rightarrow> attempt_state_row) \<Rightarrow>
    attempt_state_row list \<Rightarrow> attempt_state_row list" where
  "upsert_attempt pf rows =
    (if fst pf \<in> set (map attempt_pair rows)
     then map (\<lambda>a. if attempt_pair a = fst pf then snd pf a else a) rows
     else rows @ [snd pf (new_attempt (fst pf))])"

definition affects_row_twice :: awa_error where
  "affects_row_twice = map_sqlx_error (DbError (Some ''21000'') None)"

definition upsert_attempts :: "((job_id \<times> int) \<times> (attempt_state_row \<Rightarrow> attempt_state_row)) list \<Rightarrow> nat tx" where
  "upsert_attempts pfs =
    (if \<not> distinct (map fst pfs) then tx_err affects_row_twice
     else tx_bind (tx_set (\<lambda>s. s\<lparr>s_attempts := fold upsert_attempt pfs (s_attempts s)\<rparr>)) (\<lambda>_. tx_ret (length pfs)))"

text \<open>Every row claim that got a heartbeat is marked materialized, once.\<close>

definition mark_materialized :: "(job_id \<times> int) list \<Rightarrow> unit tx" where
  "mark_materialized pairs =
    tx_set (\<lambda>s. s\<lparr>s_lease_claims := map (\<lambda>c.
      if (lc_job_id c, lc_run_lease c) \<in> set pairs
      then c\<lparr>lc_materialized_at := Some (or_default (lc_materialized_at c) (s_now s))\<rparr> else c) (s_lease_claims s)\<rparr>)"

definition open_claim_upserts ::
  "(timestamp \<Rightarrow> 'a \<Rightarrow> attempt_state_row \<Rightarrow> attempt_state_row) \<Rightarrow> (job_id \<times> int \<times> 'a) list \<Rightarrow> store \<Rightarrow>
     ((job_id \<times> int) \<times> (attempt_state_row \<Rightarrow> attempt_state_row)) list" where
  "open_claim_upserts columns jobs s =
    map (\<lambda>(c, a). ((lc_job_id c, lc_run_lease c), columns (s_now s) a)) (row_claim_refs s jobs) @
    map (\<lambda>((b, i), a). ((it_job_id i, it_run_lease i), columns (s_now s) a)) (batch_claim_refs s jobs)"

definition upsert_from_receipts ::
  "(timestamp \<Rightarrow> 'a \<Rightarrow> attempt_state_row \<Rightarrow> attempt_state_row) \<Rightarrow> (job_id \<times> int \<times> 'a) list \<Rightarrow> nat tx" where
  "upsert_from_receipts columns jobs =
    (if jobs = [] then tx_ret 0
     else
       tx_bind (tx_get (open_claim_upserts columns jobs)) (\<lambda>upserts.
       tx_bind (tx_get (\<lambda>s. map (\<lambda>(c, _). (lc_job_id c, lc_run_lease c)) (row_claim_refs s jobs))) (\<lambda>rows.
       tx_bind (upsert_attempts upserts) (\<lambda>n.
       tx_bind (mark_materialized rows) (\<lambda>_. tx_ret n)))))"

definition upsert_attempt_state_from_receipts_tx :: "(job_id \<times> int) list \<Rightarrow> nat tx" where
  "upsert_attempt_state_from_receipts_tx jobs =
    upsert_from_receipts (\<lambda>now _ a. a\<lparr>as_heartbeat_at := Some now\<rparr>) (map (\<lambda>(j, l). (j, l, ())) jobs)"

definition upsert_attempt_state_progress_from_receipts_tx :: "(job_id \<times> int \<times> json) list \<Rightarrow> nat tx" where
  "upsert_attempt_state_progress_from_receipts_tx jobs =
    upsert_from_receipts (\<lambda>now progress a. a\<lparr>as_heartbeat_at := Some now, as_progress := Some progress\<rparr>) jobs"

definition flush_progress :: "job_id \<Rightarrow> int \<Rightarrow> json \<Rightarrow> unit tx" where
  "flush_progress job_id run_lease progress =
    in_tx (
      tx_bind (tx_get (\<lambda>s. cfg_lease_claim_receipts (s_config s))) (\<lambda>receipts.
      tx_bind (if receipts then upsert_attempt_state_progress_from_receipts_tx [(job_id, run_lease, progress)]
               else tx_ret 0) (\<lambda>_.
      tx_bind (tx_get (\<lambda>s. filter (\<lambda>l. lease_pair l = (job_id, run_lease) \<and>
                 (ls_state l = Running \<or> ls_state l = WaitingExternal)) (s_leases s))) (\<lambda>leases.
      tx_bind (upsert_attempts (map (\<lambda>l. (lease_pair l, \<lambda>a. a\<lparr>as_progress := Some progress\<rparr>)) leases)) (\<lambda>_.
        tx_ret ())))))"

definition heartbeat_claims_batch :: "claim_heartbeat_ref list \<Rightarrow> nat tx" where
  "heartbeat_claims_batch claims =
    (if claims = [] then tx_ret 0
     else in_tx (
       tx_bind (tx_get (\<lambda>s. concat (map (\<lambda>h.
           concat (map (\<lambda>b. case item_at b (hr_claim_batch_index h) of
               None \<Rightarrow> []
             | Some i \<Rightarrow>
                 if it_job_id i = hr_job_id h \<and> it_run_lease i = hr_run_lease h \<and>
                    it_receipt_id i = hr_receipt_id h \<and> \<not> item_closed s b i \<and>
                    \<not> moved_on s (hr_job_id h) (hr_run_lease h)
                 then [((hr_job_id h, hr_run_lease h), \<lambda>a. a\<lparr>as_heartbeat_at := Some (s_now s)\<rparr>)] else [])
             (filter (\<lambda>b. lb_claim_slot b = hr_claim_slot h \<and> lb_batch_id b = hr_claim_batch_id h)
                (s_claim_batches s)))) claims))) (\<lambda>upserts.
         upsert_attempts upserts)))"

definition inflight_running :: "store \<Rightarrow> (job_id \<times> int) list \<Rightarrow> lease_entry list" where
  "inflight_running s pairs = filter (\<lambda>l. lease_pair l \<in> set pairs \<and> ls_state l = Running) (s_leases s)"

definition beat_leases :: "(job_id \<times> int) list \<Rightarrow> store \<Rightarrow> store" where
  "beat_leases pairs s =
    s\<lparr>s_leases := map (\<lambda>l. if lease_pair l \<in> set pairs \<and> ls_state l = Running
                           then l\<lparr>ls_heartbeat_at := Some (s_now s)\<rparr> else l) (s_leases s)\<rparr>"

definition heartbeat_batch :: "(job_id \<times> int) list \<Rightarrow> nat tx" where
  "heartbeat_batch jobs =
    (if jobs = [] then tx_ret 0
     else in_tx (
       tx_bind (tx_get (\<lambda>s. cfg_lease_claim_receipts (s_config s))) (\<lambda>receipts.
       if receipts then upsert_attempt_state_from_receipts_tx jobs
       else
         tx_bind (tx_get (\<lambda>s. inflight_running s jobs)) (\<lambda>leases.
         tx_bind (tx_set (beat_leases jobs)) (\<lambda>_. tx_ret (length leases))))))"

definition bound_progress :: "(job_id \<times> int \<times> json) list \<Rightarrow> job_id \<times> int \<Rightarrow> json option" where
  "bound_progress jobs pair = map_of (map (\<lambda>(j, l, p). ((j, l), p)) jobs) pair"

definition heartbeat_progress_batch :: "(job_id \<times> int \<times> json) list \<Rightarrow> nat tx" where
  "heartbeat_progress_batch jobs =
    (if jobs = [] then tx_ret 0
     else in_tx (
       tx_bind (tx_get (\<lambda>s. cfg_lease_claim_receipts (s_config s))) (\<lambda>receipts.
       if receipts then upsert_attempt_state_progress_from_receipts_tx jobs
       else
         let pairs = map (\<lambda>(j, l, _). (j, l)) jobs in
         tx_bind (tx_get (\<lambda>s. inflight_running s pairs)) (\<lambda>leases.
         tx_bind (tx_set (beat_leases pairs)) (\<lambda>_.
         tx_bind (upsert_attempts (map (\<lambda>l. (lease_pair l,
                    \<lambda>a. a\<lparr>as_progress := bound_progress jobs (lease_pair l)\<rparr>)) leases)) (\<lambda>_.
           tx_ret (length leases)))))))"

definition attempt_row_bare :: "attempt_state_row \<Rightarrow> bool" where
  "attempt_row_bare a \<longleftrightarrow>
    as_progress a = None \<and> as_callback_filter a = None \<and> as_callback_on_complete a = None \<and>
    as_callback_on_fail a = None \<and> as_callback_transform a = None"

definition take_callback_result :: "job_id \<Rightarrow> int \<Rightarrow> json tx" where
  "take_callback_result job_id run_lease =
    in_tx (
      tx_bind (tx_get (\<lambda>s. find_attempt s job_id run_lease)) (\<lambda>row.
        case row of
          None \<Rightarrow> tx_ret JNull
        | Some a \<Rightarrow>
            tx_bind (tx_set (\<lambda>s. s\<lparr>s_attempts :=
                if attempt_row_bare a then filter (\<lambda>x. attempt_pair x \<noteq> (job_id, run_lease)) (s_attempts s)
                else map (\<lambda>x. if attempt_pair x = (job_id, run_lease) then x\<lparr>as_callback_result := None\<rparr> else x)
                       (s_attempts s)\<rparr>))
              (\<lambda>_. tx_ret (or_default (as_callback_result a) JNull))))"

subsection \<open>An attempt is taken at most once\<close>

text \<open>
  What a taker leaves behind: no running lease of the attempt, a closure for each of its row claims and closing
  evidence for each of its batch items.
\<close>

definition taken :: "job_id \<Rightarrow> int \<Rightarrow> store \<Rightarrow> bool" where
  "taken j l s \<longleftrightarrow>
    (\<forall>x \<in> set (s_leases s). \<not> running_lease j l x) \<and>
    (\<forall>c \<in> set (s_lease_claims s). lc_job_id c = j \<and> lc_run_lease c = l \<longrightarrow> has_closure s (lc_claim_slot c) j l) \<and>
    (\<forall>(b, i) \<in> set (batch_items s). it_job_id i = j \<and> it_run_lease i = l \<longrightarrow> item_closed s b i)"

text \<open>Later stores in which nobody claims the attempt again.\<close>

definition no_new_claims :: "job_id \<Rightarrow> int \<Rightarrow> store \<Rightarrow> store \<Rightarrow> bool" where
  "no_new_claims j l s s' \<longleftrightarrow>
    set (s_closures s) \<subseteq> set (s_closures s') \<and> set (s_closure_batches s) \<subseteq> set (s_closure_batches s') \<and>
    (\<forall>c' \<in> set (s_lease_claims s'). lc_job_id c' = j \<and> lc_run_lease c' = l \<longrightarrow>
       (\<exists>c \<in> set (s_lease_claims s). lc_claim_slot c = lc_claim_slot c' \<and> lc_job_id c = j \<and> lc_run_lease c = l)) \<and>
    (\<forall>bi \<in> set (batch_items s'). it_job_id (snd bi) = j \<and> it_run_lease (snd bi) = l \<longrightarrow> bi \<in> set (batch_items s)) \<and>
    (\<forall>x \<in> set (s_leases s'). running_lease j l x \<longrightarrow> (\<exists>y \<in> set (s_leases s). running_lease j l y))"

lemma has_closure_mono: "set (s_closures s) \<subseteq> set (s_closures s') \<Longrightarrow> has_closure s a b c \<Longrightarrow> has_closure s' a b c"
  by (auto simp: has_closure_def)

lemma batch_closed_mono:
  "set (s_closure_batches s) \<subseteq> set (s_closure_batches s') \<Longrightarrow> batch_closed s a b \<Longrightarrow> batch_closed s' a b"
  by (auto simp: batch_closed_def)

lemma taken_later: "taken j l s \<Longrightarrow> no_new_claims j l s s' \<Longrightarrow> taken j l s'"
proof -
  assume t: "taken j l s" and n: "no_new_claims j l s s'"
  have cl: "set (s_closures s) \<subseteq> set (s_closures s')" "set (s_closure_batches s) \<subseteq> set (s_closure_batches s')"
    using n by (auto simp: no_new_claims_def)
  have "item_closed s' b i" if "item_closed s b i" for b i
    using that has_closure_mono [OF cl(1)] batch_closed_mono [OF cl(2)] by (auto simp: item_closed_def)
  moreover have "has_closure s' (lc_claim_slot c) j l" if "c \<in> set (s_lease_claims s')" "lc_job_id c = j" "lc_run_lease c = l" for c
  proof -
    from that n obtain c0 where "c0 \<in> set (s_lease_claims s)" "lc_claim_slot c0 = lc_claim_slot c" "lc_job_id c0 = j"
      "lc_run_lease c0 = l" by (auto simp: no_new_claims_def)
    with t have "has_closure s (lc_claim_slot c) j l" by (auto simp: taken_def)
    then show ?thesis by (rule has_closure_mono [OF cl(1)])
  qed
  ultimately show "taken j l s'" using t n by (fastforce simp: taken_def no_new_claims_def)
qed

lemma in_batch_items: "(b, i) \<in> set (batch_items s) \<longleftrightarrow> b \<in> set (s_claim_batches s) \<and> i \<in> set (lb_items b)"
  by (auto simp: batch_items_def)

lemma compact_target_open:
  assumes "compact_target s j l slot batch index receipt = Some (b, i)"
  shows "(b, i) \<in> set (batch_items s)" "it_job_id i = j" "it_run_lease i = l" "\<not> item_closed s b i" "\<not> leased s j l"
proof -
  have "b \<in> set (s_claim_batches s)" "item_at b index = Some i"
    using assms by (auto simp: compact_target_def find_Some_iff split: option.splits if_splits)
  then show "(b, i) \<in> set (batch_items s)"
    by (auto simp: in_batch_items item_at_def split: if_splits)
  show "it_job_id i = j" "it_run_lease i = l" "\<not> item_closed s b i" "\<not> leased s j l"
    using assms by (auto simp: compact_target_def split: option.splits if_splits)
qed

lemma taken_turns_away:
  assumes "taken j l s" "\<And>slot batch index receipt. compact_identity claim = Some (slot, batch, index, receipt) \<Longrightarrow> 0 \<le> slot"
  shows "take_running_attempt_tx j l out claim s = (Inr None, s)"
proof -
  have "compact_target s j l slot batch index receipt = None" for slot batch index receipt
    using compact_target_open [of s j l slot batch index receipt] assms(1)
    by (cases "compact_target s j l slot batch index receipt") (auto simp: taken_def)
  moreover have "open_targets s j l = []"
    using assms(1) by (auto simp: open_targets_def taken_def filter_empty_conv receipt_closed_evidence_def)
  ultimately have none: "close_open_receipt_claim_tx j l out claim s = (Inr None, s)"
    using assms(2)
    by (auto simp: close_open_receipt_claim_tx_def close_compact_receipt_claim_tx_def tx_simps not_less split: option.split)
  have "filter (running_lease j l) (s_leases s) = []" "filter (\<lambda>x. \<not> running_lease j l x) (s_leases s) = s_leases s"
    using assms(1) by (auto simp: taken_def filter_empty_conv filter_id_conv)
  then show ?thesis by (simp add: take_running_attempt_tx_def tx_simps none)
qed

lemma closure_batches_cover:
  assumes "(b, i) \<in> set hits"
  shows "\<exists>x \<in> set (closure_batches outcome now hits). xb_claim_slot x = lb_claim_slot b \<and> it_receipt_id i \<in> set (xb_receipt_ids x)"
  using assms unfolding closure_batches_def
  by (intro bexI [of _ "(\<lambda>(slot, ready_slot, ready_generation).
          \<lparr> xb_claim_slot = slot, xb_ready_slot = ready_slot, xb_ready_generation = ready_generation,
            xb_outcome = outcome,
            xb_receipt_ids = sort (map (\<lambda>bi. it_receipt_id (snd bi))
              (filter (\<lambda>bi. item_group bi = (slot, ready_slot, ready_generation)) hits)),
            xb_closed_at = now \<rparr>) (item_group (b, i))"])
    (force simp: item_group_def)+

lemma rescue_closures_fields:
  "s_leases (rescue_closures refs s) = s_leases s" "s_claim_batches (rescue_closures refs s) = s_claim_batches s"
  "batch_items (rescue_closures refs s) = batch_items s"
  "s_config (rescue_closures refs s) = s_config s" "s_ready (rescue_closures refs s) = s_ready s"
  by (simp_all add: rescue_closures_def Let_def close_row_claims_def tx_simps batch_items_def)

lemma rescue_closes_rows:
  assumes "(j, l) \<in> set refs" "c \<in> set (s_lease_claims (rescue_closures refs s))" "lc_job_id c = j" "lc_run_lease c = l"
  shows "has_closure (rescue_closures refs s) (lc_claim_slot c) j l"
proof -
  define hit where "hit = (\<lambda>c :: lease_claim. (lc_job_id c, lc_run_lease c) \<in> set refs \<and> \<not> has_closure s (lc_claim_slot c) (lc_job_id c) (lc_run_lease c))"
  define closure where "closure = (\<lambda>c :: lease_claim. \<lparr> cc_claim_slot = lc_claim_slot c, cc_job_id = lc_job_id c,
      cc_run_lease = lc_run_lease c, cc_outcome = ''rescue'', cc_closed_at = s_now s \<rparr>)"
  have closures: "s_closures (rescue_closures refs s) = s_closures s @ map closure (filter hit (s_lease_claims s))"
    by (simp add: rescue_closures_def Let_def close_row_claims_def tx_simps hit_def closure_def)
  obtain c0 where c0: "c0 \<in> set (s_lease_claims s)" "lc_claim_slot c0 = lc_claim_slot c" "lc_job_id c0 = j" "lc_run_lease c0 = l"
    using assms(2-4) by (auto simp: rescue_closures_def Let_def close_row_claims_def tx_simps split: if_splits)
  show ?thesis
  proof (cases "has_closure s (lc_claim_slot c) j l")
    case True
    then show ?thesis by (rule has_closure_mono [rotated]) (simp add: closures)
  next
    case False
    then have "closure c0 \<in> set (s_closures (rescue_closures refs s))"
      using c0 assms(1) by (simp add: closures hit_def)
    moreover have "cc_claim_slot (closure c0) = lc_claim_slot c" "cc_job_id (closure c0) = j" "cc_run_lease (closure c0) = l"
      using c0 by (simp_all add: closure_def)
    ultimately show ?thesis unfolding has_closure_def by blast
  qed
qed

lemma rescue_closes_items:
  assumes "(it_job_id i, it_run_lease i) \<in> set refs" "(b, i) \<in> set (batch_items s)"
  shows "item_closed (rescue_closures refs s) b i"
proof (cases "item_closed s b i")
  case True
  moreover have "set (s_closures s) \<subseteq> set (s_closures (rescue_closures refs s))"
    "set (s_closure_batches s) \<subseteq> set (s_closure_batches (rescue_closures refs s))"
    by (auto simp: rescue_closures_def Let_def close_row_claims_def tx_simps)
  ultimately show ?thesis
    unfolding item_closed_def using has_closure_mono batch_closed_mono by blast
next
  case False
  let ?hits = "filter (\<lambda>(b, i). (it_job_id i, it_run_lease i) \<in> set refs \<and> \<not> item_closed s b i) (batch_items s)"
  have "(b, i) \<in> set ?hits" using False assms by simp
  then have "batch_closed (rescue_closures refs s) (lb_claim_slot b) (it_receipt_id i)"
    using closure_batches_cover [of b i ?hits "''rescue''" "s_now s"]
    by (auto simp: batch_closed_def rescue_closures_def Let_def)
  then show ?thesis by (simp add: item_closed_def)
qed

lemma rescue_taken:
  assumes "(j, l) \<in> set refs" "\<And>x. x \<in> set (s_leases s) \<Longrightarrow> \<not> running_lease j l x"
  shows "taken j l (rescue_closures refs s)"
  unfolding taken_def
  using assms rescue_closes_rows [OF assms(1)] rescue_closes_items [of _ refs _ s]
  by (auto simp: rescue_closures_fields)

lemma lift_all:
  "tx_for (\<lambda>d. tx_lift (f d)) ds s = (Inr ys, s') \<Longrightarrow> s' = s \<and> list_all2 (\<lambda>d y. f d = Inr y) ds ys"
  by (induction ds arbitrary: ys) (auto simp: tx_simps tx_bind_Inr)

lemma hydrate_result:
  assumes "hydrate_deleted_leases_tx deleted w s = (Inr moved, s')" "deleted \<noteq> []"
  defines "refs \<equiv> map (\<lambda>d. (dl_job_id d, dl_run_lease d)) deleted"
  shows "s' = (if w then rescue_closures refs (delete_attempts refs s) else delete_attempts refs s) \<and>
    list_all2 (\<lambda>d y. hydrate_one s d = Inr y) deleted moved"
  using assms
  by (auto simp: hydrate_deleted_leases_tx_def Let_def tx_simps refs_def dest!: lift_all split: if_splits)

lemma hydrated_identity: "hydrate_one s d = Inr y \<Longrightarrow> r_job_id y = dl_job_id d \<and> r_run_lease y = dl_run_lease d"
  by (auto simp: hydrate_one_def hydrate_row_def split: option.splits)

definition sole_item :: "job_id \<Rightarrow> int \<Rightarrow> store \<Rightarrow> bool" where
  "sole_item j l s \<longleftrightarrow>
    (\<forall>c \<in> set (s_lease_claims s). \<not> (lc_job_id c = j \<and> lc_run_lease c = l)) \<and>
    length (filter (\<lambda>(b, i). it_job_id i = j \<and> it_run_lease i = l) (batch_items s)) \<le> 1"

lemma hydrate_first:
  assumes "tx_bind (hydrate_deleted_leases_tx deleted w) (\<lambda>moved. tx_ret (first_of moved)) s = (Inr m, s')" "deleted \<noteq> []"
  shows "\<exists>row. m = Some row \<and> hydrate_one s (hd deleted) = Inr row \<and>
    s' = (let refs = map (\<lambda>d. (dl_job_id d, dl_run_lease d)) deleted in
          if w then rescue_closures refs (delete_attempts refs s) else delete_attempts refs s)"
proof -
  obtain moved where m: "hydrate_deleted_leases_tx deleted w s = (Inr moved, s')" "m = first_of moved"
    using assms(1) by (auto simp: tx_bind_Inr tx_simps)
  have h: "list_all2 (\<lambda>d y. hydrate_one s d = Inr y) deleted moved"
    "s' = (let refs = map (\<lambda>d. (dl_job_id d, dl_run_lease d)) deleted in
          if w then rescue_closures refs (delete_attempts refs s) else delete_attempts refs s)"
    using hydrate_result [OF m(1) assms(2)] by (simp_all add: Let_def)
  then show ?thesis using m(2) assms(2) by (cases deleted; cases moved) (auto simp: first_of_def)
qed

lemma close_open_cases:
  assumes "close_open_receipt_claim_tx j l out claim s = (Inr m, s')"
  obtains (None) "m = None" "s' = s"
  | (Compact) row b i where "compact_identity claim \<noteq> None" "(b, i) \<in> set (batch_items s)" "it_job_id i = j"
      "it_run_lease i = l" "\<not> leased s j l" "m = Some row"
      "hydrate_one (close_item out (b, i) s) (deleted_of_item (b, i)) = Inr row"
      "s' = delete_attempts [(j, l)] (close_item out (b, i) s)"
  | (Open) row t where "t \<in> set (open_targets s j l)" "m = Some row"
      "hydrate_one (close_target out t s) (deleted_of_target t) = Inr row"
      "s' = rescue_closures [(dl_job_id (deleted_of_target t), dl_run_lease (deleted_of_target t))]
              (delete_attempts [(dl_job_id (deleted_of_target t), dl_run_lease (deleted_of_target t))] (close_target out t s))"
proof (cases "cfg_lease_claim_receipts (s_config s)")
  case False
  then show thesis using assms None by (simp add: close_open_receipt_claim_tx_def tx_simps)
next
  case receipts: True
  show thesis
  proof (cases "compact_identity claim")
    case id: (Some k)
    obtain slot batch index receipt where k: "k = (slot, batch, index, receipt)" by (cases k)
    have pos: "\<not> slot < 0"
      using assms receipts id k by (auto simp: close_open_receipt_claim_tx_def close_compact_receipt_claim_tx_def tx_simps)
    show thesis
    proof (cases "compact_target s j l slot batch index receipt")
      case none: None
      show thesis
        by (rule None) (use assms receipts id k pos none in
            \<open>simp_all add: close_open_receipt_claim_tx_def close_compact_receipt_claim_tx_def tx_simps\<close>)
    next
      case (Some bi)
      obtain b i where bi: "bi = (b, i)" by (cases bi)
      note o = compact_target_open [OF Some [unfolded bi]]
      have "tx_bind (hydrate_deleted_leases_tx [deleted_of_item (b, i)] False) (\<lambda>moved. tx_ret (first_of moved))
          (close_item out (b, i) s) = (Inr m, s')"
        using assms receipts id k pos Some bi
        by (simp add: close_open_receipt_claim_tx_def close_compact_receipt_claim_tx_def tx_simps)
      from hydrate_first [OF this] obtain row where "m = Some row"
        "hydrate_one (close_item out (b, i) s) (deleted_of_item (b, i)) = Inr row"
        "s' = delete_attempts [(j, l)] (close_item out (b, i) s)"
        using o by (auto simp: Let_def deleted_of_item_def)
      then show thesis using Compact [of b i row] id o by simp
    qed
  next
    case none: None
    show thesis
    proof (cases "open_targets s j l")
      case Nil
      then show thesis using assms receipts none None by (simp add: close_open_receipt_claim_tx_def tx_simps)
    next
      case (Cons t ts)
      have "tx_bind (hydrate_deleted_leases_tx [deleted_of_target t] True) (\<lambda>moved. tx_ret (first_of moved))
          (close_target out t s) = (Inr m, s')"
        using assms receipts none Cons by (simp add: close_open_receipt_claim_tx_def tx_simps)
      from hydrate_first [OF this] show thesis using Open [of t] Cons by (auto simp: Let_def)
    qed
  qed
qed

lemma open_target_identity:
  assumes "t \<in> set (open_targets s j l)"
  shows "dl_job_id (deleted_of_target t) = j" "dl_run_lease (deleted_of_target t) = l" "\<not> leased s j l"
  using assms by (auto simp: open_targets_def deleted_of_claim_def deleted_of_item_def split: if_splits)

lemma close_target_leases [simp]: "s_leases (close_target out t s) = s_leases s"
  by (cases t) (simp_all add: close_item_def)

lemma delete_attempts_fields [simp]:
  "s_leases (delete_attempts refs s) = s_leases s" "s_lease_claims (delete_attempts refs s) = s_lease_claims s"
  "s_claim_batches (delete_attempts refs s) = s_claim_batches s" "s_closures (delete_attempts refs s) = s_closures s"
  "s_closure_batches (delete_attempts refs s) = s_closure_batches s"
  by (simp_all add: delete_attempts_def)

lemma compact_taken:
  assumes "sole_item j l s" "(b, i) \<in> set (batch_items s)" "it_job_id i = j" "it_run_lease i = l" "\<not> leased s j l"
  shows "taken j l (delete_attempts refs (close_item out (b, i) s))"
proof -
  let ?s' = "delete_attempts refs (close_item out (b, i) s)"
  have items: "batch_items ?s' = batch_items s" by (simp add: batch_items_def close_item_def)
  have "bi = (b, i)" if "bi \<in> set (batch_items s)" "it_job_id (snd bi) = j" "it_run_lease (snd bi) = l" for bi
  proof -
    let ?f = "filter (\<lambda>(b, i). it_job_id i = j \<and> it_run_lease i = l) (batch_items s)"
    have "bi \<in> set ?f" "(b, i) \<in> set ?f" "length ?f \<le> 1" using assms that by (auto simp: sole_item_def)
    then show ?thesis by (cases ?f) auto
  qed
  moreover have "item_closed ?s' b i"
    using closure_batches_cover [of b i "[(b, i)]" out "s_now s"]
    by (auto simp: item_closed_def batch_closed_def close_item_def)
  ultimately show ?thesis
    using assms(1,5) unfolding taken_def items
    by (auto simp: sole_item_def leased_def running_lease_def close_item_def)
qed

lemma take_running_taken:
  assumes run: "take_running_attempt_tx j l out claim s = (Inr (Some row), s')"
    and sole: "compact_identity claim \<noteq> None \<Longrightarrow> sole_item j l s"
  shows "taken j l s' \<and> r_job_id row = j \<and> r_run_lease row = l"
proof -
  obtain m s1 where m: "close_open_receipt_claim_tx j l out claim s = (Inr m, s1)"
    using run by (auto simp: take_running_attempt_tx_def tx_bind_Inr)
  from m show ?thesis
  proof (cases rule: close_open_cases)
    case None
    let ?ls = "filter (running_lease j l) (s_leases s)"
    let ?s1 = "s\<lparr>s_leases := filter (\<lambda>x. \<not> running_lease j l x) (s_leases s)\<rparr>"
    have ne: "?ls \<noteq> []" using run m None by (auto simp: take_running_attempt_tx_def tx_simps split: if_splits)
    have "tx_bind (hydrate_deleted_leases_tx (map deleted_of_lease ?ls) True) (\<lambda>moved. tx_ret (first_of moved)) ?s1 =
        (Inr (Some row), s')"
      using run m None ne by (simp add: take_running_attempt_tx_def tx_simps)
    note h0 = hydrate_first [OF this]
    have pairs: "map (\<lambda>d. (dl_job_id d, dl_run_lease d)) (map deleted_of_lease ?ls) = map lease_pair ?ls"
      by (simp add: deleted_of_lease_def lease_pair_def)
    from h0 ne have h: "hydrate_one ?s1 (deleted_of_lease (hd ?ls)) = Inr row"
      "s' = rescue_closures (map lease_pair ?ls) (delete_attempts (map lease_pair ?ls) ?s1)"
      unfolding Let_def pairs by (simp_all add: hd_map)
    have hd: "running_lease j l (hd ?ls)" using hd_in_set [OF ne] by simp
    then have "(j, l) \<in> set (map lease_pair ?ls)"
      using hd_in_set [OF ne] by (auto simp: running_lease_def lease_pair_def image_iff)
    then have "taken j l s'" unfolding h(2) by (rule rescue_taken) simp
    then show ?thesis using hydrated_identity [OF h(1)] hd by (simp add: deleted_of_lease_def running_lease_def)
  next
    case (Compact row' b i)
    then have "row' = row" "s1 = s'" using run m by (simp_all add: take_running_attempt_tx_def tx_simps)
    then show ?thesis
      using compact_taken [OF sole, of b i "[(j, l)]" out] Compact hydrated_identity [OF Compact(7)]
      by (simp add: deleted_of_item_def)
  next
    case (Open row' t)
    then have eq: "row' = row" "s1 = s'" using run m by (simp_all add: take_running_attempt_tx_def tx_simps)
    note t = open_target_identity [OF Open(1)]
    have "taken j l s1"
      unfolding Open(4) t(1,2) by (rule rescue_taken) (use t(3) in \<open>auto simp: leased_def running_lease_def\<close>)
    then show ?thesis using hydrated_identity [OF Open(3)] t eq by simp
  qed
qed

text \<open>
  C3: a running attempt is taken at most once.  Whoever takes the attempt (job, run lease) gets a row of exactly
  that attempt, and every later taker, with whatever outcome and claim, finds nothing and changes nothing, as
  long as nobody claims the attempt anew.  For a claim that names its batch item, the item is the only claim of
  the attempt.
\<close>

theorem attempt_taken_once:
  assumes "take_running_attempt_tx j l outcome claim s = (Inr (Some row), s1)"
    and "compact_identity claim \<noteq> None \<Longrightarrow> sole_item j l s"
    and "no_new_claims j l s1 s2"
    and "\<And>slot batch index receipt. compact_identity claim' = Some (slot, batch, index, receipt) \<Longrightarrow> 0 \<le> slot"
  shows "r_job_id row = j \<and> r_run_lease row = l \<and>
    take_running_attempt_tx j l outcome' claim' s2 = (Inr None, s2)"
proof -
  have t: "taken j l s1 \<and> r_job_id row = j \<and> r_run_lease row = l"
    by (rule take_running_taken [OF assms(1)]) (rule assms(2))
  then have "taken j l s2" using taken_later assms(3) by blast
  then have "take_running_attempt_tx j l outcome' claim' s2 = (Inr None, s2)"
    by (rule taken_turns_away) (rule assms(4))
  with t show ?thesis by simp
qed

lemma no_new_claims_refl: "no_new_claims j l s s"
  by (auto simp: no_new_claims_def)

text \<open>A store with one job claimed through a batch, and the claim its worker holds.\<close>

definition mail_item :: claim_item where
  "mail_item = \<lparr> it_job_id = 7, it_run_lease = 1, it_receipt_id = 40, it_lane_seq = 0, it_attempt = 1, it_max_attempts = 3 \<rparr>"

definition mail_batch :: lease_claim_batch where
  "mail_batch =
    \<lparr> lb_claim_slot = 0, lb_batch_id = 9, lb_ready_slot = 0, lb_ready_generation = 0, lb_queue = ''q'',
      lb_priority = 2, lb_enqueue_shard = 0, lb_deadline_at = None, lb_claimed_at = 900, lb_items = [mail_item] \<rparr>"

definition claimed_store :: store where
  "claimed_store = fresh_store\<lparr>s_ready := [failed_mail_ready], s_heads := [(''q'', 2, 0) \<mapsto> 1],
     s_claim_heads := [(''q'', 2, 0) \<mapsto> 1], s_claim_batches := [mail_batch]\<rparr>"

definition mail_claim :: claimed_entry where
  "mail_claim =
    \<lparr> ce_queue = ''q'', ce_priority = 2, ce_lane_seq = 0, ce_ready_slot = 0, ce_ready_generation = 0,
      ce_lease_slot = 0, ce_lease_generation = 0, ce_claim_slot = 0, ce_receipt_id = Some 40,
      ce_claim_batch_id = Some 9, ce_claim_batch_index = Some 1, ce_lease_claim_receipt = True, ce_enqueue_shard = 0 \<rparr>"

lemma take_claimed:
  "\<exists>row. fst (take_running_attempt_tx 7 1 ''failed'' (Some mail_claim) claimed_store) = Inr (Some row) \<and>
     r_args row = JString ''to''"
proof -
  have "map_sum (\<lambda>_. ()) (map_option r_args) (fst (take_running_attempt_tx 7 1 ''failed'' (Some mail_claim) claimed_store)) =
      Inr (Some (JString ''to''))"
    by code_simp
  then show ?thesis
    by (cases "fst (take_running_attempt_tx 7 1 ''failed'' (Some mail_claim) claimed_store)") auto
qed

theorem attempt_taken_once_witness:
  "\<exists>row s1. take_running_attempt_tx 7 1 ''failed'' (Some mail_claim) claimed_store = (Inr (Some row), s1) \<and>
     take_running_attempt_tx 7 1 ''completed'' None s1 = (Inr None, s1)"
proof -
  obtain row s1 where r: "take_running_attempt_tx 7 1 ''failed'' (Some mail_claim) claimed_store = (Inr (Some row), s1)"
    using take_claimed by (metis prod.collapse)
  have "sole_item 7 1 claimed_store" by code_simp
  then show ?thesis
    using attempt_taken_once [OF r _ no_new_claims_refl, of None "''completed''"] r
    by (auto simp: compact_identity_def)
qed

end
