(* ===== verification/Awa_Lifecycle.thy ===== *)
theory Awa_Lifecycle
  imports Complex_Main Awa_Attempts
begin

section \<open>Outcomes of an attempt\<close>

text \<open>
  The transitions of \<^verbatim>\<open>queue_storage.rs\<close> out of a running attempt: retry, snooze, cancellation, failure, the
  dead-letter queue and the way back from it, the settlement of rescued attempts with its fallbacks, the
  promotion of due jobs, and the manual retry of a terminal job.
\<close>


subsection \<open>Environment\<close>

text \<open>
  What the operations take from outside the source: the text of a timestamp and of a duration
  (\<^verbatim>\<open>chrono\<close> and \<^verbatim>\<open>std\<close>), and the draw of \<^verbatim>\<open>random()\<close>.
\<close>

record life_env =
  le_rfc3339 :: "timestamp \<Rightarrow> string"
  le_secs_text :: "millis \<Rightarrow> string"
  le_random :: rat

text \<open>\<^verbatim>\<open>awa.backoff_duration\<close> in milliseconds: two to the attempt, up to a quarter more, at most a day.\<close>

definition backoff_duration :: "rat \<Rightarrow> int \<Rightarrow> millis" where
  "backoff_duration rnd attempt =
    min (1000 * 2 ^ nat attempt + \<lfloor>rnd * 250 * 2 ^ nat attempt\<rfloor>) (24 * 60 * 60 * 1000)"

definition backoff_at_tx :: "life_env \<Rightarrow> int \<Rightarrow> int \<Rightarrow> timestamp tx" where
  "backoff_at_tx env attempt max_attempts = tx_get (\<lambda>s. s_now s + backoff_duration (le_random env) attempt)"

text \<open>\<^verbatim>\<open>TimeDelta::from_std\<close> refuses a duration of more than \<^verbatim>\<open>i64::MAX\<close> milliseconds.\<close>

definition time_delta :: "string \<Rightarrow> millis \<Rightarrow> awa_error + millis" where
  "time_delta what d =
    (if d \<le> 2 ^ 63 - 1 then Inr d
     else Inl (Validation (''invalid '' @ what @ '': Source duration value is out of range for the target type'')))"


text \<open>The payload of a finished attempt: progress of the call or of the attempt, and one more error entry.\<close>

definition outcome_payload :: "lease_transition_row \<Rightarrow> json option \<Rightarrow> json \<Rightarrow> awa_error + json" where
  "outcome_payload moved progress entry =
    res_bind (with_progress (r_payload moved) (coalesce progress (lt_progress moved))) (\<lambda>v.
    res_bind (payload_from_json v) (\<lambda>p. Inr (payload_into_json (push_error p entry))))"


subsection \<open>Retry and snooze\<close>

definition retry_entry :: "life_env \<Rightarrow> timestamp \<Rightarrow> millis \<Rightarrow> json option \<Rightarrow> int \<Rightarrow> json" where
  "retry_entry env now retry_after out attempt =
    lifecycle_entry (le_rfc3339 env now)
      \<lparr> ae_message = ''retry requested after '' @ le_secs_text env retry_after @ ''s'', ae_output = out \<rparr> attempt False"

definition retry_after_with_output_in_tx ::
  "life_env \<Rightarrow> job_id \<Rightarrow> int \<Rightarrow> millis \<Rightarrow> json option \<Rightarrow> claimed_entry option \<Rightarrow> json option \<Rightarrow> job_row option tx" where
  "retry_after_with_output_in_tx env job_id run_lease retry_after progress claim out =
    tx_bind (take_running_attempt_tx job_id run_lease ''retryable'' claim) (\<lambda>taken.
      case taken of
        None \<Rightarrow> tx_ret None
      | Some moved \<Rightarrow>
          tx_bind (tx_get s_now) (\<lambda>now.
          tx_bind (tx_lift (if out \<noteq> None
                     then outcome_payload moved progress (retry_entry env now retry_after out (r_attempt moved))
                     else with_progress (r_payload moved) (coalesce progress (lt_progress moved)))) (\<lambda>payload.
          tx_bind (tx_lift (time_delta ''retry_after duration'' retry_after)) (\<lambda>d.
          let deferred = lease_into_deferred_row moved Retryable (now + d) (Some now) payload in
          tx_bind (insert_deferred_rows_tx [deferred] (Some (lt_state moved))) (\<lambda>_.
          tx_bind (tx_lift (deferred_into_job_row deferred)) (\<lambda>job. tx_ret (Some job)))))))"

definition retry_after_with_output ::
  "life_env \<Rightarrow> job_id \<Rightarrow> int \<Rightarrow> millis \<Rightarrow> json option \<Rightarrow> claimed_entry option \<Rightarrow> json option \<Rightarrow> job_row option tx" where
  "retry_after_with_output env job_id run_lease retry_after progress claim out =
    in_tx (retry_after_with_output_in_tx env job_id run_lease retry_after progress claim out)"

text \<open>An \<^verbatim>\<open>i16\<close> that stops at its minimum.\<close>

definition saturating_sub1 :: "int \<Rightarrow> int" where
  "saturating_sub1 n = max (- (2 ^ 15)) (n - 1)"

definition snooze_with_claim ::
  "job_id \<Rightarrow> int \<Rightarrow> millis \<Rightarrow> json option \<Rightarrow> claimed_entry option \<Rightarrow> job_row option tx" where
  "snooze_with_claim job_id run_lease snooze_for progress claim =
    tx_bind (in_tx (
      tx_bind (take_running_attempt_tx job_id run_lease ''scheduled'' claim) (\<lambda>taken.
        case taken of
          None \<Rightarrow> tx_ret None
        | Some moved \<Rightarrow>
            tx_bind (tx_get s_now) (\<lambda>now.
            tx_bind (tx_lift (with_progress (r_payload moved) (coalesce progress (lt_progress moved)))) (\<lambda>payload.
            tx_bind (tx_lift (time_delta ''snooze duration'' snooze_for)) (\<lambda>d.
            let deferred = lease_into_deferred_row moved Scheduled (now + d) None payload;
                deferred = deferred\<lparr>r_attempt := saturating_sub1 (r_attempt deferred)\<rparr> in
            tx_bind (insert_deferred_rows_tx [deferred] (Some (lt_state moved))) (\<lambda>_. tx_ret (Some deferred))))))))
      (\<lambda>snoozed. case snoozed of
         None \<Rightarrow> tx_ret None
       | Some deferred \<Rightarrow> tx_bind (tx_lift (deferred_into_job_row deferred)) (\<lambda>job. tx_ret (Some job)))"


subsection \<open>Cancellation and failure\<close>

definition finish_done ::
  "lease_transition_row \<Rightarrow> job_state \<Rightarrow> json \<Rightarrow> job_row option tx" where
  "finish_done moved state payload =
    tx_bind (tx_get s_now) (\<lambda>now.
    let row = lease_into_done_row moved state now payload in
    tx_bind (insert_done_rows_tx [row] (Some (lt_state moved))) (\<lambda>_.
    tx_bind (tx_lift (done_into_job_row row)) (\<lambda>job. tx_ret (Some job))))"

definition cancel_running_in_tx_with_claim ::
  "life_env \<Rightarrow> job_id \<Rightarrow> int \<Rightarrow> attempt_error \<Rightarrow> json option \<Rightarrow> claimed_entry option \<Rightarrow> job_row option tx" where
  "cancel_running_in_tx_with_claim env job_id run_lease reason progress claim =
    tx_bind (take_running_attempt_tx job_id run_lease ''cancelled'' claim) (\<lambda>taken.
      case taken of
        None \<Rightarrow> tx_ret None
      | Some moved \<Rightarrow>
          tx_bind (tx_get s_now) (\<lambda>now.
          tx_bind (tx_lift (outcome_payload moved progress
                     (lifecycle_entry (le_rfc3339 env now)
                        \<lparr> ae_message = ''cancelled: '' @ ae_message reason, ae_output = ae_output reason \<rparr>
                        (r_attempt moved) False))) (\<lambda>payload.
            finish_done moved Cancelled payload)))"

definition fail_terminal_in_tx_with_claim ::
  "life_env \<Rightarrow> job_id \<Rightarrow> int \<Rightarrow> attempt_error \<Rightarrow> json option \<Rightarrow> claimed_entry option \<Rightarrow> job_row option tx" where
  "fail_terminal_in_tx_with_claim env job_id run_lease error progress claim =
    tx_bind (take_running_attempt_tx job_id run_lease ''failed'' claim) (\<lambda>taken.
      case taken of
        None \<Rightarrow> tx_ret None
      | Some moved \<Rightarrow>
          tx_bind (tx_get s_now) (\<lambda>now.
          tx_bind (tx_lift (outcome_payload moved progress
                     (lifecycle_entry (le_rfc3339 env now) error (r_attempt moved) True))) (\<lambda>payload.
            finish_done moved Failed payload)))"

definition fail_to_dlq_in_tx_with_claim ::
  "life_env \<Rightarrow> job_id \<Rightarrow> int \<Rightarrow> string \<Rightarrow> attempt_error \<Rightarrow> json option \<Rightarrow> claimed_entry option \<Rightarrow> job_row option tx" where
  "fail_to_dlq_in_tx_with_claim env job_id run_lease dlq_reason error progress claim =
    tx_bind (take_running_attempt_tx job_id run_lease ''dlq'' claim) (\<lambda>taken.
      case taken of
        None \<Rightarrow> tx_ret None
      | Some moved \<Rightarrow>
          tx_bind (tx_get s_now) (\<lambda>now.
          tx_bind (tx_lift (outcome_payload moved progress
                     (lifecycle_entry (le_rfc3339 env now) error (r_attempt moved) True))) (\<lambda>payload.
          let row = lease_into_dlq_row moved now payload dlq_reason now in
          tx_bind (insert_dlq_rows_tx [row] (Some (lt_state moved))) (\<lambda>_.
          tx_bind (tx_lift (dlq_into_job_row row)) (\<lambda>job. tx_ret (Some job))))))"

definition fail_retryable_at_tx ::
  "life_env \<Rightarrow> job_id \<Rightarrow> int \<Rightarrow> attempt_error \<Rightarrow> json option \<Rightarrow> claimed_entry option \<Rightarrow> millis option \<Rightarrow> job_row option tx" where
  "fail_retryable_at_tx env job_id run_lease error progress claim delay =
    tx_bind (take_running_attempt_tx job_id run_lease ''retryable'' claim) (\<lambda>taken.
      case taken of
        None \<Rightarrow> tx_ret None
      | Some moved \<Rightarrow>
          let exhausted = r_attempt moved \<ge> r_max_attempts moved in
          tx_bind (tx_get s_now) (\<lambda>now.
          tx_bind (tx_lift (outcome_payload moved progress
                     (lifecycle_entry (le_rfc3339 env now) error (r_attempt moved) exhausted))) (\<lambda>payload.
          if exhausted then finish_done moved Failed payload
          else
            tx_bind (case delay of
                Some d \<Rightarrow> tx_bind (tx_lift (time_delta ''retry delay'' d)) (\<lambda>d. tx_ret (now + d))
              | None \<Rightarrow> backoff_at_tx env (r_attempt moved) (r_max_attempts moved)) (\<lambda>run_at.
            let deferred = lease_into_deferred_row moved Retryable run_at (Some now) payload in
            tx_bind (insert_deferred_rows_tx [deferred] (Some (lt_state moved))) (\<lambda>_.
            tx_bind (tx_lift (deferred_into_job_row deferred)) (\<lambda>job. tx_ret (Some job)))))))"

definition fail_retryable_in_tx_with_claim ::
  "life_env \<Rightarrow> job_id \<Rightarrow> int \<Rightarrow> attempt_error \<Rightarrow> json option \<Rightarrow> claimed_entry option \<Rightarrow> job_row option tx" where
  "fail_retryable_in_tx_with_claim env job_id run_lease error progress claim =
    fail_retryable_at_tx env job_id run_lease error progress claim None"

subsection \<open>The dead-letter queue\<close>

text \<open>
  \<^verbatim>\<open>WHERE (job_id, finalized_at) IN (SELECT ... ORDER BY finalized_at DESC LIMIT 1)\<close>: the latest terminal row
  of a job in one of the given states, with every row that shares its time.
\<close>

definition latest_terminal :: "(job_state \<Rightarrow> bool) \<Rightarrow> job_id \<Rightarrow> store \<Rightarrow> done_entry \<Rightarrow> bool" where
  "latest_terminal in_states job_id s d \<longleftrightarrow>
    (let cand = filter (\<lambda>e. de_job_id e = job_id \<and> in_states (de_state e)) (s_done s) in
     cand \<noteq> [] \<and> de_job_id d = job_id \<and> de_finalized_at d = Max (set (map de_finalized_at cand)))"

text \<open>Terminal rows deleted and read back through their ready rows.\<close>

definition delete_done :: "(store \<Rightarrow> done_entry \<Rightarrow> bool) \<Rightarrow> done_job_row list tx" where
  "delete_done P =
    tx_bind (tx_get (\<lambda>s. map (read_done_row s) (filter (P s) (s_done s)))) (\<lambda>rows.
    tx_bind (tx_set (\<lambda>s. s\<lparr>s_done := filter (\<lambda>d. \<not> P s d) (s_done s)\<rparr>)) (\<lambda>_. tx_ret rows))"

definition terminal_removed :: "done_job_row list \<Rightarrow> unit tx" where
  "terminal_removed rows =
    tx_bind (ensure_terminal_removed_receipt_closures_tx rows) (\<lambda>_.
      decrement_live_terminal_counters_tx (done_rows_to_counter_keys rows))"

definition move_failed_to_dlq :: "job_id \<Rightarrow> string \<Rightarrow> job_row option tx" where
  "move_failed_to_dlq job_id dlq_reason =
    tx_bind (in_tx (
      tx_bind (delete_done (latest_terminal (\<lambda>st. st = Failed) job_id)) (\<lambda>rows.
        case first_of rows of
          None \<Rightarrow> tx_ret None
        | Some moved \<Rightarrow>
            tx_bind (terminal_removed [moved]) (\<lambda>_.
            tx_bind (tx_get s_now) (\<lambda>now.
            let row = done_into_dlq_row moved dlq_reason now in
            tx_bind (insert_dlq_rows_tx [row] (Some (dn_state moved))) (\<lambda>_. tx_ret (Some row)))))))
      (\<lambda>moved. case moved of
         None \<Rightarrow> tx_ret None
       | Some row \<Rightarrow> tx_bind (tx_lift (dlq_into_job_row row)) (\<lambda>job. tx_ret (Some job)))"

definition wanted :: "'a option \<Rightarrow> 'a \<Rightarrow> bool" where
  "wanted filter_value value \<longleftrightarrow> (case filter_value of None \<Rightarrow> True | Some v \<Rightarrow> value = v)"

definition bulk_move_failed_to_dlq :: "string option \<Rightarrow> string option \<Rightarrow> string \<Rightarrow> nat tx" where
  "bulk_move_failed_to_dlq kind queue dlq_reason =
    in_tx (
      tx_bind (delete_done (\<lambda>_ d. de_state d = Failed \<and> wanted kind (de_kind d) \<and> wanted queue (de_queue d))) (\<lambda>moved.
      if moved = [] then tx_ret 0
      else
        tx_bind (terminal_removed moved) (\<lambda>_.
        tx_bind (tx_get s_now) (\<lambda>now.
        let rows = map (\<lambda>row. done_into_dlq_row row dlq_reason now) moved in
        tx_bind (insert_dlq_rows_tx rows (Some Failed)) (\<lambda>_. tx_ret (length rows))))))"

record retry_from_dlq_opts =
  ro_run_at :: "timestamp option"
  ro_priority :: "int option"
  ro_queue :: "string option"

definition cleared_progress :: "json \<Rightarrow> awa_error + json" where
  "cleared_progress payload =
    res_bind (payload_from_json payload) (\<lambda>p. Inr (payload_into_json (set_progress p None)))"

definition retry_from_dlq :: "job_id \<Rightarrow> retry_from_dlq_opts \<Rightarrow> job_row option tx" where
  "retry_from_dlq job_id opts =
    tx_bind (in_tx (
      tx_bind (tx_get (\<lambda>s. first_of (filter (\<lambda>d. r_job_id d = job_id) (s_dlq s)))) (\<lambda>found.
        case found of
          None \<Rightarrow> tx_ret None
        | Some moved \<Rightarrow>
            tx_bind (tx_set (\<lambda>s. s\<lparr>s_dlq := filter (\<lambda>d. r_job_id d \<noteq> job_id) (s_dlq s)\<rparr>)) (\<lambda>_.
            tx_bind (tx_get s_now) (\<lambda>now.
            let queue = or_default (ro_queue opts) (r_queue moved);
                priority = or_default (ro_priority opts) (r_priority moved) in
            tx_bind (tx_lift (cleared_progress (r_payload moved))) (\<lambda>payload.
            case ro_run_at opts of
              Some run_at \<Rightarrow>
                if run_at > now then
                  let deferred = dlq_into_retry_deferred_row moved queue priority run_at payload in
                  tx_bind (insert_deferred_rows_tx [deferred] (Some Failed)) (\<lambda>_. tx_ret (Some (Inl deferred)))
                else
                  let ready = dlq_into_retry_ready_row moved queue priority now payload in
                  tx_bind (insert_existing_ready_rows_tx [ready] (Some Failed)) (\<lambda>_.
                  tx_bind (notify_queues_tx [queue]) (\<lambda>_. tx_ret (Some (Inr ready))))
            | None \<Rightarrow>
                let ready = dlq_into_retry_ready_row moved queue priority now payload in
                tx_bind (insert_existing_ready_rows_tx [ready] (Some Failed)) (\<lambda>_.
                tx_bind (notify_queues_tx [queue]) (\<lambda>_. tx_ret (Some (Inr ready))))))))))
      (\<lambda>moved. case moved of
         None \<Rightarrow> tx_ret None
       | Some (Inl deferred) \<Rightarrow> tx_bind (tx_lift (deferred_into_job_row deferred)) (\<lambda>job. tx_ret (Some job))
       | Some (Inr ready) \<Rightarrow> tx_bind (tx_lift (ready_into_job_row ready)) (\<lambda>job. tx_ret (Some job)))"

record list_dlq_filter =
  lf_kind :: "string option"
  lf_queue :: "string option"
  lf_tag :: "string option"
  lf_before_id :: "int option"
  lf_before_dlq_at :: "timestamp option"
  lf_limit :: "int option"

text \<open>\<^verbatim>\<open>payload -> 'tags' ? tag\<close>: a string of the array, or a key of an object.\<close>

definition payload_has_tag :: "string \<Rightarrow> json \<Rightarrow> bool" where
  "payload_has_tag tag payload \<longleftrightarrow>
    (case payload of
       JObject kvs \<Rightarrow>
         (case map_of kvs ''tags'' of
            Some (JArray tags) \<Rightarrow> JString tag \<in> set tags
          | Some (JObject keys) \<Rightarrow> tag \<in> set (map fst keys)
          | Some (JString t) \<Rightarrow> t = tag
          | _ \<Rightarrow> False)
     | _ \<Rightarrow> False)"

definition dlq_selected :: "list_dlq_filter \<Rightarrow> dlq_job_row \<Rightarrow> bool" where
  "dlq_selected f d \<longleftrightarrow>
    wanted (lf_kind f) (r_kind d) \<and> wanted (lf_queue f) (r_queue d) \<and>
    (case lf_tag f of None \<Rightarrow> True | Some tag \<Rightarrow> payload_has_tag tag (r_payload d)) \<and>
    (case (lf_before_id f, lf_before_dlq_at f) of
       (None, None) \<Rightarrow> True
     | (Some before, None) \<Rightarrow> r_job_id d < before
     | (None, Some t) \<Rightarrow> dq_at d < t
     | (Some before, Some t) \<Rightarrow> dq_at d < t \<or> dq_at d = t \<and> r_job_id d < before)"

definition bulk_retry_from_dlq :: "list_dlq_filter \<Rightarrow> nat tx" where
  "bulk_retry_from_dlq f =
    in_tx (
      tx_bind (tx_get (\<lambda>s. filter (dlq_selected f) (s_dlq s))) (\<lambda>moved.
      tx_bind (tx_set (\<lambda>s. s\<lparr>s_dlq := filter (\<lambda>d. \<not> dlq_selected f d) (s_dlq s)\<rparr>)) (\<lambda>_.
      if moved = [] then tx_ret 0
      else
        tx_bind (tx_get s_now) (\<lambda>run_at.
        tx_bind (tx_for (\<lambda>row. tx_bind (tx_lift (cleared_progress (r_payload row))) (\<lambda>payload.
                   tx_ret (dlq_into_retry_ready_row row (r_queue row) (r_priority row) run_at payload))) moved) (\<lambda>rows.
        tx_bind (insert_existing_ready_rows_tx rows (Some Failed)) (\<lambda>_.
        tx_bind (notify_queues_tx (map r_queue moved)) (\<lambda>_. tx_ret (length rows))))))))"

definition discard_failed_by_kind :: "string \<Rightarrow> nat tx" where
  "discard_failed_by_kind kind =
    in_tx (
      tx_bind (delete_done (\<lambda>_ d. de_kind d = kind \<and> de_state d = Failed)) (\<lambda>deleted_done.
      tx_bind (tx_get (\<lambda>s. filter (\<lambda>d. r_kind d = kind) (s_dlq s))) (\<lambda>deleted_dlq.
      tx_bind (tx_set (\<lambda>s. s\<lparr>s_dlq := filter (\<lambda>d. r_kind d \<noteq> kind) (s_dlq s)\<rparr>)) (\<lambda>_.
      tx_bind (terminal_removed deleted_done) (\<lambda>_.
      let releases = map (\<lambda>row. (r_job_id row, r_unique_key row, r_unique_states row, dn_state row)) deleted_done @
                     map (\<lambda>row. (r_job_id row, r_unique_key row, r_unique_states row, dq_state row)) deleted_dlq in
      tx_bind (tx_for (\<lambda>(job_id, key, states, st). sync_unique_claim job_id key states (Some st) None)
                 (sort_key (\<lambda>(job_id, key, _). (key, job_id)) releases)) (\<lambda>_.
        tx_ret (length deleted_done + length deleted_dlq)))))))"

subsection \<open>Manual retry\<close>

definition requeue :: "existing_ready_row \<Rightarrow> job_state \<Rightarrow> job_row option tx" where
  "requeue ready_row old_state =
    tx_bind (insert_existing_ready_rows_tx [ready_row] (Some old_state)) (\<lambda>_.
    tx_bind (notify_queues_tx [r_queue ready_row]) (\<lambda>_.
    tx_bind (tx_lift (ready_into_job_row ready_row)) (\<lambda>job. tx_ret (Some job))))"

definition waiting_lease :: "job_id \<Rightarrow> lease_entry \<Rightarrow> bool" where
  "waiting_lease job_id l \<longleftrightarrow> ls_job_id l = job_id \<and> ls_state l = WaitingExternal"

definition retried_terminal :: "done_job_row \<Rightarrow> timestamp \<Rightarrow> existing_ready_row" where
  "retried_terminal d now =
    (existing_ready_row.truncate d)\<lparr>r_attempt := 0, r_run_at := now, r_attempted_at := None\<rparr>"

definition retry_job_tx :: "job_id \<Rightarrow> job_row option tx" where
  "retry_job_tx job_id =
    tx_bind (tx_get (\<lambda>s. filter (waiting_lease job_id) (s_leases s))) (\<lambda>waiting.
    tx_bind (tx_set (\<lambda>s. s\<lparr>s_leases := filter (\<lambda>l. \<not> waiting_lease job_id l) (s_leases s)\<rparr>)) (\<lambda>_.
    if waiting \<noteq> [] then
      tx_bind (hydrate_deleted_leases_tx (map deleted_of_lease waiting) True) (\<lambda>hydrated.
      tx_bind (tx_get s_now) (\<lambda>now.
      let row = hd hydrated in
      tx_bind (tx_lift (payload_with_attempt_state (r_payload row) (lt_progress row))) (\<lambda>payload.
        requeue ((lease_into_ready_row row now payload)\<lparr>r_attempt := 0, r_run_at := now, r_attempted_at := None\<rparr>)
          (lt_state row))))
    else
      tx_bind (delete_done (latest_terminal (\<lambda>st. st = Failed \<or> st = Cancelled) job_id)) (\<lambda>rows.
        case first_of rows of
          None \<Rightarrow> tx_ret None
        | Some row \<Rightarrow>
            tx_bind (terminal_removed [row]) (\<lambda>_.
            tx_bind (tx_get s_now) (\<lambda>now. requeue (retried_terminal row now) (dn_state row))))))"

definition retry_job :: "job_id \<Rightarrow> job_row option tx" where
  "retry_job job_id = in_tx (retry_job_tx job_id)"

definition retry_jobs_by_ids :: "job_id list \<Rightarrow> (job_row list \<times> nat) tx" where
  "retry_jobs_by_ids ids =
    (let unique_ids = sort (remdups ids) in
     if unique_ids = [] then tx_ret ([], 0)
     else in_tx (tx_bind (tx_for retry_job_tx unique_ids) (\<lambda>rows.
       tx_ret (concat (map (\<lambda>r. case r of None \<Rightarrow> [] | Some job \<Rightarrow> [job]) rows), length unique_ids))))"


subsection \<open>Settling rescued attempts\<close>

text \<open>
  A step inside a savepoint: a unique conflict undoes the step and falls back, any other error is passed on.
\<close>

definition or_on_conflict :: "'a tx \<Rightarrow> ('a \<Rightarrow> 'b tx) \<Rightarrow> 'b tx \<Rightarrow> 'b tx" where
  "or_on_conflict m k fallback s =
    (case m s of
       (Inr a, s') \<Rightarrow> k a s'
     | (Inl (UniqueConflict _), s') \<Rightarrow> fallback (rollback s s')
     | (Inl e, s') \<Rightarrow> (Inl e, s'))"

definition strip_unique :: "done_job_row \<Rightarrow> done_job_row" where
  "strip_unique row = row\<lparr>r_unique_key := None, r_unique_states := None\<rparr>"

definition duplicate_payload :: "life_env \<Rightarrow> timestamp \<Rightarrow> json \<Rightarrow> string \<Rightarrow> int \<Rightarrow> awa_error + json" where
  "duplicate_payload env now base duplicate_error attempt =
    res_bind (payload_from_json base) (\<lambda>p.
      Inr (payload_into_json (push_error p (lifecycle_error (le_rfc3339 env now) duplicate_error attempt True))))"

definition cancel_rescued_duplicate_tx :: "life_env \<Rightarrow> lease_transition_row \<Rightarrow> json \<Rightarrow> string \<Rightarrow> job_row tx" where
  "cancel_rescued_duplicate_tx env row base_payload duplicate_error =
    tx_bind (tx_get s_now) (\<lambda>now.
    tx_bind (tx_lift (duplicate_payload env now base_payload duplicate_error (r_attempt row))) (\<lambda>payload.
    let cancelled = lease_into_done_row row Cancelled now payload in
    or_on_conflict (insert_done_rows_tx [cancelled] (Some (lt_state row)))
      (\<lambda>_. tx_lift (done_into_job_row cancelled))
      (tx_bind (insert_done_rows_tx [strip_unique cancelled] (Some (lt_state row))) (\<lambda>_.
         tx_lift (done_into_job_row (strip_unique cancelled))))))"

definition insert_rescued_deferred_or_cancel_tx ::
  "life_env \<Rightarrow> lease_transition_row \<Rightarrow> deferred_job_row \<Rightarrow> string \<Rightarrow> job_row tx" where
  "insert_rescued_deferred_or_cancel_tx env row deferred duplicate_error =
    or_on_conflict (insert_deferred_rows_tx [deferred] (Some (lt_state row)))
      (\<lambda>_. tx_lift (deferred_into_job_row deferred))
      (cancel_rescued_duplicate_tx env row (r_payload deferred) duplicate_error)"

definition insert_rescued_done_or_cancel_tx ::
  "life_env \<Rightarrow> lease_transition_row \<Rightarrow> done_job_row \<Rightarrow> string \<Rightarrow> job_row tx" where
  "insert_rescued_done_or_cancel_tx env row finished duplicate_error =
    or_on_conflict (insert_done_rows_tx [finished] (Some (lt_state row)))
      (\<lambda>_. tx_lift (done_into_job_row finished))
      (cancel_rescued_duplicate_tx env row (r_payload finished) duplicate_error)"

definition insert_rescued_dlq_or_cancel_tx ::
  "life_env \<Rightarrow> lease_transition_row \<Rightarrow> dlq_job_row \<Rightarrow> string \<Rightarrow> job_row tx" where
  "insert_rescued_dlq_or_cancel_tx env row dlq duplicate_error =
    or_on_conflict (insert_dlq_rows_tx [dlq] (Some (lt_state row)))
      (\<lambda>_. tx_lift (dlq_into_job_row dlq))
      (cancel_rescued_duplicate_tx env row (r_payload dlq) duplicate_error)"

definition rescued_duplicate :: string where
  "rescued_duplicate = ''rescued as duplicate: unique claim held by a newer job''"

definition settle_rescued_attempt_tx ::
  "life_env \<Rightarrow> lease_transition_row \<Rightarrow> string \<Rightarrow> string option \<Rightarrow> job_row tx" where
  "settle_rescued_attempt_tx env row error dlq_reason =
    tx_bind (tx_lift (payload_with_attempt_state (r_payload row) (lt_progress row))) (\<lambda>v.
    tx_bind (tx_lift (payload_from_json v)) (\<lambda>p.
    tx_bind (tx_get s_now) (\<lambda>now.
    let exhausted = r_attempt row \<ge> r_max_attempts row;
        payload = payload_into_json (push_error p (lifecycle_error (le_rfc3339 env now) error (r_attempt row) exhausted)) in
    if exhausted then
      (case dlq_reason of
         Some reason \<Rightarrow>
           insert_rescued_dlq_or_cancel_tx env row (lease_into_dlq_row row now payload reason now) rescued_duplicate
       | None \<Rightarrow>
           insert_rescued_done_or_cancel_tx env row (lease_into_done_row row Failed now payload) rescued_duplicate)
    else
      tx_bind (backoff_at_tx env (r_attempt row) (r_max_attempts row)) (\<lambda>run_at.
        insert_rescued_deferred_or_cancel_tx env row (lease_into_deferred_row row Retryable run_at (Some now) payload)
          rescued_duplicate))))"


subsection \<open>Promotion of due jobs\<close>

definition due_jobs :: "job_state \<Rightarrow> int \<Rightarrow> store \<Rightarrow> job_id list" where
  "due_jobs state batch_size s =
    map r_job_id (take (nat batch_size)
      (sort_key (\<lambda>r. (r_run_at r, r_priority r, r_job_id r))
        (filter (\<lambda>r. df_state r = state \<and> r_run_at r \<le> s_now s \<and> r_queue r \<notin> set (s_paused s)) (s_deferred s))))"

definition promoted_row :: "timestamp \<Rightarrow> deferred_job_row \<Rightarrow> existing_ready_row" where
  "promoted_row now row = (existing_ready_row.truncate row)\<lparr>r_run_at := now\<rparr>"

definition promote_due :: "job_state \<Rightarrow> int \<Rightarrow> nat tx" where
  "promote_due state batch_size =
    (if \<not> (state = Scheduled \<or> state = Retryable) \<or> batch_size \<le> 0 then tx_ret 0
     else in_tx (
       tx_bind (tx_get (due_jobs state batch_size)) (\<lambda>due.
       tx_bind (tx_get (\<lambda>s. filter (\<lambda>r. r_job_id r \<in> set due) (s_deferred s))) (\<lambda>moved.
       tx_bind (tx_set (\<lambda>s. s\<lparr>s_deferred := filter (\<lambda>r. r_job_id r \<notin> set due) (s_deferred s)\<rparr>)) (\<lambda>_.
       if moved = [] then tx_ret 0
       else
         tx_bind (tx_get s_now) (\<lambda>now.
         let rows = map (promoted_row now) moved in
         tx_bind (insert_existing_ready_rows_tx rows (Some state)) (\<lambda>_.
         tx_bind (notify_queues_tx (map r_queue rows)) (\<lambda>_. tx_ret (length moved)))))))))"

subsection \<open>What an outcome writes\<close>

lemma push_error_wf [simp]: "payload_wf (push_error p e) \<longleftrightarrow> payload_wf p"
  by (simp add: push_error_def payload_wf_def Let_def)

lemma push_error_last: "\<exists>es. rp_errors (push_error p e) = es @ [e]"
  by (simp add: push_error_def Let_def)

text \<open>The payload of an outcome decodes, and its error list ends in the new entry.\<close>

lemma outcome_payload_decodes:
  assumes "outcome_payload moved progress entry = Inr payload"
  shows "\<exists>p es. payload_from_json payload = Inr p \<and> errors_option p = Some (es @ [entry])"
proof -
  obtain v p where "payload_from_json v = Inr p" "payload = payload_into_json (push_error p entry)"
    using assms by (auto simp: outcome_payload_def res_bind_def split: sum.splits)
  moreover obtain es where "rp_errors (push_error p entry) = es @ [entry]" using push_error_last by blast
  moreover have "payload_wf (push_error p entry)" using calculation(1) payload_from_json_wf by simp
  ultimately show ?thesis by (auto simp: errors_option_def)
qed

lemma insert_one_done:
  assumes "insert_done_rows_tx [row] old s = (Inr n, s')"
  shows "\<exists>m e ds. s' = s\<lparr>s_claims := m, s_done := s_done s @ [e], s_count_deltas := s_count_deltas s @ ds\<rparr> \<and>
    counted s ds [e] \<and> de_job_id e = r_job_id row \<and> de_run_lease e = r_run_lease row \<and> de_state e = dn_state row \<and>
    de_attempt e = r_attempt row"
proof -
  obtain rp m es ds where h: "s' = s\<lparr>s_claims := m, s_done := s_done s @ es, s_count_deltas := s_count_deltas s @ ds\<rparr>"
    "counted s ds es" "set es = (\<lambda>row. if keep_ready_backing old \<and> dn_lane_seq row \<ge> 0 then store_ready_backed row (rp row)
                    else store_synthetic row (rp row)) ` set [row]" "length es = 1"
    using insert_done_rows_result [OF assms] by auto
  then obtain e where e: "es = [e]" by (cases es) auto
  then have "e \<in> set es" by simp
  then have "e = (if keep_ready_backing old \<and> dn_lane_seq row \<ge> 0 then store_ready_backed row (rp row)
      else store_synthetic row (rp row))" unfolding h(3) by (elim imageE) simp
  then have "de_job_id e = r_job_id row" "de_run_lease e = r_run_lease row" "de_state e = dn_state row"
    "de_attempt e = r_attempt row"
    by (simp_all add: store_ready_backed_def store_synthetic_def)
  then show ?thesis using h(1,2) e by blast
qed

lemma insert_one_deferred:
  assumes "insert_deferred_rows_tx [row] (Some old) s = (Inr n, s')"
  shows "\<exists>m. s' = s\<lparr>s_claims := m, s_deferred := s_deferred s @ [deferred_entry row]\<rparr> \<and>
    r_job_id row \<notin> set (map r_job_id (s_deferred s))"
proof -
  obtain u s1 where s1: "sync_rows df_state (Some old) [row] s = (Inr u, s1)"
    "execute_deferred_inserts_tx [row] s1 = (Inr n, s')"
    using assms by (auto simp: insert_deferred_rows_tx_def tx_bind_Inr)
  obtain m where m: "s1 = s\<lparr>s_claims := m\<rparr>"
    using claims_rel.keepsD [OF sync_rows_claims_only s1(1)] by (auto simp: claims_only_iff)
  show ?thesis
    using s1(2) by (intro exI [of _ m]) (auto simp: execute_deferred_inserts_tx_def m split: if_splits)
qed


subsection \<open>A rescued attempt always settles\<close>

definition conflict_only :: "awa_error + 'a \<Rightarrow> bool" where
  "conflict_only r \<longleftrightarrow> (\<forall>e. r = Inl e \<longrightarrow> (\<exists>c. e = UniqueConflict c))"

lemma pkey_conflict_unique: "\<exists>c. pkey_conflict t = UniqueConflict c" "\<exists>c. unique_conflict = UniqueConflict c"
  by (simp_all add: pkey_conflict_def unique_conflict_def)

lemma sync_one_conflict_only: "conflict_only (fst (sync_rows f old [row] s))"
  using pkey_conflict_unique(2)
  by (auto simp: conflict_only_def sync_rows_def sync_unique_claim_def Let_def release_claim_def acquire_claim_def
      tx_bind_def tx_simps split: option.split)

lemma sync_one_keyless: "r_unique_key row = None \<Longrightarrow> sync_rows f old [row] s = (Inr (), s)"
  by (simp add: sync_rows_def sync_unique_claim_def Let_def tx_bind_def tx_simps)

lemma tx_monad_laws:
  "tx_bind (tx_bind m f) g = tx_bind m (\<lambda>x. tx_bind (f x) g)" "tx_bind (tx_ret a) f' = f' a"
  "tx_bind (Pair (Inr a)) f' = f' a"
  by (auto simp: tx_bind_def fun_eq_iff tx_simps split: prod.split sum.split)

lemma insert_done_one:
  "\<exists>rp. insert_done_rows_tx [row] old s =
    tx_bind (sync_rows dn_state old [row]) (\<lambda>_.
    tx_bind (insert_done_entry (if keep_ready_backing old \<and> dn_lane_seq row \<ge> 0 then store_ready_backed row rp
                                else store_synthetic row rp)) (\<lambda>_.
    tx_bind (increment_live_terminal_counters_tx [row]) (\<lambda>_. tx_ret 1))) s"
proof (cases "sync_rows dn_state old [row] s")
  case (Pair r s1)
  show ?thesis
  proof (cases r)
    case (Inl e)
    then show ?thesis using Pair by (simp add: insert_done_rows_tx_def tx_simps)
  next
    case (Inr u)
    show ?thesis
      using Pair Inr
      by (intro exI [of _ "(if \<not> is_storage_payload_empty (r_payload row) then ready_payloads_for_done_rows s1 else (\<lambda>_. None)) row"])
        (auto simp: insert_done_rows_tx_def tx_simps Let_def tx_monad_laws)
  qed
qed

lemma increment_ok: "\<exists>s'. increment_live_terminal_counters_tx rows t = (Inr (), s')"
  using append_deltas_counted [of "group_deltas (map (\<lambda>row. (counter_key row, 1)) rows)" t]
  by (cases "rows = []") (auto simp: increment_live_terminal_counters_tx_def tx_simps)

lemma insert_done_one_conflict_only: "conflict_only (fst (insert_done_rows_tx [row] old s))"
proof (cases "sync_rows dn_state old [row] s")
  case (Pair r s1)
  have c: "conflict_only r" using sync_one_conflict_only [of dn_state old row s] Pair by simp
  obtain e where e: "insert_done_rows_tx [row] old s = tx_bind (sync_rows dn_state old [row]) (\<lambda>_.
      tx_bind (insert_done_entry e) (\<lambda>_. tx_bind (increment_live_terminal_counters_tx [row]) (\<lambda>_. tx_ret 1))) s"
    using insert_done_one by blast
  show ?thesis
    using c Pair pkey_conflict_unique(1) increment_ok [of "[row]" "s1\<lparr>s_done := s_done s1 @ [e]\<rparr>"] unfolding e
    by (cases r) (auto simp: tx_simps conflict_only_def tx_bind_def insert_done_entry_def)
qed

lemma payload_decodes:
  assumes "is_object (rp_metadata p)"
  shows "payload_from_json (payload_into_json p) = Inr (p\<lparr>rp_progress := de_progress (rp_progress p)\<rparr>)"
proof -
  obtain m where m: "payload_into_json p = JObject m" by (simp add: payload_into_json_def)
  note fields = payload_into_json_fields [OF m]
  have meta: "(case map_of m ''metadata'' of None \<Rightarrow> default_payload_metadata | Some x \<Rightarrow> x) = rp_metadata p"
    using fields by (simp add: default_payload_metadata_def)
  have "de_fields (map_of m ''metadata'') (map_of m ''tags'') (map_of m ''errors'') (map_of m ''progress'') =
      Inr (p\<lparr>rp_progress := de_progress (rp_progress p)\<rparr>)"
    using fields unfolding de_fields_def meta
    by (simp del: de_tags.simps de_errors.simps add: de_tags_Some de_errors_Some)
  then show ?thesis using assms by (simp add: m payload_from_json_def)
qed

lemma attempt_state_decodes:
  assumes "payload_from_json v = Inr p0"
  shows "\<exists>w p. payload_with_attempt_state v progress = Inr w \<and> payload_from_json w = Inr p \<and> payload_wf p"
proof -
  have o: "is_object (rp_metadata p0)" using payload_from_json_wf [OF assms] by (simp add: payload_wf_def)
  show ?thesis
    using assms o de_progress_wf
    by (cases progress) (auto simp: payload_with_attempt_state_def res_bind_def payload_decodes payload_wf_def set_progress_def)
qed

lemma insert_deferred_one_conflict_only:
  assumes "df_state row = Scheduled \<or> df_state row = Retryable"
  shows "conflict_only (fst (insert_deferred_rows_tx [row] (Some old) s))"
proof (cases "sync_rows df_state (Some old) [row] s")
  case (Pair r s1)
  have c: "conflict_only r" using sync_one_conflict_only [of df_state "Some old" row s] Pair by simp
  then show ?thesis
    using assms Pair pkey_conflict_unique(1)
    by (cases r) (auto simp: insert_deferred_rows_tx_def tx_simps conflict_only_def execute_deferred_inserts_tx_def)
qed

lemma insert_dlq_one_cases:
  assumes "insert_dlq_rows_tx [row] (Some old) s = (r, s')"
  shows "conflict_only r \<and> (\<forall>n. r = Inr n \<longrightarrow> (\<exists>m. s' = s\<lparr>s_claims := m, s_dlq := s_dlq s @ [dlq_entry row]\<rparr>))"
proof (cases "sync_rows (\<lambda>_. Failed) (Some old) [row] s")
  case (Pair r1 s1)
  have c: "conflict_only r1" using sync_one_conflict_only [of "\<lambda>_. Failed" "Some old" row s] Pair by simp
  obtain m where m: "s1 = s\<lparr>s_claims := m\<rparr>"
    using claims_rel.keepsD [OF sync_rows_claims_only Pair] by (auto simp: claims_only_iff)
  show ?thesis
    using assms c Pair pkey_conflict_unique(1)
    by (cases r1) (auto simp: insert_dlq_rows_tx_def tx_simps conflict_only_def insert_dlq_entry_def tx_bind_def m
        split: if_splits)
qed

text \<open>The last resort of a rescue: a cancelled row without its unique key.\<close>

lemma insert_stripped_done:
  assumes "done_key (store_synthetic row None) \<notin> set (map done_key (s_done s))" "r_unique_key row = None"
  shows "\<exists>s'. insert_done_rows_tx [row] old s = (Inr 1, s')"
proof -
  obtain rp where rp: "insert_done_rows_tx [row] old s =
    tx_bind (sync_rows dn_state old [row]) (\<lambda>_.
    tx_bind (insert_done_entry (if keep_ready_backing old \<and> dn_lane_seq row \<ge> 0 then store_ready_backed row rp
                                else store_synthetic row rp)) (\<lambda>_.
    tx_bind (increment_live_terminal_counters_tx [row]) (\<lambda>_. tx_ret 1))) s"
    using insert_done_one by blast
  let ?e = "if keep_ready_backing old \<and> dn_lane_seq row \<ge> 0 then store_ready_backed row rp else store_synthetic row rp"
  have "done_key ?e \<notin> set (map done_key (s_done s))"
    using assms(1) by (simp add: done_key_def store_synthetic_def store_ready_backed_def)
  then have "insert_done_entry ?e s = (Inr (), s\<lparr>s_done := s_done s @ [?e]\<rparr>)"
    by (simp add: insert_done_entry_def)
  moreover obtain s2 where "increment_live_terminal_counters_tx [row] (s\<lparr>s_done := s_done s @ [?e]\<rparr>) = (Inr (), s2)"
    using increment_ok by blast
  ultimately show ?thesis unfolding rp by (simp add: sync_one_keyless [OF assms(2)] tx_simps)
qed

lemma or_on_conflict_cases:
  assumes "conflict_only (fst (m s))" "\<And>a s'. m s = (Inr a, s') \<Longrightarrow> P (k a s')" "\<And>s'. P (fallback (rollback s s'))"
  shows "P (or_on_conflict m k fallback s)"
proof (cases "m s")
  case (Pair r s')
  show ?thesis
  proof (cases r)
    case (Inl e)
    then obtain c where "e = UniqueConflict c" using assms(1) Pair by (auto simp: conflict_only_def)
    then show ?thesis using Inl Pair assms(3) by (simp add: or_on_conflict_def)
  next
    case (Inr a)
    then show ?thesis using Pair assms(2) by (simp add: or_on_conflict_def)
  qed
qed

text \<open>What a rescue returns: the job's row in its next state, with that state on record in the store.\<close>

definition settled :: "lease_transition_row \<Rightarrow> (awa_error + job_row) \<times> store \<Rightarrow> bool" where
  "settled row r \<longleftrightarrow>
    (\<exists>job s'. r = (Inr job, s') \<and> jr_id job = r_job_id row \<and> jr_state job \<in> {Retryable, Failed, Cancelled} \<and>
       moved_on s' (r_job_id row) (r_run_lease row))"

definition row_key :: "lease_transition_row \<Rightarrow> int \<times> string \<times> int \<times> int \<times> int" where
  "row_key row = (lt_ready_slot row, r_queue row, r_priority row, lt_enqueue_shard row, lt_lane_seq row)"

lemma done_settled:
  assumes "insert_done_rows_tx [d] old s = (Inr n, s')" "payload_from_json (r_payload d) = Inr p"
    "r_job_id d = r_job_id row" "r_run_lease d = r_run_lease row" "dn_state d \<in> {Failed, Cancelled}"
  shows "settled row (tx_lift (done_into_job_row d) s')"
proof -
  obtain m e ds where e: "s' = s\<lparr>s_claims := m, s_done := s_done s @ [e], s_count_deltas := s_count_deltas s @ ds\<rparr>"
    "de_job_id e = r_job_id d" "de_run_lease e = r_run_lease d"
    using insert_one_done [OF assms(1)] by blast
  then show ?thesis
    using assms(2-5) by (auto simp: settled_def tx_simps done_into_job_row_def res_bind_def base_job_row_def moved_on_def done_attempt_def)
qed

lemma cancel_rescued_settled:
  assumes "payload_from_json base = Inr p" "payload_wf p" "row_key row \<notin> set (map done_key (s_done s))"
  shows "settled row (cancel_rescued_duplicate_tx env row base err s)"
proof -
  let ?e = "lifecycle_error (le_rfc3339 env (s_now s)) err (r_attempt row) True"
  let ?payload = "payload_into_json (push_error p ?e)"
  let ?d = "lease_into_done_row row Cancelled (s_now s) ?payload"
  have pd: "payload_from_json ?payload = Inr (push_error p ?e)"
    using assms(2) by (intro payload_roundtrip) simp
  have run: "cancel_rescued_duplicate_tx env row base err s =
     or_on_conflict (insert_done_rows_tx [?d] (Some (lt_state row))) (\<lambda>_. tx_lift (done_into_job_row ?d))
      (tx_bind (insert_done_rows_tx [strip_unique ?d] (Some (lt_state row))) (\<lambda>_.
         tx_lift (done_into_job_row (strip_unique ?d)))) s"
    using assms(1) by (simp add: cancel_rescued_duplicate_tx_def tx_simps duplicate_payload_def res_bind_def Let_def)
  show ?thesis unfolding run
  proof (rule or_on_conflict_cases [OF insert_done_one_conflict_only])
    fix n s' assume "insert_done_rows_tx [?d] (Some (lt_state row)) s = (Inr n, s')"
    then show "settled row (tx_lift (done_into_job_row ?d) s')"
      by (rule done_settled [where p = "push_error p ?e"]) (use pd in \<open>simp_all add: row_defs\<close>)
  next
    fix s'
    have "done_key (store_synthetic (strip_unique ?d) None) = row_key row"
      by (simp add: done_key_def row_key_def store_synthetic_def store_ready_backed_def strip_unique_def row_defs)
    then obtain s2 where ok: "insert_done_rows_tx [strip_unique ?d] (Some (lt_state row)) (rollback s s') = (Inr 1, s2)"
      using insert_stripped_done [of "strip_unique ?d" "rollback s s'" "Some (lt_state row)"] assms(3)
      by (auto simp: rollback_def strip_unique_def)
    then show "settled row (tx_bind (insert_done_rows_tx [strip_unique ?d] (Some (lt_state row)))
         (\<lambda>_. tx_lift (done_into_job_row (strip_unique ?d))) (rollback s s'))"
      using done_settled [OF ok, of "push_error p ?e" row] pd by (simp add: tx_simps strip_unique_def row_defs)
  qed
qed

text \<open>Each of the three inserts of a rescue settles the attempt, directly or through the cancelled row.\<close>

lemma rescued_settled:
  assumes q: "payload_from_json payload = Inr q" "payload_wf q" and free: "row_key row \<notin> set (map done_key (s_done s))"
  shows "settled row (insert_rescued_dlq_or_cancel_tx env row (lease_into_dlq_row row now payload reason now) err s)"
    and "settled row (insert_rescued_done_or_cancel_tx env row (lease_into_done_row row Failed now payload) err s)"
    and "settled row (insert_rescued_deferred_or_cancel_tx env row (lease_into_deferred_row row Retryable at_time fin payload) err s)"
proof -
  have cancelled: "settled row (cancel_rescued_duplicate_tx env row payload err (rollback s s'))" for s'
    using free by (intro cancel_rescued_settled [OF q]) (simp add: rollback_def)
  let ?dlq = "lease_into_dlq_row row now payload reason now"
  let ?done = "lease_into_done_row row Failed now payload"
  let ?def = "lease_into_deferred_row row Retryable at_time fin payload"
  show "settled row (insert_rescued_dlq_or_cancel_tx env row ?dlq err s)"
    unfolding insert_rescued_dlq_or_cancel_tx_def
  proof (rule or_on_conflict_cases)
    show "conflict_only (fst (insert_dlq_rows_tx [?dlq] (Some (lt_state row)) s))"
      using insert_dlq_one_cases [of ?dlq "lt_state row" s] by (metis prod.collapse)
    fix n s' assume "insert_dlq_rows_tx [?dlq] (Some (lt_state row)) s = (Inr n, s')"
    then obtain m where "s' = s\<lparr>s_claims := m, s_dlq := s_dlq s @ [dlq_entry ?dlq]\<rparr>"
      using insert_dlq_one_cases by blast
    then show "settled row (tx_lift (dlq_into_job_row ?dlq) s')"
      using q by (auto simp: settled_def tx_simps dlq_into_job_row_def res_bind_def base_job_row_def moved_on_def
          dlq_attempt_def row_defs dlq_entry_def)
  qed (simp add: cancelled row_defs)
  show "settled row (insert_rescued_done_or_cancel_tx env row ?done err s)"
    unfolding insert_rescued_done_or_cancel_tx_def
  proof (rule or_on_conflict_cases [OF insert_done_one_conflict_only])
    fix n s' assume "insert_done_rows_tx [?done] (Some (lt_state row)) s = (Inr n, s')"
    then show "settled row (tx_lift (done_into_job_row ?done) s')"
      by (rule done_settled [where p = q]) (use q in \<open>simp_all add: row_defs\<close>)
  qed (simp add: cancelled row_defs)
  show "settled row (insert_rescued_deferred_or_cancel_tx env row ?def err s)"
    unfolding insert_rescued_deferred_or_cancel_tx_def
  proof (rule or_on_conflict_cases)
    show "conflict_only (fst (insert_deferred_rows_tx [?def] (Some (lt_state row)) s))"
      by (rule insert_deferred_one_conflict_only) (simp add: row_defs)
    fix n s' assume "insert_deferred_rows_tx [?def] (Some (lt_state row)) s = (Inr n, s')"
    then obtain m where "s' = s\<lparr>s_claims := m, s_deferred := s_deferred s @ [deferred_entry ?def]\<rparr>"
      using insert_one_deferred by blast
    then show "settled row (tx_lift (deferred_into_job_row ?def) s')"
      using q by (auto simp: settled_def tx_simps deferred_into_job_row_def res_bind_def base_job_row_def moved_on_def
          deferred_attempt_def row_defs deferred_entry_def)
  qed (simp add: cancelled row_defs)
qed


subsection \<open>Promotion\<close>

lemma truncate_number_from [simp]:
  "map existing_ready_row.truncate (number_from n rows) = map existing_ready_row.truncate rows"
proof -
  have "existing_ready_row.truncate (case ir of (i, row) \<Rightarrow> row\<lparr>ri_lane_seq := n + int i\<rparr>) =
      existing_ready_row.truncate (snd ir)" for ir :: "nat \<times> runtime_ready_insert"
    by (cases ir) (simp add: existing_ready_row.defs)
  then have "map existing_ready_row.truncate (number_from n rows) = map existing_ready_row.truncate (map snd (enumerate 0 rows))"
    unfolding number_from_def map_map o_def by presburger
  then show ?thesis by simp
qed

lemma truncate_existing_insert [simp]: "existing_ready_row.truncate (existing_insert shard row) = row"
  by (cases row) (simp add: existing_insert_def existing_ready_row.defs)

lemma position_existing_result:
  "\<exists>rs s'. position_existing lr s = (Inr rs, s') \<and> map existing_ready_row.truncate rs = snd lr \<and> lane_frame s s'"
proof -
  obtain shard st where sh: "shard_for_enqueue (s_queue_meta s) (fst (fst lr)) None (s_local s) = (shard, st)" by fastforce
  let ?l = "(fst (fst lr), snd (fst lr), shard)"
  let ?rs = "map (existing_insert shard) (snd lr)"
  let ?t = "s\<lparr>s_local := st\<rparr>"
  obtain s' where s': "position_lane (?l, ?rs) ?t = (Inr (number_from (lane_start ?t ?l) ?rs), s')" "lane_frame ?t s'"
    using position_lane_result by blast
  have "lane_frame s ?t" by (simp add: lane_frame_def lane_core_def)
  moreover have "map existing_ready_row.truncate ?rs = snd lr"
    by (simp add: o_def)
  ultimately show ?thesis
    using s' lane_rel.trans by (auto simp: position_existing_def shard_for_enqueue_tx_def sh tx_simps tx_bind_def)
qed

lemma position_existing_all:
  "\<exists>rss s'. tx_for position_existing lrs s = (Inr rss, s') \<and>
     map existing_ready_row.truncate (concat rss) = concat (map snd lrs) \<and> lane_frame s s'"
proof (induction lrs arbitrary: s)
  case Nil
  then show ?case by (simp add: tx_simps lane_rel.refl)
next
  case (Cons lr lrs)
  obtain rs s1 where 1: "position_existing lr s = (Inr rs, s1)" "map existing_ready_row.truncate rs = snd lr" "lane_frame s s1"
    using position_existing_result by blast
  obtain rss s2 where 2: "tx_for position_existing lrs s1 = (Inr rss, s2)"
    "map existing_ready_row.truncate (concat rss) = concat (map snd lrs)" "lane_frame s1 s2"
    using Cons.IH by blast
  show ?case using 1 2 lane_rel.trans [OF 1(3) 2(3)] by (simp add: tx_simps)
qed

text \<open>The ready row that holds a job: the same job, with the payload as the column stores it.\<close>

definition stored_row :: "existing_ready_row \<Rightarrow> existing_ready_row" where
  "stored_row row = row\<lparr>r_payload := coalesced_payload (r_payload row)\<rparr>"

lemma truncate_ready_entry: "existing_ready_row.truncate (ready_entry ring r) = stored_row (existing_ready_row.truncate r)"
  by (simp add: ready_entry_def stored_row_def existing_ready_row.defs)

lemma insert_existing_shape:
  assumes "insert_existing_ready_rows_tx rows old s = (Inr n, s')"
  shows "\<exists>es m segs s2. s' = s2\<lparr>s_ready := s_ready s @ es, s_segments := segs\<rparr> \<and> lane_frame (s\<lparr>s_claims := m\<rparr>) s2 \<and>
    mset (map existing_ready_row.truncate es) = mset (map stored_row rows)"
proof (cases "rows = []")
  case True
  then have "s' = s" using assms by (simp add: insert_existing_ready_rows_tx_def tx_simps)
  moreover have "s = s\<lparr>s_ready := s_ready s @ [], s_segments := s_segments s\<rparr>" "lane_frame (s\<lparr>s_claims := s_claims s\<rparr>) s"
    by (simp_all add: lane_rel.refl)
  ultimately show ?thesis using True by (metis image_mset_empty list.simps(8) mset.simps(1))
next
  case False
  then obtain s1 where s1: "sync_rows (\<lambda>_. Available) old rows s = (Inr (), s1)"
    using assms by (auto simp: insert_existing_ready_rows_tx_def tx_bind_Inr)
  obtain m where m: "s1 = s\<lparr>s_claims := m\<rparr>"
    using claims_rel.keepsD [OF sync_rows_claims_only s1] by (auto simp: claims_only_iff)
  obtain rss s2 where p: "tx_for position_existing (group_existing rows) s1 = (Inr rss, s2)"
    "map existing_ready_row.truncate (concat rss) = concat (map snd (group_existing rows))" "lane_frame s1 s2"
    using position_existing_all by blast
  obtain ring n1 s3 n2 where x: "execute_ready_inserts_tx ring (concat rss) s2 = (Inr n1, s3)"
    "insert_ready_segments_tx ring (concat rss) s3 = (Inr n2, s')"
    using assms False s1 p(1)
    by (auto simp: insert_existing_ready_rows_tx_def tx_bind_Inr tx_simps Let_def current_queue_ring_def)
  have s3: "s3 = s2\<lparr>s_ready := s_ready s2 @ map (ready_entry ring) (concat rss)\<rparr>"
    using x(1) by (cases "concat rss = []") (auto simp: execute_ready_inserts_tx_def Let_def split: if_splits)
  obtain segs where segs: "s' = s3\<lparr>s_segments := segs\<rparr>"
    using insert_segments_result [of ring "concat rss" s3] x(2) by auto
  have g: "mset (concat (map snd (group_existing rows))) = mset rows"
    using mset_foldl_push [of "[]" "\<lambda>row. (r_queue row, r_priority row)" rows]
    by (simp add: group_existing_def)
  have "map existing_ready_row.truncate (map (ready_entry ring) (concat rss)) =
      map stored_row (map existing_ready_row.truncate (concat rss))"
    by (simp add: truncate_ready_entry o_def)
  then have "mset (map existing_ready_row.truncate (map (ready_entry ring) (concat rss))) = mset (map stored_row rows)"
    unfolding p(2) using g by (metis mset_map)
  moreover have "s' = s2\<lparr>s_ready := s_ready s @ map (ready_entry ring) (concat rss), s_segments := segs\<rparr>"
    using lane_frame_fields [OF p(3)] unfolding segs s3 m by simp
  ultimately show ?thesis using p(3) unfolding m by blast
qed

lemma insert_existing_result:
  assumes "insert_existing_ready_rows_tx rows old s = (Inr n, s')"
  shows "\<exists>es. s_ready s' = s_ready s @ es \<and> mset (map existing_ready_row.truncate es) = mset (map stored_row rows) \<and>
    s_deferred s' = s_deferred s \<and> s_done s' = s_done s \<and> s_dlq s' = s_dlq s \<and> s_leases s' = s_leases s"
  using insert_existing_shape [OF assms] lane_frame_fields by fastforce

text \<open>
  C10: a promotion moves a batch or nothing. When it succeeds, exactly the due jobs it selected, at most the batch size,
  leave the deferred table, and each of them is a new ready row with its own arguments, attempt and unique key and the
  promotion's time as its run time. When it fails, the deferred and the ready table, the unique claims and the terminal
  rows are as before.
\<close>

theorem promote_due_moves_batch:
  assumes state: "state \<in> {Scheduled, Retryable}" "batch_size > 0"
    and run: "promote_due state batch_size s = (r, s')"
    and moved: "moved = filter (\<lambda>d. r_job_id d \<in> set (due_jobs state batch_size s)) (s_deferred s)"
  shows "case r of
      Inr n \<Rightarrow> n = length moved \<and> length (due_jobs state batch_size s) \<le> nat batch_size \<and>
        s_deferred s' = filter (\<lambda>d. r_job_id d \<notin> set (due_jobs state batch_size s)) (s_deferred s) \<and>
        (\<exists>es. s_ready s' = s_ready s @ es \<and>
           mset (map existing_ready_row.truncate es) = mset (map (stored_row \<circ> promoted_row (s_now s)) moved))
    | Inl _ \<Rightarrow> s_deferred s' = s_deferred s \<and> s_ready s' = s_ready s \<and> s_claims s' = s_claims s \<and> s_done s' = s_done s"
proof -
  let ?due = "due_jobs state batch_size s"
  let ?t = "s\<lparr>s_deferred := filter (\<lambda>d. r_job_id d \<notin> set ?due) (s_deferred s)\<rparr>"
  let ?rows = "map (promoted_row (s_now s)) moved"
  have body: "promote_due state batch_size s = in_tx (\<lambda>_. (if moved = [] then tx_ret 0 else
      tx_bind (insert_existing_ready_rows_tx ?rows (Some state)) (\<lambda>_.
      tx_bind (notify_queues_tx (map r_queue ?rows)) (\<lambda>_. tx_ret (length moved)))) ?t) s"
    using state moved by (auto simp: promote_due_def in_tx_def tx_simps Let_def)
  have len: "length ?due \<le> nat batch_size" by (simp add: due_jobs_def)
  show ?thesis
  proof (cases r)
    case (Inl e)
    then show ?thesis using run unfolding body by (auto simp: in_tx_def rollback_def split: prod.splits sum.splits)
  next
    case (Inr n)
    show ?thesis
    proof (cases "moved = []")
      case True
      then show ?thesis using run len Inr unfolding body by (auto simp: in_tx_def tx_simps)
    next
      case False
      then obtain k s1 where k: "insert_existing_ready_rows_tx ?rows (Some state) ?t = (Inr k, s1)" "n = length moved"
        "\<exists>ch. s' = s1\<lparr>s_notified := s_notified s1 @ ch\<rparr>"
        using run Inr notify_result unfolding body
        by (auto simp: in_tx_def tx_bind_Inr tx_simps split: prod.splits sum.splits) (metis prod.inject)
      obtain es where "s_ready s1 = s_ready s @ es" "s_deferred s1 = s_deferred ?t"
        "mset (map existing_ready_row.truncate es) = mset (map stored_row ?rows)"
        using insert_existing_result [OF k(1)] by auto
      then show ?thesis using k len Inr by (auto simp: multiset.map_comp)
    qed
  qed
qed

subsection \<open>Sample runs\<close>

definition calm_life :: life_env where
  "calm_life = \<lparr> le_rfc3339 = (\<lambda>_. ''t''), le_secs_text = (\<lambda>_. ''1s''), le_random = 0 \<rparr>"

definition boom :: attempt_error where
  "boom = \<lparr> ae_message = ''boom'', ae_output = None \<rparr>"

lemma fst_Inr_selE:
  assumes "map_sum (\<lambda>_. ()) f (fst (m s)) = Inr b"
  obtains a s' where "m s = (Inr a, s')" "f a = b"
  using assms by (cases "m s"; cases "fst (m s)") auto


definition rescued_mail :: lease_transition_row where
  "rescued_mail = hydrate_row (deleted_of_item (mail_batch, mail_item)) failed_mail_ready None"

text \<open>Another job holds the unique claim that the rescued job would take in the retryable state.\<close>

definition duplicate_mail :: lease_transition_row where
  "duplicate_mail = rescued_mail\<lparr>r_unique_key := Some ''u'', r_unique_states := Some ''11011111''\<rparr>"

definition duplicate_store :: store where
  "duplicate_store = claimed_store\<lparr>s_claims := [''u'' \<mapsto> 8]\<rparr>"


lemma rescued_duplicate_cancelled:
  "map_sum (\<lambda>_. ()) jr_state (fst (settle_rescued_attempt_tx calm_life duplicate_mail ''lost'' None duplicate_store)) = Inr Cancelled"
  by code_simp

text \<open>
  Aging stores the priority it raised with the claim. The terminal row of such an attempt carries that priority, and
  the join that reads it back looks for a ready row of the same priority: the arguments are lost, and a manual retry
  puts the job back with none.
\<close>

definition aged_store :: store where
  "aged_store = claimed_store\<lparr>s_claim_batches := [mail_batch\<lparr>lb_priority := 1\<rparr>]\<rparr>"

lemma aged_failure_loses_args:
  "map_sum (\<lambda>_. ()) (map_option jr_args)
     (fst (tx_bind (fail_terminal_in_tx_with_claim calm_life 7 1 boom None (Some (mail_claim\<lparr>ce_priority := 1\<rparr>)))
       (\<lambda>_. retry_job 7) aged_store)) = Inr (Some (JObject []))"
  "map_sum (\<lambda>_. ()) (map_option jr_args)
     (fst (tx_bind (fail_terminal_in_tx_with_claim calm_life 7 1 boom None (Some mail_claim))
       (\<lambda>_. retry_job 7) claimed_store)) = Inr (Some (JString ''to''))"
  by code_simp+

definition due_mail :: "job_id \<Rightarrow> bytes option \<Rightarrow> deferred_job_row" where
  "due_mail job_id key =
    \<lparr> r_job_id = job_id, r_kind = ''mail'', r_queue = ''q'', r_args = JString ''to'', r_priority = 2, r_attempt = 1,
      r_run_lease = 1, r_max_attempts = 3, r_run_at = 0, r_attempted_at = Some 0, r_created_at = 0,
      r_unique_key = key, r_unique_states = Some ''01000000'', r_payload = JObject [], df_state = Retryable, df_finalized_at = None \<rparr>"

definition due_store :: "(bytes \<rightharpoonup> job_id) \<Rightarrow> store" where
  "due_store claims = fresh_store\<lparr>s_deferred := [due_mail 7 (Some ''u''), due_mail 8 None], s_claims := claims\<rparr>"

theorem promote_due_moves_batch_witness:
  "\<exists>s'. promote_due Retryable 10 (due_store Map.empty) = (Inr 2, s') \<and> s_deferred s' = [] \<and>
     mset (map r_args (s_ready s')) = mset [JString ''to'', JString ''to'']"
proof -
  have ok: "map_sum (\<lambda>_. ()) id (fst (promote_due Retryable 10 (due_store Map.empty))) = Inr 2" by code_simp
  have d: "due_jobs Retryable 10 (due_store Map.empty) = [7, 8]" by code_simp
  have st: "s_deferred (due_store Map.empty) = [due_mail 7 (Some ''u''), due_mail 8 None]" "s_ready (due_store Map.empty) = []"
    by (simp_all add: due_store_def fresh_store_def)
  from ok obtain s' where s': "promote_due Retryable 10 (due_store Map.empty) = (Inr 2, s')"
    by (elim fst_Inr_selE) simp
  then obtain es where es: "s_deferred s' = []" "s_ready s' = es"
    "mset (map existing_ready_row.truncate es) =
      mset (map (stored_row \<circ> promoted_row (s_now (due_store Map.empty))) [due_mail 7 (Some ''u''), due_mail 8 None])"
    using promote_due_moves_batch [OF _ _ s' refl] unfolding d st by (auto simp: due_mail_def)
  have "mset (map r_args es) = image_mset r_args (mset (map existing_ready_row.truncate es))"
    by (simp add: multiset.map_comp o_def existing_ready_row.defs)
  also have "\<dots> = mset [JString ''to'', JString ''to'']"
    unfolding es(3) by (simp add: stored_row_def promoted_row_def due_mail_def existing_ready_row.defs)
  finally show ?thesis using s' es(1,2) by blast
qed

text \<open>
  One due job whose unique key another job holds in the available state fails the whole batch, and with it every other
  due job of that state: the same batch is selected again on the next tick. The rescue paths fall back instead.
\<close>

lemma promote_due_blocked:
  "map_sum (\<lambda>e. e = unique_conflict) id (fst (promote_due Retryable 10 (due_store [''u'' \<mapsto> 9]))) = Inl True"
  "s_deferred (snd (promote_due Retryable 10 (due_store [''u'' \<mapsto> 9]))) = s_deferred (due_store [''u'' \<mapsto> 9])"
proof -
  show r: "map_sum (\<lambda>e. e = unique_conflict) id (fst (promote_due Retryable 10 (due_store [''u'' \<mapsto> 9]))) = Inl True"
    by code_simp
  then show "s_deferred (snd (promote_due Retryable 10 (due_store [''u'' \<mapsto> 9]))) = s_deferred (due_store [''u'' \<mapsto> 9])"
    by (auto simp: promote_due_def in_tx_def rollback_def split: prod.splits sum.splits if_splits)
qed

end
