(* ===== verification/Awa_Completion.thy ===== *)
theory Awa_Completion
  imports Awa_Lifecycle
begin

section \<open>Completion of attempts\<close>

text \<open>
  The batched completion of \<^verbatim>\<open>queue_storage.rs\<close>: completion by lease position and by job id, the compact
  completion of receipt claims in one statement per claim partition, and the general path that closes receipts,
  deletes leases and writes terminal rows.  The main theorem is that a completion reports exactly attempts that
  were open, leaves each of them recorded, and leaves none of them open, so that no attempt completes twice.
\<close>


subsection \<open>Closing receipts of some attempts\<close>

definition row_pair :: "lease_claim \<Rightarrow> job_id \<times> int" where
  "row_pair c = (lc_job_id c, lc_run_lease c)"

definition item_pair :: "lease_claim_batch \<times> claim_item \<Rightarrow> job_id \<times> int" where
  "item_pair bi = (it_job_id (snd bi), it_run_lease (snd bi))"

text \<open>
  Explicit closures for some row claims, \<^verbatim>\<open>ON CONFLICT DO NOTHING\<close>, with the closing time on the claim, and closure
  batches for some items.
\<close>

definition claim_key :: "lease_claim \<Rightarrow> int \<times> job_id \<times> int" where
  "claim_key c = (lc_claim_slot c, lc_job_id c, lc_run_lease c)"

definition close_claims ::
  "string \<Rightarrow> lease_claim list \<Rightarrow> (lease_claim_batch \<times> claim_item) list \<Rightarrow> store \<Rightarrow> store" where
  "close_claims outcome rows items s =
    (let keys = remdups (map claim_key rows) in
     s\<lparr>s_closures := s_closures s @
         map (\<lambda>(slot, job_id, run_lease).
               \<lparr> cc_claim_slot = slot, cc_job_id = job_id, cc_run_lease = run_lease, cc_outcome = outcome,
                 cc_closed_at = s_now s \<rparr>) keys,
       s_lease_claims := map (\<lambda>c. if claim_key c \<in> set keys
           then c\<lparr>lc_closed_at := Some (or_default (lc_closed_at c) (s_now s))\<rparr> else c) (s_lease_claims s),
       s_closure_batches := s_closure_batches s @ closure_batches outcome (s_now s) items\<rparr>)"

definition close_receipt_pairs_tx :: "(job_id \<times> int) list \<Rightarrow> string \<Rightarrow> unit tx" where
  "close_receipt_pairs_tx pairs outcome =
    tx_bind (tx_get (\<lambda>s. cfg_lease_claim_receipts (s_config s))) (\<lambda>receipts.
      if pairs = [] \<or> \<not> receipts then tx_ret ()
      else
        tx_set (\<lambda>s. close_claims outcome
          (filter (\<lambda>c. row_pair c \<in> set pairs \<and> \<not> receipt_closed_evidence s c) (s_lease_claims s))
          (filter (\<lambda>bi. item_pair bi \<in> set pairs \<and> \<not> item_closed s (fst bi) (snd bi) \<and>
                        \<not> moved_on s (it_job_id (snd bi)) (it_run_lease (snd bi))) (batch_items s)) s))"

definition close_receipt_tx :: "job_id \<Rightarrow> int \<Rightarrow> string \<Rightarrow> unit tx" where
  "close_receipt_tx job_id run_lease outcome = close_receipt_pairs_tx [(job_id, run_lease)] outcome"


subsection \<open>Completion by lease\<close>

definition delete_leases :: "(lease_entry \<Rightarrow> bool) \<Rightarrow> lease_entry list tx" where
  "delete_leases P =
    tx_bind (tx_get (\<lambda>s. filter P (s_leases s))) (\<lambda>deleted.
    tx_bind (tx_set (\<lambda>s. s\<lparr>s_leases := filter (\<lambda>l. \<not> P l) (s_leases s)\<rparr>)) (\<lambda>_. tx_ret deleted))"


text \<open>A completed row of a hydrated lease: progress is cleared.\<close>

definition completed_row :: "timestamp \<Rightarrow> lease_transition_row \<Rightarrow> awa_error + done_job_row" where
  "completed_row finalized_at entry =
    res_bind (payload_with_attempt_state (r_payload entry) (lt_progress entry)) (\<lambda>v.
    res_bind (payload_from_json v) (\<lambda>p.
      Inr (lease_into_done_row entry Completed finalized_at (payload_into_json (set_progress p None)))))"

definition complete_deleted_leases :: "lease_entry list \<Rightarrow> (job_id \<times> int) list tx" where
  "complete_deleted_leases deleted =
    (if deleted = [] then tx_ret []
     else
       tx_bind (close_receipt_pairs_tx (map lease_pair deleted) ''completed'') (\<lambda>_.
       tx_bind (hydrate_deleted_leases_tx (map deleted_of_lease deleted) True) (\<lambda>moved.
       tx_bind (tx_get s_now) (\<lambda>finalized_at.
       tx_bind (tx_for (\<lambda>entry. tx_lift (completed_row finalized_at entry)) moved) (\<lambda>done_rows.
       tx_bind (insert_done_rows_tx done_rows (Some Running)) (\<lambda>_.
         tx_ret (map (\<lambda>entry. (r_job_id entry, r_run_lease entry)) moved)))))))"

definition lease_at :: "claimed_entry \<Rightarrow> lease_entry \<Rightarrow> bool" where
  "lease_at c l \<longleftrightarrow>
    ls_lease_slot l = ce_lease_slot c \<and> ls_queue l = ce_queue c \<and> ls_priority l = ce_priority c \<and>
    ls_enqueue_shard l = ce_enqueue_shard c \<and> ls_lane_seq l = ce_lane_seq c"

definition complete_claimed_batch :: "claimed_entry list \<Rightarrow> (job_id \<times> int) list tx" where
  "complete_claimed_batch claimed =
    (if claimed = [] then tx_ret []
     else in_tx (tx_bind (delete_leases (\<lambda>l. \<exists>c \<in> set claimed. lease_at c l)) complete_deleted_leases))"

definition complete_batch :: "claimed_entry list \<Rightarrow> nat tx" where
  "complete_batch claimed = tx_bind (complete_claimed_batch claimed) (\<lambda>updated. tx_ret (length updated))"

definition complete_job_batch_by_id_in_tx :: "(job_id \<times> int) list \<Rightarrow> (job_id \<times> int) list tx" where
  "complete_job_batch_by_id_in_tx completions =
    (if completions = [] then tx_ret []
     else tx_bind (delete_leases (\<lambda>l. lease_pair l \<in> set completions)) complete_deleted_leases)"

definition complete_job_batch_by_id :: "(job_id \<times> int) list \<Rightarrow> (job_id \<times> int) list tx" where
  "complete_job_batch_by_id completions =
    (if completions = [] then tx_ret [] else in_tx (complete_job_batch_by_id_in_tx completions))"


subsection \<open>Compact completion of receipt claims\<close>

definition claimed_pair :: "claimed_runtime_job \<Rightarrow> job_id \<times> int" where
  "claimed_pair e = (jr_id (cj_job e), jr_run_lease (cj_job e))"

definition receipt_fast_complete_candidate :: "claimed_runtime_job \<Rightarrow> bool" where
  "receipt_fast_complete_candidate e \<longleftrightarrow>
    ce_lease_claim_receipt (cj_claim e) \<and> ce_receipt_id (cj_claim e) \<noteq> None \<and> jr_unique_key (cj_job e) = None \<and>
    is_compact_receipt_completion_metadata (jr_metadata (cj_job e)) \<and> jr_tags (cj_job e) = [] \<and>
    (case jr_errors (cj_job e) of None \<Rightarrow> True | Some es \<Rightarrow> es = [])"

text \<open>The identity of a claim: its slot, the attempt and the receipt.\<close>

type_synonym receipt_ref = "int \<times> (job_id \<times> int) \<times> int"

definition claimed_ref :: "claimed_runtime_job \<Rightarrow> int \<Rightarrow> receipt_ref" where
  "claimed_ref e receipt_id = (ce_claim_slot (cj_claim e), claimed_pair e, receipt_id)"

definition row_ref :: "lease_claim \<Rightarrow> receipt_ref" where
  "row_ref c = (lc_claim_slot c, row_pair c, lc_receipt_id c)"

definition item_ref :: "lease_claim_batch \<times> claim_item \<Rightarrow> receipt_ref" where
  "item_ref bi = (lb_claim_slot (fst bi), item_pair bi, it_receipt_id (snd bi))"

definition entry_ref :: "claimed_runtime_job \<Rightarrow> receipt_ref option" where
  "entry_ref e = map_option (claimed_ref e) (ce_receipt_id (cj_claim e))"

definition row_open :: "store \<Rightarrow> lease_claim \<Rightarrow> bool" where
  "row_open s c \<longleftrightarrow> \<not> receipt_closed_evidence s c \<and> \<not> leased s (lc_job_id c) (lc_run_lease c)"

definition item_open :: "store \<Rightarrow> lease_claim_batch \<times> claim_item \<Rightarrow> bool" where
  "item_open s bi \<longleftrightarrow>
    \<not> item_closed s (fst bi) (snd bi) \<and> \<not> leased s (it_job_id (snd bi)) (it_run_lease (snd bi))"

text \<open>The items of the store that a claim points at by batch id and index.\<close>

definition entry_items :: "store \<Rightarrow> claimed_runtime_job \<Rightarrow> (lease_claim_batch \<times> claim_item) list" where
  "entry_items s e =
    (case (ce_claim_batch_id (cj_claim e), ce_claim_batch_index (cj_claim e)) of
       (Some batch_id, Some index) \<Rightarrow>
         filter (\<lambda>bi. entry_ref e = Some (item_ref bi))
           (concat (map (\<lambda>b. case item_at b index of None \<Rightarrow> [] | Some i \<Rightarrow> [(b, i)])
             (filter (\<lambda>b. lb_claim_slot b = ce_claim_slot (cj_claim e) \<and> lb_batch_id b = batch_id)
               (s_claim_batches s))))
     | _ \<Rightarrow> [])"

definition compact_claim_refs :: "store \<Rightarrow> claimed_runtime_job list \<Rightarrow> receipt_ref list" where
  "compact_claim_refs s batch =
    concat (map (\<lambda>c. map (\<lambda>_. row_ref c)
        (filter (\<lambda>e. entry_ref e = Some (row_ref c) \<and> ce_claim_batch_id (cj_claim e) = None) batch))
      (filter (row_open s) (s_lease_claims s))) @
    concat (map (\<lambda>e. map item_ref (filter (item_open s) (entry_items s e))) batch)"

definition completed_rows :: "store \<Rightarrow> claimed_runtime_job list \<Rightarrow> claimed_runtime_job list" where
  "completed_rows s batch =
    concat (map (\<lambda>e. map (\<lambda>_. e) (filter (\<lambda>r. entry_ref e = Some r) (compact_claim_refs s batch))) batch)"

definition by_lane_seq :: "claimed_runtime_job list \<Rightarrow> claimed_runtime_job list" where
  "by_lane_seq es = sort_key (\<lambda>e. (ce_lane_seq (cj_claim e), jr_id (cj_job e))) es"

definition completion_closures :: "timestamp \<Rightarrow> claimed_runtime_job list \<Rightarrow> claim_closure_batch list" where
  "completion_closures finalized_at rows =
    map (\<lambda>(slot, ready_slot, ready_generation).
          \<lparr> xb_claim_slot = slot, xb_ready_slot = ready_slot, xb_ready_generation = ready_generation,
            xb_outcome = ''completed'',
            xb_receipt_ids = map (\<lambda>e. the (ce_receipt_id (cj_claim e))) (by_lane_seq (filter (\<lambda>e.
              (ce_claim_slot (cj_claim e), ce_ready_slot (cj_claim e), ce_ready_generation (cj_claim e)) =
              (slot, ready_slot, ready_generation)) rows)),
            xb_closed_at = finalized_at \<rparr>)
      (remdups (map (\<lambda>e. (ce_claim_slot (cj_claim e), ce_ready_slot (cj_claim e), ce_ready_generation (cj_claim e))) rows))"

definition completion_of :: "claimed_runtime_job \<Rightarrow> completion_item" where
  "completion_of e =
    \<lparr> ci_job_id = jr_id (cj_job e), ci_run_lease = jr_run_lease (cj_job e), ci_lane_seq = ce_lane_seq (cj_claim e),
      ci_attempt = jr_attempt (cj_job e), ci_attempted_at = jr_attempted_at (cj_job e), ci_output = jr_output (cj_job e) \<rparr>"

definition completion_group :: "claimed_runtime_job \<Rightarrow> int \<times> int \<times> int \<times> string \<times> int \<times> int" where
  "completion_group e =
    (ce_ready_slot (cj_claim e), ce_ready_generation (cj_claim e), ce_claim_slot (cj_claim e), jr_queue (cj_job e),
     ce_priority (cj_claim e), ce_enqueue_shard (cj_claim e))"

definition completion_batches :: "timestamp \<Rightarrow> claimed_runtime_job list \<Rightarrow> receipt_completion_batch list" where
  "completion_batches finalized_at rows =
    map (\<lambda>(ready_slot, ready_generation, slot, queue, priority, shard).
          \<lparr> rc_ready_slot = ready_slot, rc_ready_generation = ready_generation, rc_claim_slot = slot, rc_queue = queue,
            rc_priority = priority, rc_enqueue_shard = shard, rc_finalized_at = finalized_at,
            rc_items = map completion_of (by_lane_seq (filter (\<lambda>e.
              completion_group e = (ready_slot, ready_generation, slot, queue, priority, shard)) rows)) \<rparr>)
      (remdups (map completion_group rows))"

definition complete_compact_group :: "timestamp \<Rightarrow> claimed_runtime_job list \<Rightarrow> (job_id \<times> int) list tx" where
  "complete_compact_group finalized_at batch =
    tx_bind (tx_get (\<lambda>s. (compact_claim_refs s batch, completed_rows s batch))) (\<lambda>(refs, rows).
    tx_bind (tx_set (delete_attempts (map (fst \<circ> snd) refs))) (\<lambda>_.
    tx_bind (tx_set (\<lambda>s. s\<lparr>s_closure_batches := s_closure_batches s @ completion_closures finalized_at rows,
                           s_receipt_batches := s_receipt_batches s @ completion_batches finalized_at rows\<rparr>)) (\<lambda>_.
      tx_ret (map claimed_pair rows))))"

fun partition_claims ::
  "int \<Rightarrow> (int, claimed_runtime_job list) omap \<Rightarrow> claimed_runtime_job list \<Rightarrow>
     awa_error + (int, claimed_runtime_job list) omap" where
  "partition_claims slot_count by_partition [] = Inr by_partition"
| "partition_claims slot_count by_partition (e # claimed) =
    res_bind (ring_slot_index (ce_claim_slot (cj_claim e)) slot_count ''claim'') (\<lambda>index.
      partition_claims slot_count (omap_push index e by_partition) claimed)"

definition complete_receipt_runtime_batch_fast ::
  "(json \<Rightarrow> string + string) \<Rightarrow> claimed_runtime_job list \<Rightarrow> (job_id \<times> int) list tx" where
  "complete_receipt_runtime_batch_fast to_text claimed =
    (if claimed = [] then tx_ret []
     else
       tx_bind (tx_get s_now) (\<lambda>finalized_at.
       tx_bind (tx_get (\<lambda>s. int (cfg_claim_slot_count (s_config s)))) (\<lambda>slot_count.
       tx_bind (tx_lift (partition_claims slot_count [] claimed)) (\<lambda>by_partition.
         in_tx (tx_bind (tx_for (complete_compact_group finalized_at)
                   (concat (map (split_by_output_budget to_text \<circ> snd) by_partition)))
                 (\<lambda>rows. tx_ret (concat rows)))))))"


subsection \<open>The general path\<close>

definition receipt_required :: awa_error where
  "receipt_required = Validation ''receipt-backed slow completion requires receipt_id''"

text \<open>
  The statement on receipt-backed claims: it locks the open claims, deletes their attempt rows and closes them.  A missing
  receipt id is a panic of the code, which unwinds the transaction; it is an error with the same message here.
\<close>

definition locked_row_claims :: "store \<Rightarrow> claimed_runtime_job list \<Rightarrow> lease_claim list" where
  "locked_row_claims s claimed =
    concat (map (\<lambda>c. map (\<lambda>_. c) (filter (\<lambda>e. entry_ref e = Some (row_ref c)) claimed))
      (filter (row_open s) (s_lease_claims s)))"

definition locked_batch_claims :: "store \<Rightarrow> claimed_runtime_job list \<Rightarrow> (lease_claim_batch \<times> claim_item) list" where
  "locked_batch_claims s claimed =
    concat (map (\<lambda>e. filter (\<lambda>bi. item_open s bi \<and>
        \<not> moved_on s (it_job_id (snd bi)) (it_run_lease (snd bi))) (entry_items s e)) claimed)"

definition close_completed_receipts :: "claimed_runtime_job list \<Rightarrow> (job_id \<times> int) list tx" where
  "close_completed_receipts claimed =
    (if \<not> list_all (\<lambda>e. ce_receipt_id (cj_claim e) \<noteq> None) claimed then tx_err receipt_required
     else
       tx_bind (tx_get (\<lambda>s. (locked_row_claims s claimed, locked_batch_claims s claimed))) (\<lambda>(rows, items).
       tx_bind (tx_set (delete_attempts (map row_pair rows @ map item_pair items))) (\<lambda>_.
       tx_bind (tx_set (close_claims ''completed'' rows items)) (\<lambda>_.
         tx_ret (map snd (remdups (map claim_key rows)) @ map item_pair items)))))"

text \<open>The last entry of the batch for each attempt, as \<^verbatim>\<open>BTreeMap\<close> collects them.\<close>

definition claimed_map :: "claimed_runtime_job list \<Rightarrow> job_id \<times> int \<rightharpoonup> claimed_runtime_job" where
  "claimed_map claimed = map_of (rev (map (\<lambda>e. (claimed_pair e, e)) claimed))"

definition known_completions :: "claimed_runtime_job list \<Rightarrow> (job_id \<times> int) list \<Rightarrow> claimed_runtime_job list" where
  "known_completions claimed pairs = List.map_filter (claimed_map claimed) pairs"

definition insert_completions :: "claimed_runtime_job list \<Rightarrow> unit tx" where
  "insert_completions es =
    tx_bind (tx_get s_now) (\<lambda>finalized_at.
    tx_bind (tx_for (\<lambda>e. tx_lift (claimed_into_done_row e finalized_at)) es) (\<lambda>done_rows.
    tx_bind (insert_done_rows_tx done_rows (Some Running)) (\<lambda>_. tx_ret ())))"

definition materialized_lease :: "claimed_runtime_job \<Rightarrow> lease_entry \<Rightarrow> bool" where
  "materialized_lease e l \<longleftrightarrow>
    ls_ready_slot l = ce_ready_slot (cj_claim e) \<and> ls_ready_generation l = ce_ready_generation (cj_claim e) \<and>
    ls_job_id l = jr_id (cj_job e) \<and> ls_queue l = ce_queue (cj_claim e) \<and> ls_priority l = ce_priority (cj_claim e) \<and>
    ls_enqueue_shard l = ce_enqueue_shard (cj_claim e) \<and> ls_lane_seq l = ce_lane_seq (cj_claim e) \<and>
    ls_run_lease l = jr_run_lease (cj_job e)"

definition leased_at :: "claimed_runtime_job \<Rightarrow> lease_entry \<Rightarrow> bool" where
  "leased_at e l \<longleftrightarrow> lease_at (cj_claim e) l \<and> ls_run_lease l = jr_run_lease (cj_job e)"

definition complete_leases ::
  "(claimed_runtime_job \<Rightarrow> lease_entry \<Rightarrow> bool) \<Rightarrow> claimed_runtime_job list \<Rightarrow> claimed_runtime_job list \<Rightarrow>
     (job_id \<times> int) list tx" where
  "complete_leases matches claimed entries =
    tx_bind (delete_leases (\<lambda>l. \<exists>e \<in> set entries. matches e l)) (\<lambda>deleted.
    tx_bind (tx_set (delete_attempts (map lease_pair deleted))) (\<lambda>_.
    if deleted = [] then tx_ret []
    else
      tx_bind (close_receipt_pairs_tx (map lease_pair deleted) ''completed'') (\<lambda>_.
      let es = known_completions claimed (map lease_pair deleted) in
      tx_bind (insert_completions es) (\<lambda>_. tx_ret (map claimed_pair es)))))"

definition complete_receipts :: "claimed_runtime_job list \<Rightarrow> claimed_runtime_job list \<Rightarrow> (job_id \<times> int) list tx" where
  "complete_receipts claimed receipt_claimed =
    (if receipt_claimed = [] then tx_ret []
     else
       tx_bind (close_completed_receipts receipt_claimed) (\<lambda>updated.
       tx_bind (if updated = [] then tx_ret () else insert_completions (known_completions claimed updated)) (\<lambda>_.
         tx_ret updated)))"

definition complete_runtime_batch_slow_in_tx :: "claimed_runtime_job list \<Rightarrow> (job_id \<times> int) list tx" where
  "complete_runtime_batch_slow_in_tx claimed =
    (if claimed = [] then tx_ret []
     else
       tx_bind (tx_get (\<lambda>s. cfg_lease_claim_receipts (s_config s))) (\<lambda>receipts.
       if receipts then
         let receipt_claimed = filter (\<lambda>e. ce_lease_claim_receipt (cj_claim e)) claimed;
             materialized = filter (\<lambda>e. \<not> ce_lease_claim_receipt (cj_claim e)) claimed in
         tx_bind (complete_receipts claimed receipt_claimed) (\<lambda>updated.
         let rest = materialized @ filter (\<lambda>e. claimed_pair e \<notin> set updated) receipt_claimed in
         tx_bind (if rest = [] then tx_ret [] else complete_leases materialized_lease claimed rest) (\<lambda>more.
           tx_ret (updated @ more)))
       else complete_leases leased_at claimed claimed))"

definition complete_runtime_batch_slow :: "claimed_runtime_job list \<Rightarrow> (job_id \<times> int) list tx" where
  "complete_runtime_batch_slow claimed = in_tx (complete_runtime_batch_slow_in_tx claimed)"

definition complete_runtime_batch ::
  "(json \<Rightarrow> string + string) \<Rightarrow> claimed_runtime_job list \<Rightarrow> (job_id \<times> int) list tx" where
  "complete_runtime_batch to_text claimed =
    (if claimed = [] then tx_ret []
     else
       tx_bind (tx_get (\<lambda>s. cfg_lease_claim_receipts (s_config s))) (\<lambda>receipts.
       if receipts \<and> list_all receipt_fast_complete_candidate claimed then
         tx_bind (complete_receipt_runtime_batch_fast to_text claimed) (\<lambda>updated.
         if length updated = length claimed then tx_ret updated
         else
           let missed = filter (\<lambda>e. claimed_pair e \<notin> set updated) claimed in
           if missed = [] then tx_ret updated
           else tx_bind (complete_runtime_batch_slow missed) (\<lambda>more. tx_ret (updated @ more)))
       else complete_runtime_batch_slow claimed))"

subsection \<open>Open and recorded attempts\<close>

definition attempt_open :: "store \<Rightarrow> job_id \<times> int \<Rightarrow> bool" where
  "attempt_open s p \<longleftrightarrow>
    (\<exists>l \<in> set (s_leases s). lease_pair l = p) \<or>
    (\<exists>c \<in> set (s_lease_claims s). row_pair c = p \<and> \<not> receipt_closed_evidence s c) \<or>
    (\<exists>bi \<in> set (batch_items s). item_pair bi = p \<and> \<not> item_closed s (fst bi) (snd bi))"

definition compact_done :: "store \<Rightarrow> job_id \<times> int \<Rightarrow> bool" where
  "compact_done s p \<longleftrightarrow> (\<exists>b \<in> set (s_receipt_batches s). \<exists>i \<in> set (rc_items b). (ci_job_id i, ci_run_lease i) = p)"

definition recorded :: "store \<Rightarrow> job_id \<times> int \<Rightarrow> bool" where
  "recorded s p \<longleftrightarrow> done_attempt s (fst p) (snd p) \<or> compact_done s p"

text \<open>
  The state that claiming keeps: an attempt has one claim and at most one lease, a batch item whose attempt has moved
  to a terminal, deferred or dead-letter row is closed, and without receipts there are no batches.
\<close>

definition claims_wf :: "store \<Rightarrow> bool" where
  "claims_wf s \<longleftrightarrow>
    distinct (map row_pair (s_lease_claims s) @ map item_pair (batch_items s)) \<and>
    distinct (map lease_pair (s_leases s)) \<and>
    list_all (\<lambda>bi. moved_on s (fst (item_pair bi)) (snd (item_pair bi)) \<longrightarrow> item_closed s (fst bi) (snd bi)) (batch_items s) \<and>
    (\<not> cfg_lease_claim_receipts (s_config s) \<longrightarrow> batch_items s = [])"

text \<open>Completion only closes: leases go, closures, closing times and terminal rows come, claims stay.\<close>

definition same_claim :: "lease_claim \<Rightarrow> lease_claim \<Rightarrow> bool" where
  "same_claim c c' \<longleftrightarrow> (\<exists>t. c' = c\<lparr>lc_closed_at := t\<rparr> \<and> (lc_closed_at c \<noteq> None \<longrightarrow> t \<noteq> None))"

definition closing :: "store \<Rightarrow> store \<Rightarrow> bool" where
  "closing s s' \<longleftrightarrow>
    (\<exists>P. s_leases s' = filter P (s_leases s)) \<and> list_all2 same_claim (s_lease_claims s) (s_lease_claims s') \<and>
    s_claim_batches s' = s_claim_batches s \<and> set (s_closures s) \<subseteq> set (s_closures s') \<and>
    set (s_closure_batches s) \<subseteq> set (s_closure_batches s') \<and> set (s_done s) \<subseteq> set (s_done s') \<and>
    s_deferred s' = s_deferred s \<and> s_dlq s' = s_dlq s \<and> set (s_receipt_batches s) \<subseteq> set (s_receipt_batches s') \<and>
    s_config s' = s_config s"

lemma same_claim_refl [simp]: "same_claim c c"
  unfolding same_claim_def by (intro exI [of _ "lc_closed_at c"]) simp

lemma same_claim_trans: "same_claim a b \<Longrightarrow> same_claim b c \<Longrightarrow> same_claim a c"
  unfolding same_claim_def by auto

lemma closing_grows:
  assumes "closing s s'"
  shows "set (s_closures s) \<subseteq> set (s_closures s')" "set (s_closure_batches s) \<subseteq> set (s_closure_batches s')"
    "set (s_done s) \<subseteq> set (s_done s')" "set (s_receipt_batches s) \<subseteq> set (s_receipt_batches s')"
  using assms by (simp_all add: closing_def)

lemma same_claims_trans: "list_all2 same_claim as bs \<Longrightarrow> list_all2 same_claim bs cs \<Longrightarrow> list_all2 same_claim as cs"
  by (rule list_all2_trans [where ?P1.0 = same_claim and ?P2.0 = same_claim and ?P3.0 = same_claim, OF same_claim_trans])

interpretation close_rel: tx_relation closing
proof
  fix s :: store
  have "\<exists>P. s_leases s = filter P (s_leases s)" by (rule exI [of _ "\<lambda>_. True"]) simp
  then show "closing s s" unfolding closing_def by (intro conjI) (simp_all add: list_all2_refl)
next
  show "closing s u" if "closing s t" "closing t u" for s t u
  proof -
    have "list_all2 same_claim (s_lease_claims s) (s_lease_claims u)"
      by (rule same_claims_trans [of _ "s_lease_claims t"]) (use that in \<open>simp_all add: closing_def\<close>)
    moreover from that obtain P Q where pq: "s_leases t = filter P (s_leases s)" "s_leases u = filter Q (s_leases t)"
      unfolding closing_def by blast
    moreover have "\<exists>R. s_leases u = filter R (s_leases s)" unfolding pq filter_filter by blast
    moreover have "s_claim_batches u = s_claim_batches s" "s_deferred u = s_deferred s" "s_dlq u = s_dlq s" "s_config u = s_config s"
      using that by (simp_all add: closing_def)
    moreover note closing_grows(1) [OF that(1), THEN subset_trans, OF closing_grows(1) [OF that(2)]]
      closing_grows(2) [OF that(1), THEN subset_trans, OF closing_grows(2) [OF that(2)]]
      closing_grows(3) [OF that(1), THEN subset_trans, OF closing_grows(3) [OF that(2)]]
      closing_grows(4) [OF that(1), THEN subset_trans, OF closing_grows(4) [OF that(2)]]
    ultimately show ?thesis unfolding closing_def by (intro conjI) assumption+
  qed
qed

lemma closing_batch_items: "closing s s' \<Longrightarrow> batch_items s' = batch_items s"
  by (simp add: closing_def batch_items_def)

lemma closing_item_closed: "closing s s' \<Longrightarrow> item_closed s b i \<Longrightarrow> item_closed s' b i"
  unfolding item_closed_def closing_def using has_closure_mono batch_closed_mono by blast

lemma closing_moved_on: "closing s s' \<Longrightarrow> moved_on s j l \<Longrightarrow> moved_on s' j l"
  by (auto simp: closing_def moved_on_def done_attempt_def deferred_attempt_def dlq_attempt_def)

lemma same_claim_fields:
  "same_claim c c' \<Longrightarrow> row_pair c' = row_pair c \<and> lc_claim_slot c' = lc_claim_slot c \<and> lc_receipt_id c' = lc_receipt_id c"
  by (auto simp: same_claim_def row_pair_def)

lemma closing_row_evidence:
  assumes "closing s s'" "same_claim c c'" "receipt_closed_evidence s c"
  shows "receipt_closed_evidence s' c'"
proof -
  have f: "lc_claim_slot c' = lc_claim_slot c" "lc_receipt_id c' = lc_receipt_id c"
    "lc_job_id c' = lc_job_id c" "lc_run_lease c' = lc_run_lease c" "lc_closed_at c \<noteq> None \<longrightarrow> lc_closed_at c' \<noteq> None"
    using assms(2) by (auto simp: same_claim_def)
  have sub: "set (s_closures s) \<subseteq> set (s_closures s')" "set (s_closure_batches s) \<subseteq> set (s_closure_batches s')"
    using assms(1) by (simp_all add: closing_def)
  show ?thesis
    using assms(3) f sub has_closure_mono [OF sub(1)] closing_moved_on [OF assms(1)]
    unfolding receipt_closed_evidence_def f by blast
qed

lemma closing_open: "closing s s' \<Longrightarrow> attempt_open s' p \<Longrightarrow> attempt_open s p"
proof -
  assume c: "closing s s'" and "attempt_open s' p"
  then consider (lease) l where "l \<in> set (s_leases s')" "lease_pair l = p"
    | (row) c' where "c' \<in> set (s_lease_claims s')" "row_pair c' = p" "\<not> receipt_closed_evidence s' c'"
    | (item) bi where "bi \<in> set (batch_items s')" "item_pair bi = p" "\<not> item_closed s' (fst bi) (snd bi)"
    by (auto simp: attempt_open_def)
  then show "attempt_open s p"
  proof cases
    case lease
    then show ?thesis using c by (auto simp: attempt_open_def closing_def)
  next
    case row
    from c have "list_all2 same_claim (s_lease_claims s) (s_lease_claims s')" by (simp add: closing_def)
    from list_all2_mem [OF this row(1)] obtain c0 where "c0 \<in> set (s_lease_claims s)" "same_claim c0 c'" by blast
    then show ?thesis using row(2,3) closing_row_evidence [OF c] same_claim_fields unfolding attempt_open_def by metis
  next
    case item
    then show ?thesis using closing_batch_items [OF c] closing_item_closed [OF c] unfolding attempt_open_def by metis
  qed
qed

lemma closing_recorded: "closing s s' \<Longrightarrow> recorded s p \<Longrightarrow> recorded s' p"
  by (auto simp: closing_def recorded_def done_attempt_def compact_done_def)

lemma closing_pairs: "closing s s' \<Longrightarrow> map row_pair (s_lease_claims s') = map row_pair (s_lease_claims s)"
proof -
  assume "closing s s'"
  then have "list_all2 same_claim (s_lease_claims s) (s_lease_claims s')" by (simp add: closing_def)
  then show ?thesis
    by (induction rule: list_all2_induct) (auto dest: same_claim_fields)
qed

lemma closingI:
  assumes "s_leases s' = filter P (s_leases s)" "list_all2 same_claim (s_lease_claims s) (s_lease_claims s')"
    "s_claim_batches s' = s_claim_batches s" "\<exists>xs. s_closures s' = s_closures s @ xs"
    "\<exists>xs. s_closure_batches s' = s_closure_batches s @ xs" "\<exists>xs. s_done s' = s_done s @ xs"
    "s_deferred s' = s_deferred s" "s_dlq s' = s_dlq s" "\<exists>xs. s_receipt_batches s' = s_receipt_batches s @ xs"
    "s_config s' = s_config s"
  shows "closing s s'"
  using assms unfolding closing_def by (intro conjI) (blast | fastforce)+

lemma closing_steps:
  "closing s (delete_attempts refs s)"
  "closing s (close_claims outcome rows items s)"
  "closing s (s\<lparr>s_closure_batches := s_closure_batches s @ xs, s_receipt_batches := s_receipt_batches s @ rs\<rparr>)"
  "closing s (s\<lparr>s_leases := filter P (s_leases s)\<rparr>)"
  "closing s (s\<lparr>s_claims := m, s_done := s_done s @ es, s_count_deltas := ds\<rparr>)"
proof -

  show "closing s (delete_attempts refs s)"
    by (rule closingI [where P = "\<lambda>_. True"]) (simp_all add: delete_attempts_def list_all2_refl)
  have "list_all2 same_claim (s_lease_claims s) (map (\<lambda>c. if Q c
      then c\<lparr>lc_closed_at := Some (or_default (lc_closed_at c) (s_now s))\<rparr> else c) (s_lease_claims s))" for Q
    unfolding list_all2_map2
  proof (rule list_all2_refl)
    fix c :: lease_claim
    have "same_claim c (c\<lparr>lc_closed_at := Some t\<rparr>)" for t by (auto simp: same_claim_def)
    then show "same_claim c (if Q c then c\<lparr>lc_closed_at := Some (or_default (lc_closed_at c) (s_now s))\<rparr> else c)" by simp
  qed
  then show "closing s (close_claims outcome rows items s)"
    by (intro closingI [where P = "\<lambda>_. True"]) (simp_all add: close_claims_def Let_def)
  show "closing s (s\<lparr>s_closure_batches := s_closure_batches s @ xs, s_receipt_batches := s_receipt_batches s @ rs\<rparr>)"
    by (rule closingI [where P = "\<lambda>_. True"]) (simp_all add: list_all2_refl)
  show "closing s (s\<lparr>s_leases := filter P (s_leases s)\<rparr>)"
    by (rule closingI [where P = P]) (simp_all add: list_all2_refl)
  show "closing s (s\<lparr>s_claims := m, s_done := s_done s @ es, s_count_deltas := ds\<rparr>)"
    by (rule closingI [where P = "\<lambda>_. True"]) (simp_all add: list_all2_refl)
qed

text \<open>A transaction that completes attempts of a set: those it reports were open, are recorded and are no longer open.\<close>

definition completing :: "(job_id \<times> int) set \<Rightarrow> (job_id \<times> int) list tx \<Rightarrow> bool" where
  "completing C m \<longleftrightarrow> (\<forall>s pairs s'. claims_wf s \<longrightarrow> m s = (Inr pairs, s') \<longrightarrow>
     closing s s' \<and> claims_wf s' \<and> set pairs \<subseteq> C \<and>
     (\<forall>p \<in> set pairs. attempt_open s p \<and> recorded s' p \<and> \<not> attempt_open s' p))"

lemma completingI:
  assumes "\<And>s pairs s' p. claims_wf s \<Longrightarrow> m s = (Inr pairs, s') \<Longrightarrow> closing s s' \<and> claims_wf s'"
    "\<And>s pairs s' p. claims_wf s \<Longrightarrow> m s = (Inr pairs, s') \<Longrightarrow> p \<in> set pairs \<Longrightarrow>
       p \<in> C \<and> attempt_open s p \<and> recorded s' p \<and> \<not> attempt_open s' p"
  shows "completing C m"
  using assms unfolding completing_def by blast

lemma completingD:
  assumes "completing C m" "claims_wf s" "m s = (Inr pairs, s')"
  shows "closing s s'" "claims_wf s'" "p \<in> set pairs \<Longrightarrow> p \<in> C" "p \<in> set pairs \<Longrightarrow> attempt_open s p"
    "p \<in> set pairs \<Longrightarrow> recorded s' p" "p \<in> set pairs \<Longrightarrow> \<not> attempt_open s' p"
  using assms unfolding completing_def by blast+

lemma completing_ret: "completing C (tx_ret [])"
  by (simp add: completing_def tx_simps close_rel.refl)

lemma completing_mono: "completing C m \<Longrightarrow> C \<subseteq> D \<Longrightarrow> completing D m"
  unfolding completing_def by blast

lemma completing_err: "completing C (tx_err e)"
  by (simp add: completing_def tx_simps)

lemma completing_in_tx: "completing C m \<Longrightarrow> completing C (in_tx m)"
  by (auto simp: completing_def in_tx_def split: prod.splits sum.splits)

lemma completing_get: "(\<And>a. completing C (f a)) \<Longrightarrow> completing C (tx_bind (tx_get g) f)"
  by (simp add: completing_def tx_simps)

lemma completing_lift: "(\<And>a. r = Inr a \<Longrightarrow> completing C (f a)) \<Longrightarrow> completing C (tx_bind (tx_lift r) f)"
  by (cases r) (auto simp: completing_def tx_simps tx_bind_def)

lemma completing_both:
  assumes m: "completing C m" and f: "\<And>ps. completing C (f ps)"
  shows "completing C (tx_bind m (\<lambda>ps. tx_bind (f ps) (\<lambda>qs. tx_ret (ps @ qs))))"
proof (rule completingI)
  fix s pairs s' assume wf: "claims_wf s" and run: "tx_bind m (\<lambda>ps. tx_bind (f ps) (\<lambda>qs. tx_ret (ps @ qs))) s = (Inr pairs, s')"
  then obtain ps s1 qs where r: "m s = (Inr ps, s1)" "f ps s1 = (Inr qs, s')" "pairs = ps @ qs"
    by (auto simp: tx_bind_Inr tx_simps)
  note first = completingD(1) [OF m wf r(1)] and wf1 = completingD(2) [OF m wf r(1)]
  note later = completingD(1) [OF f wf1 r(2)]
  show "closing s s' \<and> claims_wf s'" using close_rel.trans [OF first later] completingD(2) [OF f wf1 r(2)] by blast
  fix p assume "p \<in> set pairs"
  then consider "p \<in> set ps" | "p \<in> set qs" using r(3) by auto
  then show "p \<in> C \<and> attempt_open s p \<and> recorded s' p \<and> \<not> attempt_open s' p"
  proof cases
    case 1
    then show ?thesis
      using completingD(3-6) [OF m wf r(1), of p] closing_recorded [OF later] closing_open [OF later] by blast
  next
    case 2
    then show ?thesis
      using completingD(3-6) [OF f wf1 r(2), of p] closing_open [OF first] by blast
  qed
qed

lemma completing_for:
  "(\<And>x. x \<in> set xs \<Longrightarrow> completing C (f x)) \<Longrightarrow> completing C (tx_bind (tx_for f xs) (\<lambda>ys. tx_ret (concat ys)))"
proof (induction xs)
  case Nil
  then show ?case using completing_ret by (simp add: tx_monad_laws)
next
  case (Cons x xs)
  have "tx_bind (tx_for f (x # xs)) (\<lambda>ys. tx_ret (concat ys)) =
      tx_bind (f x) (\<lambda>ps. tx_bind (tx_bind (tx_for f xs) (\<lambda>ys. tx_ret (concat ys))) (\<lambda>qs. tx_ret (ps @ qs)))"
    by (simp add: tx_monad_laws)
  then show ?case using completing_both [of C "f x"] Cons by simp
qed

lemma sole_claim:
  assumes "claims_wf s"
  shows "c \<in> set (s_lease_claims s) \<Longrightarrow> c' \<in> set (s_lease_claims s) \<Longrightarrow> row_pair c = row_pair c' \<Longrightarrow> c = c'"
    and "bi \<in> set (batch_items s) \<Longrightarrow> bi' \<in> set (batch_items s) \<Longrightarrow> item_pair bi = item_pair bi' \<Longrightarrow> bi = bi'"
    and "c \<in> set (s_lease_claims s) \<Longrightarrow> bi \<in> set (batch_items s) \<Longrightarrow> row_pair c \<noteq> item_pair bi"
proof -
  have d: "distinct (map row_pair (s_lease_claims s))" "distinct (map item_pair (batch_items s))"
    "set (map row_pair (s_lease_claims s)) \<inter> set (map item_pair (batch_items s)) = {}"
    using assms by (simp_all add: claims_wf_def)
  show "c \<in> set (s_lease_claims s) \<Longrightarrow> c' \<in> set (s_lease_claims s) \<Longrightarrow> row_pair c = row_pair c' \<Longrightarrow> c = c'"
    using d(1) unfolding distinct_map inj_on_def by blast
  show "bi \<in> set (batch_items s) \<Longrightarrow> bi' \<in> set (batch_items s) \<Longrightarrow> item_pair bi = item_pair bi' \<Longrightarrow> bi = bi'"
    using d(2) unfolding distinct_map inj_on_def by blast
  show "c \<in> set (s_lease_claims s) \<Longrightarrow> bi \<in> set (batch_items s) \<Longrightarrow> row_pair c \<noteq> item_pair bi"
    using d(3) unfolding set_map by blast
qed

lemma claims_wf_closing:
  assumes "closing s s'" "claims_wf s"
    and "\<And>bi. bi \<in> set (batch_items s) \<Longrightarrow> done_attempt s' (fst (item_pair bi)) (snd (item_pair bi)) \<Longrightarrow>
      \<not> done_attempt s (fst (item_pair bi)) (snd (item_pair bi)) \<Longrightarrow> item_closed s' (fst bi) (snd bi)"
  shows "claims_wf s'"
proof -
  have "distinct (map lease_pair (s_leases s'))"
    using assms(1,2) by (auto simp: closing_def claims_wf_def distinct_map_filter)
  moreover have "moved_on s' j l \<longleftrightarrow> done_attempt s' j l \<or> deferred_attempt s j l \<or> dlq_attempt s j l" for j l
    using assms(1) by (auto simp: closing_def moved_on_def deferred_attempt_def dlq_attempt_def)
  moreover have "s_config s' = s_config s" using assms(1) by (simp add: closing_def)
  ultimately show ?thesis
    using assms closing_pairs [OF assms(1)] closing_batch_items [OF assms(1)] closing_item_closed [OF assms(1)]
    unfolding claims_wf_def list_all_iff moved_on_def by metis
qed

lemma by_lane_seq_set [simp]: "set (by_lane_seq es) = set es"
  by (simp add: by_lane_seq_def)

lemma completion_closures_cover:
  assumes "e \<in> set rows"
  shows "\<exists>x \<in> set (completion_closures t rows). xb_claim_slot x = ce_claim_slot (cj_claim e) \<and>
    the (ce_receipt_id (cj_claim e)) \<in> set (xb_receipt_ids x)"
  using assms unfolding completion_closures_def by (auto intro!: bexI [of _ e] image_eqI)

lemma completion_batches_cover:
  assumes "e \<in> set rows"
  shows "\<exists>b \<in> set (completion_batches t rows). completion_of e \<in> set (rc_items b)"
  using assms unfolding completion_batches_def by (auto split: prod.split intro!: bexI [of _ e] image_eqI)

lemma entry_ref_Some:
  "entry_ref e = Some r \<Longrightarrow> ce_claim_slot (cj_claim e) = fst r \<and> claimed_pair e = fst (snd r) \<and> ce_receipt_id (cj_claim e) = Some (snd (snd r))"
  by (auto simp: entry_ref_def claimed_ref_def)

lemma entry_items_in: "bi \<in> set (entry_items s e) \<Longrightarrow> bi \<in> set (batch_items s) \<and> entry_ref e = Some (item_ref bi)"
  by (cases bi) (auto simp: entry_items_def item_at_def in_batch_items split: option.splits if_splits)

text \<open>An open claim that a statement refers to, whichever table holds it.\<close>

definition open_ref :: "store \<Rightarrow> receipt_ref \<Rightarrow> bool" where
  "open_ref s r \<longleftrightarrow>
    (\<exists>c \<in> set (s_lease_claims s). row_open s c \<and> r = row_ref c) \<or>
    (\<exists>bi \<in> set (batch_items s). item_open s bi \<and> r = item_ref bi)"

lemma compact_refs_open: "r \<in> set (compact_claim_refs s es) \<Longrightarrow> open_ref s r"
  unfolding compact_claim_refs_def open_ref_def using entry_items_in by fastforce

lemma open_ref_open: "open_ref s r \<Longrightarrow> attempt_open s (fst (snd r))"
  by (auto simp: open_ref_def attempt_open_def row_open_def item_open_def row_ref_def item_ref_def) 

lemma open_ref_not_leased: "open_ref s r \<Longrightarrow> l \<in> set (s_leases s) \<Longrightarrow> lease_pair l \<noteq> fst (snd r)"
  by (auto simp: open_ref_def row_open_def item_open_def row_ref_def item_ref_def leased_def lease_pair_def row_pair_def
      item_pair_def)

definition ref_closed :: "store \<Rightarrow> receipt_ref \<Rightarrow> bool" where
  "ref_closed s r \<longleftrightarrow> batch_closed s (fst r) (snd (snd r)) \<or> has_closure s (fst r) (fst (fst (snd r))) (snd (fst (snd r)))"

lemma closed_ref_not_open:
  assumes wf: "claims_wf s" and cl: "closing s s'" and r: "open_ref s r" and closed: "ref_closed s' r"
  shows "\<not> attempt_open s' (fst (snd r))"
proof -
  have "lease_pair l \<noteq> fst (snd r)" if "l \<in> set (s_leases s')" for l
    using that open_ref_not_leased [OF r] cl by (auto simp: closing_def)
  moreover have "receipt_closed_evidence s' c'" if c': "c' \<in> set (s_lease_claims s')" "row_pair c' = fst (snd r)" for c'
  proof -
    from cl have "list_all2 same_claim (s_lease_claims s) (s_lease_claims s')" by (simp add: closing_def)
    from list_all2_mem [OF this c'(1)] obtain c where c: "c \<in> set (s_lease_claims s)" "same_claim c c'" by blast
    have p: "row_pair c = fst (snd r)" using same_claim_fields [OF c(2)] c'(2) by simp
    from r have "r = row_ref c"
      unfolding open_ref_def
    proof (elim disjE bexE conjE)
      fix d assume "d \<in> set (s_lease_claims s)" "r = row_ref d"
      then show ?thesis using sole_claim(1) [OF wf c(1)] p by (simp add: row_ref_def)
    next
      fix bi assume "bi \<in> set (batch_items s)" "r = item_ref bi"
      then show ?thesis using sole_claim(3) [OF wf c(1), of bi] p by (simp add: item_ref_def)
    qed
    then have f: "fst r = lc_claim_slot c'" "snd (snd r) = lc_receipt_id c'" "fst (fst (snd r)) = lc_job_id c'"
      "snd (fst (snd r)) = lc_run_lease c'"
      using same_claim_fields [OF c(2)] c'(2) by (simp_all add: row_ref_def row_pair_def)
    show ?thesis
      using closed unfolding ref_closed_def f receipt_closed_evidence_def batch_closed_def by blast
  qed
  moreover have "item_closed s' (fst bi') (snd bi')" if b: "bi' \<in> set (batch_items s')" "item_pair bi' = fst (snd r)" for bi'
  proof -
    have bi': "bi' \<in> set (batch_items s)" using b(1) closing_batch_items [OF cl] by simp
    from r have "r = item_ref bi'"
      unfolding open_ref_def
    proof (elim disjE bexE conjE)
      fix d assume "d \<in> set (s_lease_claims s)" "r = row_ref d"
      then show ?thesis using sole_claim(3) [OF wf _ bi', of d] b(2) by (simp add: row_ref_def)
    next
      fix bi assume "bi \<in> set (batch_items s)" "r = item_ref bi"
      then show ?thesis using sole_claim(2) [OF wf bi'] b(2) by (simp add: item_ref_def)
    qed
    then show ?thesis
      using closed by (auto simp: ref_closed_def item_closed_def item_ref_def item_pair_def)
  qed
  ultimately show ?thesis unfolding attempt_open_def by blast
qed

lemma compact_group_completing: "completing (claimed_pair ` set es) (complete_compact_group t es)"
proof (rule completingI)
  fix s pairs s' assume wf: "claims_wf s" and run: "complete_compact_group t es s = (Inr pairs, s')"
  define rows where "rows = completed_rows s es"
  let ?s1 = "delete_attempts (map (fst \<circ> snd) (compact_claim_refs s es)) s"
  have s': "s' = ?s1\<lparr>s_closure_batches := s_closure_batches ?s1 @ completion_closures t rows,
      s_receipt_batches := s_receipt_batches ?s1 @ completion_batches t rows\<rparr>" and pairs: "pairs = map claimed_pair rows"
    using run by (simp_all add: complete_compact_group_def tx_simps rows_def)
  have cl: "closing s s'" unfolding s' by (rule close_rel.trans [OF closing_steps(1) closing_steps(3)])
  moreover have "claims_wf s'"
    by (rule claims_wf_closing [OF cl wf]) (simp add: s' done_attempt_def delete_attempts_def)
  ultimately show "closing s s' \<and> claims_wf s'" by blast
  fix p assume "p \<in> set pairs"
  then obtain e where e0: "e \<in> set rows" "p = claimed_pair e" by (auto simp: pairs)
  then obtain r where e: "e \<in> set rows" "p = claimed_pair e" "e \<in> set es" "r \<in> set (compact_claim_refs s es)" "entry_ref e = Some r"
    by (auto simp: rows_def completed_rows_def)
  have pr: "p = fst (snd r)" "ce_claim_slot (cj_claim e) = fst r" "ce_receipt_id (cj_claim e) = Some (snd (snd r))"
    using entry_ref_Some [OF e(5)] e(2) by simp_all
  have "batch_closed s' (fst r) (snd (snd r))"
    using completion_closures_cover [OF e(1), of t] pr unfolding batch_closed_def s' by auto
  then have "\<not> attempt_open s' p"
    unfolding pr(1) by (intro closed_ref_not_open [OF wf cl compact_refs_open [OF e(4)]]) (simp add: ref_closed_def)
  moreover have "compact_done s' p"
    using completion_batches_cover [OF e(1), of t] e(2) unfolding compact_done_def s'
    by (auto simp: completion_of_def claimed_pair_def) force
  ultimately show "p \<in> claimed_pair ` set es \<and> attempt_open s p \<and> recorded s' p \<and> \<not> attempt_open s' p"
    using e(2,3) open_ref_open [OF compact_refs_open [OF e(4)]] pr(1) by (simp add: recorded_def)
qed

lemma claims_wf_done:
  assumes cl: "closing s s'" and wf: "claims_wf s"
    and new: "\<And>p. done_attempt s' (fst p) (snd p) \<Longrightarrow> \<not> done_attempt s (fst p) (snd p) \<Longrightarrow> \<not> attempt_open s' p"
  shows "claims_wf s'"
proof (rule claims_wf_closing [OF cl wf])
  fix bi assume bi: "bi \<in> set (batch_items s)" and "done_attempt s' (fst (item_pair bi)) (snd (item_pair bi))"
    "\<not> done_attempt s (fst (item_pair bi)) (snd (item_pair bi))"
  then have "\<not> attempt_open s' (item_pair bi)" using new [of "item_pair bi"] by blast
  then show "item_closed s' (fst bi) (snd bi)"
    using bi closing_batch_items [OF cl] unfolding attempt_open_def by auto
qed

lemma claimed_row_pair:
  "claimed_into_done_row e t = Inr row \<Longrightarrow> r_job_id row = jr_id (cj_job e) \<and> r_run_lease row = jr_run_lease (cj_job e)"
  by (auto simp: claimed_into_done_row_def Let_def res_bind_def split: sum.splits)

lemma insert_completions_result:
  assumes "insert_completions es s = (Inr u, s')"
  shows "\<exists>m xs ds. s' = s\<lparr>s_claims := m, s_done := s_done s @ xs, s_count_deltas := ds\<rparr> \<and>
    (\<lambda>d. (de_job_id d, de_run_lease d)) ` set xs = claimed_pair ` set es"
proof -
  obtain rows n s1 where r1: "tx_for (\<lambda>e. tx_lift (claimed_into_done_row e (s_now s))) es s = (Inr rows, s1)"
    "insert_done_rows_tx rows (Some Running) s1 = (Inr n, s')"
    using assms by (auto simp: insert_completions_def tx_bind_Inr tx_simps)
  have all: "list_all2 (\<lambda>e row. claimed_into_done_row e (s_now s) = Inr row) es rows" and s1: "s1 = s"
    using lift_all [OF r1(1)] by simp_all
  have r: "insert_done_rows_tx rows (Some Running) s = (Inr n, s')" using r1(2) s1 by simp
  from all have pairs: "map (\<lambda>row. (r_job_id row, r_run_lease row)) rows = map claimed_pair es"
    by (induction rule: list_all2_induct) (auto simp: claimed_pair_def dest: claimed_row_pair)
  show ?thesis
  proof (cases "rows = []")
    case True
    then have "s' = s\<lparr>s_claims := s_claims s, s_done := s_done s @ [], s_count_deltas := s_count_deltas s\<rparr>" "es = []"
      using r all by (simp_all add: insert_done_rows_tx_def tx_simps)
    then show ?thesis
      by (intro exI [of _ "s_claims s"] exI [of _ "[]"] exI [of _ "s_count_deltas s"]) simp
  next
    case False
    then obtain rp m xs ds where h: "s' = s\<lparr>s_claims := m, s_done := s_done s @ xs, s_count_deltas := s_count_deltas s @ ds\<rparr>"
      "set xs = (\<lambda>row. if keep_ready_backing (Some Running) \<and> dn_lane_seq row \<ge> 0 then store_ready_backed row (rp row)
                    else store_synthetic row (rp row)) ` set rows"
      using insert_done_rows_result [OF r] by blast
    have "(\<lambda>d. (de_job_id d, de_run_lease d)) ` set xs = (\<lambda>row. (r_job_id row, r_run_lease row)) ` set rows"
      unfolding h(2) image_image by (intro image_cong refl) (simp add: store_ready_backed_def store_synthetic_def)
    also have "\<dots> = claimed_pair ` set es" using pairs by (metis list.set_map)
    finally show ?thesis using h(1) by blast
  qed
qed

lemma insert_completions_done:
  assumes "insert_completions es s = (Inr u, s')"
  shows "closing s s'" "done_attempt s' j l \<longleftrightarrow> done_attempt s j l \<or> (j, l) \<in> claimed_pair ` set es"
proof -
  obtain m xs ds where h: "s' = s\<lparr>s_claims := m, s_done := s_done s @ xs, s_count_deltas := ds\<rparr>"
    "(\<lambda>d. (de_job_id d, de_run_lease d)) ` set xs = claimed_pair ` set es"
    using insert_completions_result [OF assms] by blast
  show "closing s s'" unfolding h(1) by (rule closing_steps)
  have "done_attempt s' j l \<longleftrightarrow> done_attempt s j l \<or> (\<exists>d \<in> set xs. (de_job_id d, de_run_lease d) = (j, l))"
    unfolding h(1) by (auto simp: done_attempt_def)
  then show "done_attempt s' j l \<longleftrightarrow> done_attempt s j l \<or> (j, l) \<in> claimed_pair ` set es"
    unfolding h(2) [symmetric] by (auto simp: image_iff)
qed

lemma claimed_map_Some: "claimed_map claimed p = Some e \<Longrightarrow> e \<in> set claimed \<and> claimed_pair e = p"
  unfolding claimed_map_def by (auto dest!: map_of_SomeD)

lemma claimed_map_known: "p \<in> claimed_pair ` set claimed \<Longrightarrow> \<exists>e. claimed_map claimed p = Some e"
proof -
  assume "p \<in> claimed_pair ` set claimed"
  then have "p \<in> fst ` set (rev (map (\<lambda>e. (claimed_pair e, e)) claimed))" by (auto simp: image_iff)
  then have "map_of (rev (map (\<lambda>e. (claimed_pair e, e)) claimed)) p \<noteq> None" unfolding map_of_eq_None_iff by simp
  then show ?thesis unfolding claimed_map_def by blast
qed

lemma known_pairs:
  "claimed_pair ` set (known_completions claimed pairs) = set pairs \<inter> claimed_pair ` set claimed"
  "set (known_completions claimed pairs) \<subseteq> set claimed"
proof -
  have known: "set (known_completions claimed pairs) = {e. \<exists>p \<in> set pairs. claimed_map claimed p = Some e}"
    by (force simp: known_completions_def map_filter_def)
  show "set (known_completions claimed pairs) \<subseteq> set claimed" using claimed_map_Some unfolding known by blast
  show "claimed_pair ` set (known_completions claimed pairs) = set pairs \<inter> claimed_pair ` set claimed"
  proof (intro equalityI subsetI)
    fix p assume "p \<in> claimed_pair ` set (known_completions claimed pairs)"
    then obtain e q where "q \<in> set pairs" "claimed_map claimed q = Some e" "p = claimed_pair e" unfolding known by blast
    then show "p \<in> set pairs \<inter> claimed_pair ` set claimed" using claimed_map_Some [of claimed q e] by blast
  next
    fix p assume p: "p \<in> set pairs \<inter> claimed_pair ` set claimed"
    then obtain e where e: "claimed_map claimed p = Some e" using claimed_map_known by blast
    then show "p \<in> claimed_pair ` set (known_completions claimed pairs)"
      using p claimed_map_Some [OF e] unfolding known by (intro image_eqI [of _ _ e]) auto
  qed
qed

lemma close_claims_closes:
  "c \<in> set rows \<Longrightarrow> has_closure (close_claims outcome rows items s) (lc_claim_slot c) (lc_job_id c) (lc_run_lease c)"
  "bi \<in> set items \<Longrightarrow> batch_closed (close_claims outcome rows items s) (lb_claim_slot (fst bi)) (it_receipt_id (snd bi))"
proof -
  assume "c \<in> set rows"
  then have "(lc_claim_slot c, lc_job_id c, lc_run_lease c) \<in> set (remdups (map claim_key rows))"
    by (force simp: claim_key_def)
  then show "has_closure (close_claims outcome rows items s) (lc_claim_slot c) (lc_job_id c) (lc_run_lease c)"
    unfolding has_closure_def close_claims_def Let_def by (auto intro!: bexI image_eqI)
next
  assume "bi \<in> set items"
  then show "batch_closed (close_claims outcome rows items s) (lb_claim_slot (fst bi)) (it_receipt_id (snd bi))"
    using closure_batches_cover [of "fst bi" "snd bi" items outcome "s_now s"]
    by (auto simp: batch_closed_def close_claims_def Let_def)
qed

lemma close_pairs_result:
  assumes "close_receipt_pairs_tx pairs outcome s = (Inr u, s')" "claims_wf s"
  shows "closing s s'" "s_done s' = s_done s" "s_leases s' = s_leases s"
    "bi \<in> set (batch_items s) \<Longrightarrow> item_pair bi \<in> set pairs \<Longrightarrow> item_closed s' (fst bi) (snd bi)"
proof -
  let ?rows = "filter (\<lambda>c. row_pair c \<in> set pairs \<and> \<not> receipt_closed_evidence s c) (s_lease_claims s)"
  let ?items = "filter (\<lambda>bi. item_pair bi \<in> set pairs \<and> \<not> item_closed s (fst bi) (snd bi) \<and>
                        \<not> moved_on s (it_job_id (snd bi)) (it_run_lease (snd bi))) (batch_items s)"
  have s': "s' = (if pairs = [] \<or> \<not> cfg_lease_claim_receipts (s_config s) then s else close_claims outcome ?rows ?items s)"
    using assms(1) by (auto simp: close_receipt_pairs_tx_def tx_simps split: if_splits)
  show cl: "closing s s'" unfolding s' by (simp add: close_rel.refl closing_steps)
  show "s_done s' = s_done s" "s_leases s' = s_leases s" unfolding s' by (simp_all add: close_claims_def Let_def)
  assume bi: "bi \<in> set (batch_items s)" "item_pair bi \<in> set pairs"
  show "item_closed s' (fst bi) (snd bi)"
  proof (cases "item_closed s (fst bi) (snd bi)")
    case True
    then show ?thesis by (rule closing_item_closed [OF cl])
  next
    case False
    then have "bi \<in> set ?items" using assms(2) bi by (auto simp: claims_wf_def list_all_iff item_pair_def)
    moreover have "cfg_lease_claim_receipts (s_config s)" "pairs \<noteq> []" using assms(2) bi by (auto simp: claims_wf_def)
    ultimately have "batch_closed s' (lb_claim_slot (fst bi)) (it_receipt_id (snd bi))"
      unfolding s' using close_claims_closes(2) [of bi ?items outcome ?rows s] by simp
    then show ?thesis by (simp add: item_closed_def)
  qed
qed

lemma matched_lease_gone:
  assumes "claims_wf s" "p \<in> set (map lease_pair (filter P (s_leases s)))" "l \<in> set (s_leases s)" "\<not> P l"
  shows "lease_pair l \<noteq> p"
proof
  assume "lease_pair l = p"
  moreover from assms(2) obtain d where "d \<in> set (s_leases s)" "P d" "lease_pair d = p" by auto
  moreover have "inj_on lease_pair (set (s_leases s))" using assms(1) by (simp add: claims_wf_def distinct_map)
  ultimately show False using assms(3,4) by (auto dest: inj_onD)
qed

lemma complete_leases_completing:
  "completing (claimed_pair ` set claimed) (complete_leases matches claimed entries)"
proof (rule completingI)
  fix s pairs s' assume wf: "claims_wf s" and run: "complete_leases matches claimed entries s = (Inr pairs, s')"
  let ?P = "\<lambda>l. \<exists>e \<in> set entries. matches e l"
  define deleted where "deleted = filter ?P (s_leases s)"
  define es where "es = known_completions claimed (map lease_pair deleted)"
  let ?s1 = "delete_attempts (map lease_pair deleted) (s\<lparr>s_leases := filter (\<lambda>l. \<not> ?P l) (s_leases s)\<rparr>)"
  have cl1: "closing s ?s1" by (rule close_rel.trans [OF closing_steps(4) closing_steps(1)])
  have wf1: "claims_wf ?s1"
    by (rule claims_wf_closing [OF cl1 wf]) (simp add: done_attempt_def delete_attempts_def)
  have goal: "closing s s' \<and> claims_wf s' \<and>
    (\<forall>p \<in> set pairs. p \<in> claimed_pair ` set claimed \<and> attempt_open s p \<and> recorded s' p \<and> \<not> attempt_open s' p)"
  proof (cases "deleted = []")
    case True
    then have "pairs = []" "s' = ?s1"
      using run by (simp_all add: complete_leases_def delete_leases_def tx_simps deleted_def)
    then show ?thesis using cl1 wf1 by simp
  next
    case False
    then obtain s2 where c: "close_receipt_pairs_tx (map lease_pair deleted) ''completed'' ?s1 = (Inr (), s2)"
      "insert_completions es s2 = (Inr (), s')" "pairs = map claimed_pair es"
      using run unfolding deleted_def es_def
      by (auto simp: complete_leases_def delete_leases_def tx_simps tx_bind_Inr Let_def)
    note cl2 = close_pairs_result [OF c(1) wf1]
    note cl3 = insert_completions_done [OF c(2)]
    have cl: "closing s s'" using close_rel.trans [OF close_rel.trans [OF cl1 cl2(1)] cl3(1)] .
    have pairs: "set pairs = set (map lease_pair deleted) \<inter> claimed_pair ` set claimed"
      unfolding c(3) es_def set_map [of claimed_pair] by (rule known_pairs)
    have closed: "\<not> attempt_open s' p" if "p \<in> set pairs" for p
    proof -
      have p: "p \<in> set (map lease_pair deleted)" using that pairs by blast
      have done_p: "done_attempt s' (fst p) (snd p)" using that cl3(2) [of "fst p" "snd p"] by (auto simp: c(3))
      have "lease_pair l \<noteq> p" if "l \<in> set (s_leases s')" for l
      proof -
        have "l \<in> set (s_leases s)" "\<not> ?P l" using that cl3(1) cl2(3) by (auto simp: closing_def delete_attempts_def)
        then show ?thesis using matched_lease_gone [OF wf p [unfolded deleted_def]] by blast
      qed
      moreover have "receipt_closed_evidence s' r" if "row_pair r = p" for r
        using done_p that by (auto simp: receipt_closed_evidence_def moved_on_def row_pair_def)
      moreover have "item_closed s' (fst bi) (snd bi)" if "bi \<in> set (batch_items s')" "item_pair bi = p" for bi
        using that p cl2(4) [of bi] closing_batch_items [OF cl] closing_batch_items [OF cl1] closing_item_closed [OF cl3(1)] by simp
      ultimately show ?thesis unfolding attempt_open_def by blast
    qed
    have "claims_wf s'"
    proof (rule claims_wf_done [OF cl wf])
      fix p assume "done_attempt s' (fst p) (snd p)" "\<not> done_attempt s (fst p) (snd p)"
      then have "p \<in> set pairs"
        using cl3(2) [of "fst p" "snd p"] cl2(2) by (auto simp: c(3) done_attempt_def delete_attempts_def)
      then show "\<not> attempt_open s' p" by (rule closed)
    qed
    moreover have "attempt_open s p \<and> recorded s' p" if "p \<in> set pairs" for p
      using that pairs cl3(2) [of "fst p" "snd p"]
      by (auto simp: attempt_open_def deleted_def recorded_def c(3))
    ultimately show ?thesis using cl closed pairs by blast
  qed
  then show "closing s s' \<and> claims_wf s'" by blast
  fix p assume "p \<in> set pairs"
  then show "p \<in> claimed_pair ` set claimed \<and> attempt_open s p \<and> recorded s' p \<and> \<not> attempt_open s' p" using goal by blast
qed

text \<open>Every attempt that the statement on receipts reports is an open claim of an entry of the batch.\<close>

lemma receipts_refs:
  assumes "set receipts \<subseteq> set claimed"
    and p: "p \<in> set (map snd (remdups (map claim_key (locked_row_claims s receipts))) @ map item_pair (locked_batch_claims s receipts))"
  shows "\<exists>r. open_ref s r \<and> p = fst (snd r) \<and> p \<in> claimed_pair ` set claimed \<and>
    (\<forall>t. ref_closed (close_claims outcome (locked_row_claims s receipts) (locked_batch_claims s receipts) t) r)"
proof -
  from p consider (row) c where "c \<in> set (locked_row_claims s receipts)" "p = row_pair c"
    | (item) bi where "bi \<in> set (locked_batch_claims s receipts)" "p = item_pair bi"
    by (auto simp: claim_key_def row_pair_def)
  then show ?thesis
  proof cases
    case row
    then obtain e where e: "c \<in> set (s_lease_claims s)" "row_open s c" "e \<in> set receipts" "entry_ref e = Some (row_ref c)"
      by (auto simp: locked_row_claims_def)
    then have "claimed_pair e = p" using entry_ref_Some [OF e(4)] row(2) by (simp add: row_ref_def)
    then have "p \<in> claimed_pair ` set claimed" using e(3) assms(1) by blast
    then show ?thesis
      using e row close_claims_closes(1) [OF row(1)]
      by (intro exI [of _ "row_ref c"]) (auto simp: open_ref_def ref_closed_def row_ref_def row_pair_def)
  next
    case item
    then obtain e where e: "item_open s bi" "e \<in> set receipts" "bi \<in> set (entry_items s e)"
      by (auto simp: locked_batch_claims_def)
    note e' = entry_items_in [OF e(3)]
    have "claimed_pair e = p" using entry_ref_Some [OF conjunct2 [OF e']] item(2) by (simp add: item_ref_def)
    then have "p \<in> claimed_pair ` set claimed" using e(2) assms(1) by blast
    then show ?thesis
      using e e' item close_claims_closes(2) [OF item(1)]
      by (intro exI [of _ "item_ref bi"]) (auto simp: open_ref_def ref_closed_def item_ref_def)
  qed
qed

lemma complete_receipts_completing:
  assumes "set receipts \<subseteq> set claimed"
  shows "completing (claimed_pair ` set claimed) (complete_receipts claimed receipts)"
proof (cases "receipts = []")
  case True
  then show ?thesis using completing_ret by (simp add: complete_receipts_def)
next
  case False
  show ?thesis
  proof (rule completingI)
    fix s pairs s' assume wf: "claims_wf s" and run: "complete_receipts claimed receipts s = (Inr pairs, s')"
    define rows items where ri: "rows = locked_row_claims s receipts" "items = locked_batch_claims s receipts"
    let ?s1 = "close_claims ''completed'' rows items (delete_attempts (map row_pair rows @ map item_pair items) s)"
    have pairs: "pairs = map snd (remdups (map claim_key rows)) @ map item_pair items"
      and ins: "(if pairs = [] then tx_ret () else insert_completions (known_completions claimed pairs)) ?s1 = (Inr (), s')"
      using run False by (auto simp: complete_receipts_def close_completed_receipts_def tx_simps tx_bind_Inr ri split: if_splits)
    have ref: "\<exists>r. open_ref s r \<and> p = fst (snd r) \<and> p \<in> claimed_pair ` set claimed \<and> ref_closed ?s1 r" if "p \<in> set pairs" for p
      using receipts_refs [OF assms, of p s "''completed''"] that unfolding pairs ri by blast
    have same_done: "done_attempt ?s1 = done_attempt s"
      by (simp add: fun_eq_iff done_attempt_def close_claims_def delete_attempts_def Let_def)
    have known: "claimed_pair ` set (known_completions claimed pairs) = set pairs" unfolding known_pairs using ref by blast
    have ins': "closing ?s1 s' \<and> (\<forall>j l. done_attempt s' j l \<longleftrightarrow> done_attempt s j l \<or> (j, l) \<in> set pairs)"
    proof (cases "pairs = []")
      case True
      then show ?thesis using ins same_done by (simp add: tx_simps close_rel.refl)
    next
      case False
      then have ic: "insert_completions (known_completions claimed pairs) ?s1 = (Inr (), s')" using ins by simp
      show ?thesis using insert_completions_done [OF ic] same_done known by simp
    qed
    have cl: "closing s s'" using close_rel.trans [OF close_rel.trans [OF closing_steps(1,2)]] ins' by blast
    have closed: "attempt_open s p \<and> p \<in> claimed_pair ` set claimed \<and> \<not> attempt_open s' p" if p: "p \<in> set pairs" for p
    proof -
      from ref [OF p] obtain r where r: "open_ref s r" "p = fst (snd r)" "p \<in> claimed_pair ` set claimed" "ref_closed ?s1 r" by blast
      have "ref_closed s' r"
        using r(4) ins' closing_grows(1,2) [of ?s1 s'] has_closure_mono batch_closed_mono unfolding ref_closed_def by blast
      then show ?thesis using r open_ref_open [OF r(1)] closed_ref_not_open [OF wf cl r(1)] by simp
    qed
    show "closing s s' \<and> claims_wf s'"
      using cl closed ins' by (intro conjI claims_wf_done [OF cl wf]) (simp, metis prod.collapse)
    fix p assume "p \<in> set pairs"
    then show "p \<in> claimed_pair ` set claimed \<and> attempt_open s p \<and> recorded s' p \<and> \<not> attempt_open s' p"
      using closed ins' by (simp add: recorded_def)
  qed
qed

lemma completing_if: "(b \<Longrightarrow> completing C m) \<Longrightarrow> (\<not> b \<Longrightarrow> completing C m') \<Longrightarrow> completing C (if b then m else m')"
  by simp

lemmas completing_intros = completing_if completing_ret completing_get completing_both completing_in_tx

lemma slow_completing: "completing (claimed_pair ` set claimed) (complete_runtime_batch_slow_in_tx claimed)"
  unfolding complete_runtime_batch_slow_in_tx_def Let_def
  by (intro completing_intros complete_receipts_completing complete_leases_completing) auto

lemma partitioned_entries:
  "partition_claims n m0 claimed = Inr m \<Longrightarrow> omap_wf m0 \<Longrightarrow> set (omap_values m) \<subseteq> set (omap_values m0) \<union> set claimed"
proof (induction n m0 claimed rule: partition_claims.induct)
  case (2 n m0 e claimed)
  then obtain index where i: "ring_slot_index (ce_claim_slot (cj_claim e)) n ''claim'' = Inr index"
    by (auto simp: res_bind_def split: sum.splits)
  have "set (omap_values m) \<subseteq> set (omap_values (omap_push index e m0)) \<union> set claimed"
    using 2 i by (simp add: res_bind_def omap_push_wf del: omap_push_def)
  moreover have "set (omap_values (omap_push index e m0)) = insert e (set (omap_values m0))"
    using mset_omap_push [OF 2(3), of index e, THEN arg_cong [of _ _ set_mset]] by simp
  ultimately show ?case by auto
qed simp

lemma split_from_parts: "ys \<in> set (split_from sz run bytes xs) \<Longrightarrow> set ys \<subseteq> set run \<union> set xs"
  by (induction sz run bytes xs rule: split_from.induct) (auto split: if_splits)

lemma fast_completing: "completing (claimed_pair ` set claimed) (complete_receipt_runtime_batch_fast to_text claimed)"
proof -
  have "completing (claimed_pair ` set claimed) (complete_compact_group t es)"
    if "partition_claims n [] claimed = Inr m" "es \<in> set (concat (map (split_by_output_budget to_text \<circ> snd) m))" for t n m es
  proof -
    from that(2) obtain part where "part \<in> set (map snd m)" "es \<in> set (split_by_output_budget to_text part)" by auto
    then have "set es \<subseteq> set claimed"
      using partitioned_entries [OF that(1)] split_from_parts [of es "output_size to_text" "[]" 0 part]
      unfolding split_by_output_budget_def by (auto simp: omap_wf_def)
    then show ?thesis by (intro completing_mono [OF compact_group_completing] image_mono)
  qed
  then show ?thesis
    unfolding complete_receipt_runtime_batch_fast_def
    by (intro completing_intros completing_lift completing_for)
qed

lemma runtime_completing: "completing (claimed_pair ` set claimed) (complete_runtime_batch to_text claimed)"
proof -
  let ?C = "claimed_pair ` set claimed"
  have slow: "completing ?C (complete_runtime_batch_slow es)" if "set es \<subseteq> set claimed" for es
    unfolding complete_runtime_batch_slow_def using that
    by (intro completing_in_tx completing_mono [OF slow_completing] image_mono)
  let ?rest = "\<lambda>updated. if length updated = length claimed \<or> filter (\<lambda>e. claimed_pair e \<notin> set updated) claimed = [] then tx_ret []
      else complete_runtime_batch_slow (filter (\<lambda>e. claimed_pair e \<notin> set updated) claimed)"
  have "completing ?C (?rest updated)" for updated using completing_ret slow by simp
  then have "completing ?C (tx_bind (complete_receipt_runtime_batch_fast to_text claimed)
      (\<lambda>updated. tx_bind (?rest updated) (\<lambda>more. tx_ret (updated @ more))))"
    by (intro completing_both fast_completing)
  moreover have "(\<lambda>updated. tx_bind (?rest updated) (\<lambda>more. tx_ret (updated @ more))) =
     (\<lambda>updated. if length updated = length claimed then tx_ret updated
         else
           let missed = filter (\<lambda>e. claimed_pair e \<notin> set updated) claimed in
           if missed = [] then tx_ret updated
           else tx_bind (complete_runtime_batch_slow missed) (\<lambda>more. tx_ret (updated @ more)))"
    by (simp add: fun_eq_iff tx_monad_laws Let_def)
  ultimately show ?thesis
    unfolding complete_runtime_batch_def by (intro completing_if completing_ret completing_get slow) simp_all
qed

text \<open>
  C1: an attempt completes at most once. A completion of a batch reports only attempts of that batch that were open, by a
  lease, a row claim or a batch item; each of them is recorded as a terminal row or in a compact completion batch and is
  open no more, and a later completion of any batch reports none of them. The conditions under which this holds, one claim
  and one lease for an attempt and closed items for attempts that moved on, are kept.
\<close>

theorem completes_once:
  assumes "claims_wf s" "complete_runtime_batch to_text claimed s = (Inr pairs, s1)"
    and "complete_runtime_batch to_text' claimed' s1 = (Inr pairs', s2)"
  shows "claims_wf s2 \<and> set pairs \<subseteq> claimed_pair ` set claimed \<and> set pairs \<inter> set pairs' = {} \<and>
    (\<forall>p \<in> set pairs. attempt_open s p \<and> recorded s2 p \<and> \<not> attempt_open s2 p)"
proof -
  note 1 = completingD [OF runtime_completing assms(1,2)]
  note 2 = completingD [OF runtime_completing 1(2) assms(3)]
  show ?thesis
    using 1(3-6) 2(2,4) closing_recorded [OF 2(1)] closing_open [OF 2(1)] by blast
qed

text \<open>The job that the sample store has claimed, as its worker holds it.\<close>

definition mail_runtime :: claimed_runtime_job where
  "mail_runtime =
    \<lparr> cj_claim = mail_claim,
      cj_job =
       \<lparr> jr_id = 7, jr_kind = ''mail'', jr_queue = ''q'', jr_args = JString ''to'', jr_state = Running, jr_priority = 2,
         jr_attempt = 1, jr_run_lease = 1, jr_max_attempts = 3, jr_run_at = 0, jr_heartbeat_at = None, jr_deadline_at = None,
         jr_attempted_at = Some 900, jr_finalized_at = None, jr_created_at = 0, jr_errors = None, jr_metadata = JObject [],
         jr_tags = [], jr_unique_key = None, jr_unique_states = None, jr_callback_id = None, jr_callback_timeout_at = None,
         jr_callback_filter = None, jr_callback_on_complete = None, jr_callback_on_fail = None, jr_callback_transform = None,
         jr_progress = None, jr_output = None \<rparr>,
      cj_unique_states = None \<rparr>"

definition no_text :: "json \<Rightarrow> string + string" where
  "no_text _ = Inr []"

theorem completes_once_witness:
  "\<exists>s1. complete_runtime_batch no_text [mail_runtime] claimed_store = (Inr [(7, 1)], s1) \<and> recorded s1 (7, 1) \<and>
     (\<exists>s2. complete_runtime_batch no_text [mail_runtime] s1 = (Inr [], s2))"
proof -
  let ?m = "complete_runtime_batch no_text [mail_runtime]"
  have "map_sum (\<lambda>_. ()) id (fst (?m claimed_store)) = Inr [(7, 1)]" by code_simp
  then obtain s1 where s1: "?m claimed_store = (Inr [(7, 1)], s1)" by (elim fst_Inr_selE) simp
  have "map_sum (\<lambda>_. ()) (\<lambda>_. ()) (fst (tx_bind ?m (\<lambda>_. ?m) claimed_store)) = Inr ()" by code_simp
  then obtain pairs s2 where s2: "?m s1 = (Inr pairs, s2)" using s1 by (elim fst_Inr_selE) (simp add: tx_bind_Inr)
  have wf: "claims_wf claimed_store" by code_simp
  have "pairs = []"
    using completes_once [OF wf s1 s2] completingD(3) [OF runtime_completing completingD(2) [OF runtime_completing wf s1] s2]
    by (cases pairs) (auto simp: claimed_pair_def mail_runtime_def)
  moreover have "recorded s1 (7, 1)" using completingD(5) [OF runtime_completing wf s1] by simp
  ultimately show ?thesis using s1 s2 by blast
qed

end
