(* ===== verification/Awa_Callbacks.thy ===== *)
theory Awa_Callbacks
  imports Awa_Completion
begin

section \<open>External callbacks\<close>

text \<open>
  The part of \<^verbatim>\<open>queue_storage.rs\<close> that parks a running attempt until somebody outside resolves it:
  registration and cancellation of a callback, the wait, the poll of its state, resolution by
  completion, resumption, failure or retry, the extension of its timeout, and \<^verbatim>\<open>load_job\<close>, which finds a job in
  whatever table holds it.  Callback ids are texts, and a new one is an argument.  The CEL compiler,
  a third-party crate, is the argument \<open>cel\<close>: absent when the feature is off, otherwise the error text of
  an expression or the variables it refers to.

  The theorems show that a callback is resolved at most once, and that a payload with which an attempt
  is resumed reaches the poller exactly once.
\<close>


subsection \<open>Reading an attempt through its ready row\<close>

definition lease_ready :: "store \<Rightarrow> lease_entry \<Rightarrow> ready_transition_row option" where
  "lease_ready s l =
    ready_of_done s (ls_ready_slot l, ls_ready_generation l, ls_queue l, ls_priority l, ls_enqueue_shard l,
                     ls_lane_seq l)"

definition lease_row :: "store \<Rightarrow> lease_entry \<Rightarrow> ready_transition_row \<Rightarrow> lease_job_row" where
  "lease_row s l ready =
    (let attempt = find_attempt s (ls_job_id l) (ls_run_lease l) in
     \<lparr> r_job_id = ls_job_id l, r_kind = r_kind ready, r_queue = r_queue ready, r_args = r_args ready,
       r_priority = ls_priority l, r_attempt = ls_attempt l, r_run_lease = ls_run_lease l,
       r_max_attempts = ls_max_attempts l, r_run_at = r_run_at ready, r_attempted_at = ls_attempted_at l,
       r_created_at = r_created_at ready, r_unique_key = r_unique_key ready,
       r_unique_states = r_unique_states ready, r_payload = r_payload ready,
       lj_state = ls_state l,
       lj_heartbeat_at = coalesce (Option.bind attempt as_heartbeat_at) (ls_heartbeat_at l),
       lj_deadline_at = ls_deadline_at l, lj_finalized_at = None,
       lj_callback_id = ls_callback_id l, lj_callback_timeout_at = ls_callback_timeout_at l,
       lj_callback_filter = Option.bind attempt as_callback_filter,
       lj_callback_on_complete = Option.bind attempt as_callback_on_complete,
       lj_callback_on_fail = Option.bind attempt as_callback_on_fail,
       lj_callback_transform = Option.bind attempt as_callback_transform,
       lj_progress = Option.bind attempt as_progress,
       lj_callback_result = Option.bind attempt as_callback_result \<rparr>)"

definition lease_rows :: "store \<Rightarrow> (lease_entry \<Rightarrow> bool) \<Rightarrow> lease_job_row list" where
  "lease_rows s P =
    List.map_filter (\<lambda>l. map_option (lease_row s l) (lease_ready s l)) (filter P (s_leases s))"

definition by_run_lease_desc :: "lease_job_row list \<Rightarrow> lease_job_row list" where
  "by_run_lease_desc = sort_key (\<lambda>r. - r_run_lease r)"

definition fetch_job :: "(store \<Rightarrow> lease_job_row list) \<Rightarrow> job_row option tx" where
  "fetch_job rows =
    tx_bind (tx_get (\<lambda>s. first_of (rows s))) (\<lambda>row.
      case row of
        None \<Rightarrow> tx_ret None
      | Some r \<Rightarrow> tx_bind (tx_lift (lease_into_job_row r)) (\<lambda>job. tx_ret (Some job)))"

definition load_active_lease_in_tx :: "job_id \<Rightarrow> int \<Rightarrow> job_row option tx" where
  "load_active_lease_in_tx job_id run_lease =
    fetch_job (\<lambda>s. lease_rows s (\<lambda>l. lease_pair l = (job_id, run_lease)))"


subsection \<open>Loading a job from whichever table holds it\<close>

definition claim_job_row :: "store \<Rightarrow> lease_claim \<Rightarrow> lease_job_row option" where
  "claim_job_row s c =
    map_option (\<lambda>ready. (lease_row s ((claim_lease (0, 0) (s_now s) c)\<lparr>ls_heartbeat_at := None\<rparr>) ready))
      (ready_of_done s (lc_ready_slot c, lc_ready_generation c, lc_queue c, lc_priority c, lc_enqueue_shard c,
                        lc_lane_seq c))"

definition item_job_row :: "store \<Rightarrow> lease_claim_batch \<times> claim_item \<Rightarrow> lease_job_row option" where
  "item_job_row s bi =
    map_option (\<lambda>ready. (lease_row s ((item_lease (0, 0) (s_now s) bi)\<lparr>ls_heartbeat_at := None\<rparr>) ready))
      (ready_snapshot s (deleted_of_item bi))"

text \<open>The view \<^verbatim>\<open>terminal_jobs\<close>: stored terminal rows and the items of compact completions.\<close>

definition receipt_done_row :: "store \<Rightarrow> receipt_completion_batch \<Rightarrow> completion_item \<Rightarrow> done_job_row option" where
  "receipt_done_row s b i =
    map_option (\<lambda>ready.
      \<lparr> r_job_id = ci_job_id i, r_kind = r_kind ready, r_queue = rc_queue b, r_args = r_args ready,
        r_priority = rc_priority b, r_attempt = ci_attempt i, r_run_lease = ci_run_lease i,
        r_max_attempts = r_max_attempts ready, r_run_at = r_run_at ready, r_attempted_at = ci_attempted_at i,
        r_created_at = r_created_at ready, r_unique_key = r_unique_key ready,
        r_unique_states = r_unique_states ready, r_payload = r_payload ready,
        dn_ready_slot = rc_ready_slot b, dn_ready_generation = rc_ready_generation b, dn_state = Completed,
        dn_lane_seq = ci_lane_seq i, dn_enqueue_shard = rc_enqueue_shard b,
        dn_finalized_at = rc_finalized_at b, dn_output = ci_output i \<rparr>)
      (find (\<lambda>r. (rt_ready_slot r, rt_ready_generation r, r_queue r, r_priority r, rt_enqueue_shard r,
                  rt_lane_seq r, r_job_id r) =
                 (rc_ready_slot b, rc_ready_generation b, rc_queue b, rc_priority b, rc_enqueue_shard b,
                  ci_lane_seq i, ci_job_id i)) (s_ready s))"

definition terminal_jobs :: "store \<Rightarrow> done_job_row list" where
  "terminal_jobs s =
    map (read_done_row s) (s_done s) @
    concat (map (\<lambda>b. List.map_filter (\<lambda>i. if receipt_removed s b i then None else receipt_done_row s b i)
      (rc_items b)) (s_receipt_batches s))"

definition open_claim_rows :: "store \<Rightarrow> job_id \<Rightarrow> lease_job_row list" where
  "open_claim_rows s job_id =
    by_run_lease_desc (List.map_filter (claim_job_row s)
      (filter (\<lambda>c. lc_job_id c = job_id \<and> \<not> receipt_closed_evidence s c \<and>
                   \<not> leased s (lc_job_id c) (lc_run_lease c)) (s_lease_claims s))) @
    by_run_lease_desc (List.map_filter (item_job_row s)
      (filter (\<lambda>(b, i). it_job_id i = job_id \<and> \<not> item_closed s b i \<and>
                   \<not> leased s (it_job_id i) (it_run_lease i) \<and> \<not> moved_on s (it_job_id i) (it_run_lease i))
        (batch_items s)))"

definition nulls_last_desc :: "timestamp option \<Rightarrow> int \<times> int" where
  "nulls_last_desc t = (case t of Some x \<Rightarrow> (0, - x) | None \<Rightarrow> (1, 0))"

definition load_candidates :: "bool \<Rightarrow> job_id \<Rightarrow> store \<Rightarrow> awa_error + job_row list" where
  "load_candidates with_output job_id s =
    res_bind (res_map ready_into_job_row (sort_key (\<lambda>r. (- r_run_lease r, nulls_last_desc (r_attempted_at r), - r_run_at r))
      (filter (\<lambda>r. r_job_id r = job_id) (s_ready s)))) (\<lambda>ready.
    res_bind (res_map deferred_into_job_row (filter (\<lambda>r. r_job_id r = job_id) (s_deferred s))) (\<lambda>deferred.
    res_bind (res_map lease_into_job_row (by_run_lease_desc (lease_rows s (\<lambda>l. ls_job_id l = job_id)))) (\<lambda>leases.
    res_bind (res_map lease_into_job_row (open_claim_rows s job_id)) (\<lambda>claims.
    res_bind (res_map (\<lambda>r. done_into_job_row (if with_output then r else r\<lparr>dn_output := None\<rparr>))
      (sort_key (\<lambda>r. (- r_run_lease r, - dn_finalized_at r))
        (filter (\<lambda>r. r_job_id r = job_id) (terminal_jobs s)))) (\<lambda>finished.
    res_bind (res_map dlq_into_job_row (sort_key (\<lambda>r. - dq_at r) (filter (\<lambda>r. r_job_id r = job_id) (s_dlq s)))) (\<lambda>dlq.
      Inr (ready @ deferred @ leases @ claims @ finished @ dlq)))))))"

definition candidate_key :: "job_row \<Rightarrow> int \<times> int \<times> nat" where
  "candidate_key job = (jr_run_lease job, transition_timestamp job, state_rank (jr_state job))"

text \<open>\<^verbatim>\<open>Iterator::max_by_key\<close>: the last of the greatest elements.\<close>

fun max_by_key :: "('a \<Rightarrow> 'k::linorder) \<Rightarrow> 'a list \<Rightarrow> 'a option" where
  "max_by_key f [] = None"
| "max_by_key f (x # xs) =
     (case max_by_key f xs of None \<Rightarrow> Some x | Some y \<Rightarrow> if f x \<le> f y then Some y else Some x)"

definition load_job :: "bool \<Rightarrow> job_id \<Rightarrow> job_row option tx" where
  "load_job with_output job_id =
    tx_bind (tx_get (load_candidates with_output job_id)) (\<lambda>candidates.
    tx_bind (tx_lift candidates) (\<lambda>jobs. tx_ret (max_by_key candidate_key jobs)))"

subsection \<open>Registration and wait\<close>

record callback_config =
  cf_filter :: "string option"
  cf_on_complete :: "string option"
  cf_on_fail :: "string option"
  cf_transform :: "string option"

definition callback_config_is_empty :: "callback_config \<Rightarrow> bool" where
  "callback_config_is_empty c \<longleftrightarrow>
    cf_filter c = None \<and> cf_on_complete c = None \<and> cf_on_fail c = None \<and> cf_transform c = None"

text \<open>The update of the running lease, refused when there is none; a fresh callback with its timeout.\<close>

definition set_lease_callback :: "string \<Rightarrow> job_id \<Rightarrow> int \<Rightarrow> millis \<Rightarrow> unit tx" where
  "set_lease_callback new_id job_id run_lease timeout =
    tx_bind (ensure_mutable_running_attempt_tx job_id run_lease) (\<lambda>_.
    tx_bind (tx_get (\<lambda>s. filter (running_lease job_id run_lease) (s_leases s))) (\<lambda>updated.
    tx_bind (tx_set (\<lambda>s. s\<lparr>s_leases := map (\<lambda>l. if running_lease job_id run_lease l
        then l\<lparr>ls_callback_id := Some new_id, ls_callback_timeout_at := Some (s_now s + timeout)\<rparr> else l) (s_leases s)\<rparr>)) (\<lambda>_.
    if updated = [] then tx_err (Validation ''job is not in running state'') else tx_ret ())))"

text \<open>The callback expressions are cleared, and a row that then holds neither progress nor a result is deleted.\<close>

definition clear_callback_columns :: "job_id \<Rightarrow> int \<Rightarrow> unit tx" where
  "clear_callback_columns job_id run_lease =
    tx_set (\<lambda>s. s\<lparr>s_attempts :=
      filter (\<lambda>a. \<not> (attempt_pair a = (job_id, run_lease) \<and> attempt_row_bare a \<and> as_callback_result a = None))
        (map (\<lambda>a. if attempt_pair a = (job_id, run_lease)
                  then a\<lparr>as_callback_filter := None, as_callback_on_complete := None, as_callback_on_fail := None,
                         as_callback_transform := None\<rparr> else a) (s_attempts s))\<rparr>)"

definition register_callback :: "string \<Rightarrow> job_id \<Rightarrow> int \<Rightarrow> millis \<Rightarrow> string tx" where
  "register_callback new_id job_id run_lease timeout =
    in_tx (
      tx_bind (set_lease_callback new_id job_id run_lease timeout) (\<lambda>_.
      tx_bind (clear_callback_columns job_id run_lease) (\<lambda>_. tx_ret new_id)))"

fun comma_list :: "string list \<Rightarrow> string" where
  "comma_list [] = []"
| "comma_list [x] = x"
| "comma_list (x # xs) = x @ '', '' @ comma_list xs"

type_synonym cel_compiler = "(string \<Rightarrow> string + string list) option"

fun check_expression :: "(string \<Rightarrow> string + string list) \<Rightarrow> string \<times> string option \<Rightarrow> awa_error + unit" where
  "check_expression compile (name, None) = Inr ()"
| "check_expression compile (name, Some src) =
     (case compile src of
        Inl e \<Rightarrow> Inl (Validation (''invalid CEL expression for '' @ name @ '': '' @ e))
      | Inr vars \<Rightarrow>
          (let bad = filter (\<lambda>v. v \<noteq> ''payload'') vars in
           if bad \<noteq> [] then
             Inl (Validation (''CEL expression for '' @ name @ '' references undeclared variable(s): '' @
               comma_list bad @ ''; only '' @ [CHR 0x27] @ ''payload'' @ [CHR 0x27] @ '' is available''))
           else Inr ()))"

definition check_callback_config :: "cel_compiler \<Rightarrow> callback_config \<Rightarrow> awa_error + unit" where
  "check_callback_config cel c =
    (case cel of
       None \<Rightarrow> Inl (Validation (''CEL expressions require the '' @ [CHR 0x27] @ ''cel'' @ [CHR 0x27] @ '' feature''))
     | Some compile \<Rightarrow>
         res_bind (res_map (check_expression compile)
           [(''filter'', cf_filter c), (''on_complete'', cf_on_complete c), (''on_fail'', cf_on_fail c),
            (''transform'', cf_transform c)]) (\<lambda>_. Inr ()))"

definition register_callback_with_config ::
  "cel_compiler \<Rightarrow> string \<Rightarrow> job_id \<Rightarrow> int \<Rightarrow> millis \<Rightarrow> callback_config \<Rightarrow> string tx" where
  "register_callback_with_config cel new_id job_id run_lease timeout c =
    (if callback_config_is_empty c then register_callback new_id job_id run_lease timeout
     else
       tx_bind (tx_lift (check_callback_config cel c)) (\<lambda>_.
       in_tx (
         tx_bind (set_lease_callback new_id job_id run_lease timeout) (\<lambda>_.
         tx_bind (upsert_attempts [((job_id, run_lease), \<lambda>a. a\<lparr>as_callback_filter := cf_filter c,
             as_callback_on_complete := cf_on_complete c, as_callback_on_fail := cf_on_fail c,
             as_callback_transform := cf_transform c\<rparr>)]) (\<lambda>_.
           tx_ret new_id)))))"

definition cancel_callback :: "job_id \<Rightarrow> int \<Rightarrow> bool tx" where
  "cancel_callback job_id run_lease =
    (let registered = (\<lambda>l. running_lease job_id run_lease l \<and> ls_callback_id l \<noteq> None) in
     in_tx (
       tx_bind (tx_get (\<lambda>s. filter registered (s_leases s))) (\<lambda>updated.
       if updated = [] then tx_ret False
       else
         tx_bind (tx_set (\<lambda>s. s\<lparr>s_leases := map (\<lambda>l. if registered l
             then l\<lparr>ls_callback_id := None, ls_callback_timeout_at := None\<rparr> else l) (s_leases s)\<rparr>)) (\<lambda>_.
         tx_bind (clear_callback_columns job_id run_lease) (\<lambda>_. tx_ret True)))))"

definition enter_callback_wait_in_tx :: "job_id \<Rightarrow> int \<Rightarrow> string \<Rightarrow> bool tx" where
  "enter_callback_wait_in_tx job_id run_lease callback_id =
    (let parks = (\<lambda>l. running_lease job_id run_lease l \<and> ls_callback_id l = Some callback_id) in
     tx_bind (tx_get (\<lambda>s. filter parks (s_leases s))) (\<lambda>updated.
     tx_bind (tx_set (\<lambda>s. s\<lparr>s_leases := map (\<lambda>l. if parks l
         then l\<lparr>ls_state := WaitingExternal, ls_heartbeat_at := None, ls_deadline_at := None\<rparr> else l) (s_leases s)\<rparr>)) (\<lambda>_.
       tx_ret (updated \<noteq> []))))"

definition enter_callback_wait :: "job_id \<Rightarrow> int \<Rightarrow> string \<Rightarrow> bool tx" where
  "enter_callback_wait job_id run_lease callback_id = in_tx (enter_callback_wait_in_tx job_id run_lease callback_id)"

datatype callback_poll_result =
    Resolved json
  | Pending
  | Stale string string job_state
  | UnexpectedState string job_state
  | NotFound

text \<open>
  The newest lease of the job decides; without one the job is looked up in the other tables.
\<close>

definition newest_lease :: "store \<Rightarrow> job_id \<Rightarrow> (lease_entry \<times> json option) option" where
  "newest_lease s job_id =
    map_option (\<lambda>l. (l, Option.bind (find_attempt s (ls_job_id l) (ls_run_lease l)) as_callback_result))
      (first_of (sort_key (\<lambda>l. - ls_run_lease l) (filter (\<lambda>l. ls_job_id l = job_id) (s_leases s))))"

definition check_callback_state :: "job_id \<Rightarrow> string \<Rightarrow> callback_poll_result tx" where
  "check_callback_state job_id callback_id =
    tx_bind (tx_get (\<lambda>s. newest_lease s job_id)) (\<lambda>row.
      case row of
        None \<Rightarrow>
          tx_bind (load_job True job_id) (\<lambda>job.
            tx_ret (case job of Some j \<Rightarrow> UnexpectedState callback_id (jr_state j) | None \<Rightarrow> NotFound))
      | Some (l, result) \<Rightarrow>
          (if ls_state l = Running \<and> ls_callback_id l = None \<and> result \<noteq> None
           then tx_bind (take_callback_result job_id (ls_run_lease l)) (\<lambda>v. tx_ret (Resolved v))
           else
             case ls_callback_id l of
               Some current \<Rightarrow>
                 (if current \<noteq> callback_id then tx_ret (Stale callback_id current (ls_state l))
                  else if ls_state l = WaitingExternal then tx_ret Pending
                  else tx_ret (UnexpectedState callback_id (ls_state l)))
             | None \<Rightarrow> tx_ret (UnexpectedState callback_id (ls_state l))))"


subsection \<open>Resolution\<close>

definition wants_lease :: "int option \<Rightarrow> lease_entry \<Rightarrow> bool" where
  "wants_lease run_lease l \<longleftrightarrow> (case run_lease of None \<Rightarrow> True | Some r \<Rightarrow> ls_run_lease l = r)"

definition resolvable :: "string \<Rightarrow> int option \<Rightarrow> lease_entry \<Rightarrow> bool" where
  "resolvable callback_id run_lease l \<longleftrightarrow>
    ls_callback_id l = Some callback_id \<and> (ls_state l = WaitingExternal \<or> ls_state l = Running) \<and>
    wants_lease run_lease l"

definition callback_job_in_tx :: "string \<Rightarrow> int option \<Rightarrow> job_row option tx" where
  "callback_job_in_tx callback_id run_lease =
    fetch_job (\<lambda>s. by_run_lease_desc (lease_rows s (resolvable callback_id run_lease)))"

text \<open>
  The leases a resolution deletes, with their receipts closed and their rows hydrated; the first is the
  one that is resolved.
\<close>

definition take_callback_leases :: "string \<Rightarrow> string \<Rightarrow> (lease_entry \<Rightarrow> bool) \<Rightarrow> lease_transition_row tx" where
  "take_callback_leases callback_id outcome P =
    tx_bind (delete_leases P) (\<lambda>deleted.
    if deleted = [] then tx_err (CallbackNotFound callback_id)
    else
      tx_bind (close_receipt_pairs_tx (map lease_pair deleted) outcome) (\<lambda>_.
      tx_bind (hydrate_deleted_leases_tx (map deleted_of_lease deleted) True) (\<lambda>moved.
        tx_ret (hd moved))))"

definition complete_external_with_output_in_tx ::
  "bool \<Rightarrow> string \<Rightarrow> int option \<Rightarrow> json option \<Rightarrow> job_row tx" where
  "complete_external_with_output_in_tx supports_job_output callback_id run_lease out =
    tx_bind (take_callback_leases callback_id ''completed'' (resolvable callback_id run_lease)) (\<lambda>moved.
    tx_bind (tx_get s_now) (\<lambda>now.
    tx_bind (tx_lift (completed_row now moved)) (\<lambda>row.
    let done_row = row\<lparr>dn_output := (if supports_job_output then out else None)\<rparr> in
    tx_bind (insert_done_rows_tx [done_row] (Some (lt_state moved))) (\<lambda>_.
      tx_lift (done_into_job_row done_row)))))"

definition resumed_lease :: "timestamp \<Rightarrow> lease_entry \<Rightarrow> lease_entry" where
  "resumed_lease now l =
    l\<lparr>ls_state := Running, ls_callback_id := None, ls_callback_timeout_at := None, ls_heartbeat_at := Some now\<rparr>"

definition resume_callback :: "string \<Rightarrow> json option \<Rightarrow> int option \<Rightarrow> job_row tx" where
  "resume_callback callback_id payload run_lease =
    tx_bind (tx_get (\<lambda>s. first_of (filter (resolvable callback_id run_lease) (s_leases s)))) (\<lambda>resumed.
    tx_bind (tx_set (\<lambda>s. s\<lparr>s_leases := map (\<lambda>l. if resolvable callback_id run_lease l
        then resumed_lease (s_now s) l else l) (s_leases s)\<rparr>)) (\<lambda>_.
      case resumed of
        None \<Rightarrow> tx_err (CallbackNotFound callback_id)
      | Some l \<Rightarrow>
          tx_bind (upsert_attempts [(lease_pair l, \<lambda>a. a\<lparr>as_callback_filter := None, as_callback_on_complete := None,
              as_callback_on_fail := None, as_callback_transform := None,
              as_callback_result := Some (or_default payload JNull)\<rparr>)]) (\<lambda>_.
          tx_bind (load_active_lease_in_tx (ls_job_id l) (ls_run_lease l)) (\<lambda>job.
            case job of None \<Rightarrow> tx_err (CallbackNotFound callback_id) | Some j \<Rightarrow> tx_ret j))))"

definition complete_external_in_tx ::
  "bool \<Rightarrow> string \<Rightarrow> json option \<Rightarrow> int option \<Rightarrow> bool \<Rightarrow> job_row tx" where
  "complete_external_in_tx supports_job_output callback_id payload run_lease resume =
    (if resume then resume_callback callback_id payload run_lease
     else complete_external_with_output_in_tx supports_job_output callback_id run_lease None)"

definition complete_external ::
  "bool \<Rightarrow> string \<Rightarrow> json option \<Rightarrow> int option \<Rightarrow> bool \<Rightarrow> job_row tx" where
  "complete_external supports_job_output callback_id payload run_lease resume =
    in_tx (complete_external_in_tx supports_job_output callback_id payload run_lease resume)"

text \<open>The entry is made an object and completed with the columns it lacks.\<close>

definition external_error_entry :: "life_env \<Rightarrow> timestamp \<Rightarrow> int \<Rightarrow> json \<Rightarrow> json" where
  "external_error_entry env now attempt entry =
    json_or_insert ''terminal'' (JBool True)
      (json_or_insert ''at'' (JString (le_rfc3339 env now))
        (json_or_insert ''attempt'' (json_of_int attempt)
          (if is_object entry then entry else JObject [(''error'', entry)])))"

definition fail_external_with_error_entry_in_tx ::
  "life_env \<Rightarrow> string \<Rightarrow> json \<Rightarrow> int option \<Rightarrow> job_row tx" where
  "fail_external_with_error_entry_in_tx env callback_id error_entry run_lease =
    tx_bind (take_callback_leases callback_id ''failed'' (resolvable callback_id run_lease)) (\<lambda>moved.
    tx_bind (tx_get s_now) (\<lambda>now.
    tx_bind (tx_lift (res_bind (payload_with_attempt_state (r_payload moved) (lt_progress moved)) payload_from_json)) (\<lambda>payload.
    let done_row = lease_into_done_row moved Failed now
          (payload_into_json (push_error payload (external_error_entry env now (r_attempt moved) error_entry))) in
    tx_bind (insert_done_rows_tx [done_row] (Some (lt_state moved))) (\<lambda>_.
      tx_lift (done_into_job_row done_row)))))"

definition fail_external :: "life_env \<Rightarrow> string \<Rightarrow> string \<Rightarrow> int option \<Rightarrow> job_row tx" where
  "fail_external env callback_id error run_lease =
    in_tx (fail_external_with_error_entry_in_tx env callback_id (JObject [(''error'', JString error)]) run_lease)"

definition parked_for :: "string \<Rightarrow> int option \<Rightarrow> lease_entry \<Rightarrow> bool" where
  "parked_for callback_id run_lease l \<longleftrightarrow>
    ls_callback_id l = Some callback_id \<and> ls_state l = WaitingExternal \<and> wants_lease run_lease l"

definition retry_external_in_tx :: "string \<Rightarrow> int option \<Rightarrow> job_row tx" where
  "retry_external_in_tx callback_id run_lease =
    tx_bind (take_callback_leases callback_id ''retryable'' (parked_for callback_id run_lease)) (\<lambda>moved.
    tx_bind (tx_get s_now) (\<lambda>now.
    tx_bind (tx_lift (payload_with_attempt_state (r_payload moved) (lt_progress moved))) (\<lambda>payload.
    let ready_row = (lease_into_ready_row moved now payload)\<lparr>r_attempt := 0, r_run_at := now\<rparr> in
    tx_bind (insert_existing_ready_rows_tx [ready_row] (Some (lt_state moved))) (\<lambda>_.
    tx_bind (notify_queues_tx [r_queue moved]) (\<lambda>_.
      tx_lift (ready_into_job_row ready_row))))))"

definition retry_external :: "string \<Rightarrow> int option \<Rightarrow> job_row tx" where
  "retry_external callback_id run_lease = in_tx (retry_external_in_tx callback_id run_lease)"

definition heartbeat_callback :: "string \<Rightarrow> millis \<Rightarrow> job_row tx" where
  "heartbeat_callback callback_id timeout =
    tx_bind (tx_get (\<lambda>s. first_of (filter (parked_for callback_id None) (s_leases s)))) (\<lambda>updated.
    tx_bind (tx_set (\<lambda>s. s\<lparr>s_leases := map (\<lambda>l. if parked_for callback_id None l
        then l\<lparr>ls_callback_timeout_at := Some (s_now s + timeout)\<rparr> else l) (s_leases s)\<rparr>)) (\<lambda>_.
      case updated of
        None \<Rightarrow> tx_err (CallbackNotFound callback_id)
      | Some l \<Rightarrow>
          tx_bind (load_job True (ls_job_id l)) (\<lambda>job.
            case job of None \<Rightarrow> tx_err (CallbackNotFound callback_id) | Some j \<Rightarrow> tx_ret j)))"

section \<open>Properties of callbacks\<close>

subsection \<open>Resolutions\<close>

text \<open>The four ways to resolve a callback, each its own transaction, and the state each leaves the job in.\<close>

datatype resolution =
    Completes bool "int option"
  | Resumes "json option" "int option"
  | Fails life_env json "int option"
  | Retries "int option"

fun resolve :: "string \<Rightarrow> resolution \<Rightarrow> job_row tx" where
  "resolve cb (Completes outputs rl) = complete_external outputs cb None rl False"
| "resolve cb (Resumes payload rl) = complete_external False cb payload rl True"
| "resolve cb (Fails env entry rl) = in_tx (fail_external_with_error_entry_in_tx env cb entry rl)"
| "resolve cb (Retries rl) = retry_external cb rl"

fun resolved_state :: "resolution \<Rightarrow> job_state" where
  "resolved_state (Completes _ _) = Completed"
| "resolved_state (Resumes _ _) = Running"
| "resolved_state (Fails _ _ _) = Failed"
| "resolved_state (Retries _) = Available"

lemma rollback_same [simp]: "rollback s s = s"
  by (simp add: rollback_def if_distrib [of "\<lambda>x. x = _"] cong: if_cong)

lemma close_pairs_leases: "close_receipt_pairs_tx pairs out s = (r, s') \<Longrightarrow> s_leases s' = s_leases s"
  by (auto simp: close_receipt_pairs_tx_def close_claims_def Let_def tx_simps split: if_splits)

lemma take_callback_leases_ok:
  assumes "take_callback_leases cb out P s = (Inr moved, s')"
  shows "s_leases s' = filter (\<lambda>l. \<not> P l) (s_leases s) \<and>
    (\<exists>l \<in> set (s_leases s). P l \<and> r_job_id moved = ls_job_id l \<and> r_run_lease moved = ls_run_lease l)"
proof -
  define s0 where "s0 = s\<lparr>s_leases := filter (\<lambda>l. \<not> P l) (s_leases s)\<rparr>"
  define del where "del = filter P (s_leases s)"
  obtain u s1 ms where ne: "del \<noteq> []" and s1: "close_receipt_pairs_tx (map lease_pair del) out s0 = (Inr u, s1)"
    and hy: "hydrate_deleted_leases_tx (map deleted_of_lease del) True s1 = (Inr ms, s')" and moved: "moved = hd ms"
    using assms by (auto simp: take_callback_leases_def delete_leases_def tx_simps tx_bind_Inr s0_def del_def split: if_splits)
  from ne obtain l ls where del: "del = l # ls" by (cases del) auto
  from hydrate_result [OF hy] del have leases: "s_leases s' = s_leases s1"
    and "\<exists>y ys. ms = y # ys \<and> hydrate_one s1 (deleted_of_lease l) = Inr y"
    by (auto simp: rescue_closures_fields list_all2_Cons1)
  then have "r_job_id moved = ls_job_id l" "r_run_lease moved = ls_run_lease l"
    using moved hydrated_identity by (fastforce simp: deleted_of_lease_def)+
  moreover have "l \<in> set (s_leases s)" "P l"
    using del unfolding del_def by (auto simp: filter_eq_Cons_iff)
  ultimately show ?thesis using leases close_pairs_leases [OF s1] by (auto simp: s0_def)
qed

lemma take_callback_leases_none:
  assumes "\<forall>l \<in> set (s_leases s). \<not> P l"
  shows "take_callback_leases cb out P s = (Inl (CallbackNotFound cb), s)"
proof -
  have "filter P (s_leases s) = []" "filter (\<lambda>l. \<not> P l) (s_leases s) = s_leases s"
    using assms by (simp_all add: filter_empty_conv filter_id_conv)
  then show ?thesis by (simp add: take_callback_leases_def delete_leases_def tx_simps)
qed

lemma done_job_fields:
  "done_into_job_row row = Inr job \<Longrightarrow>
    jr_id job = r_job_id row \<and> jr_run_lease job = r_run_lease row \<and> jr_state job = dn_state row"
  by (auto simp: done_into_job_row_def res_bind_eq_Inr base_job_row_def)

lemma lease_job_fields:
  "lease_into_job_row row = Inr job \<Longrightarrow>
    jr_id job = r_job_id row \<and> jr_run_lease job = r_run_lease row \<and> jr_state job = lj_state row"
  by (auto simp: lease_into_job_row_def res_bind_eq_Inr base_job_row_def)

lemma ready_job_fields:
  "ready_into_job_row row = Inr job \<Longrightarrow>
    jr_id job = r_job_id row \<and> jr_run_lease job = r_run_lease row \<and> jr_state job = Available"
  by (auto simp: ready_into_job_row_def res_bind_eq_Inr base_job_row_def)

lemma done_row_fields:
  "r_job_id (lease_into_done_row l st t p) = r_job_id l" "r_run_lease (lease_into_done_row l st t p) = r_run_lease l"
  "dn_state (lease_into_done_row l st t p) = st"
  by (simp_all add: lease_into_done_row_def existing_ready_row.defs done_job_row.defs)

lemma completed_row_fields:
  "completed_row t m = Inr row \<Longrightarrow>
    r_job_id row = r_job_id m \<and> r_run_lease row = r_run_lease m \<and> dn_state row = Completed"
  by (auto simp: completed_row_def res_bind_eq_Inr done_row_fields)

lemma insert_done_leases: "insert_done_rows_tx [row] old s = (Inr n, s') \<Longrightarrow> s_leases s' = s_leases s"
  using insert_done_rows_result [of "[row]" old s n s'] by auto

lemma notify_leases: "notify_queues_tx qs s = (r, s') \<Longrightarrow> s_leases s' = s_leases s"
  by (auto simp: notify_queues_tx_def tx_simps split: if_splits)

text \<open>What every successful resolution that ends the attempt does: it deletes the leases it matches.\<close>

lemma complete_resolves:
  assumes "complete_external_with_output_in_tx outputs cb rl out s = (Inr job, s')"
  shows "s_leases s' = filter (\<lambda>l. \<not> resolvable cb rl l) (s_leases s) \<and> jr_state job = Completed \<and>
    (\<exists>l \<in> set (s_leases s). resolvable cb rl l \<and> jr_id job = ls_job_id l \<and> jr_run_lease job = ls_run_lease l)"
proof -
  obtain m s1 row n where m: "take_callback_leases cb ''completed'' (resolvable cb rl) s = (Inr m, s1)"
    "completed_row (s_now s1) m = Inr row"
    "insert_done_rows_tx [row\<lparr>dn_output := if outputs then out else None\<rparr>] (Some (lt_state m)) s1 = (Inr n, s')"
    "done_into_job_row (row\<lparr>dn_output := if outputs then out else None\<rparr>) = Inr job"
    using assms by (auto simp: complete_external_with_output_in_tx_def tx_bind_Inr tx_simps Let_def)
  from take_callback_leases_ok [OF m(1)] completed_row_fields [OF m(2)] insert_done_leases [OF m(3)]
    done_job_fields [OF m(4)]
  show ?thesis by auto
qed

lemma fail_resolves:
  assumes "fail_external_with_error_entry_in_tx env cb entry rl s = (Inr job, s')"
  shows "s_leases s' = filter (\<lambda>l. \<not> resolvable cb rl l) (s_leases s) \<and> jr_state job = Failed \<and>
    (\<exists>l \<in> set (s_leases s). resolvable cb rl l \<and> jr_id job = ls_job_id l \<and> jr_run_lease job = ls_run_lease l)"
proof -
  obtain m s1 p n where m: "take_callback_leases cb ''failed'' (resolvable cb rl) s = (Inr m, s1)"
    "insert_done_rows_tx [lease_into_done_row m Failed (s_now s1) p] (Some (lt_state m)) s1 = (Inr n, s')"
    "done_into_job_row (lease_into_done_row m Failed (s_now s1) p) = Inr job"
    using assms by (auto simp: fail_external_with_error_entry_in_tx_def tx_bind_Inr tx_simps Let_def)
  from take_callback_leases_ok [OF m(1)] insert_done_leases [OF m(2)] done_job_fields [OF m(3)]
  show ?thesis by (auto simp: done_row_fields)
qed

lemma retry_resolves:
  assumes "retry_external_in_tx cb rl s = (Inr job, s')"
  shows "s_leases s' = filter (\<lambda>l. \<not> parked_for cb rl l) (s_leases s) \<and> jr_state job = Available \<and>
    (\<exists>l \<in> set (s_leases s). parked_for cb rl l \<and> jr_id job = ls_job_id l \<and> jr_run_lease job = ls_run_lease l)"
proof -
  obtain m s1 p n s2 u where m: "take_callback_leases cb ''retryable'' (parked_for cb rl) s = (Inr m, s1)"
    "insert_existing_ready_rows_tx [(lease_into_ready_row m (s_now s1) p)\<lparr>r_attempt := 0, r_run_at := s_now s1\<rparr>]
       (Some (lt_state m)) s1 = (Inr n, s2)"
    "notify_queues_tx [r_queue m] s2 = (Inr u, s')"
    "ready_into_job_row ((lease_into_ready_row m (s_now s1) p)\<lparr>r_attempt := 0, r_run_at := s_now s1\<rparr>) = Inr job"
    using assms by (auto simp: retry_external_in_tx_def tx_bind_Inr tx_simps Let_def)
  from insert_existing_result [OF m(2)] have "s_leases s2 = s_leases s1" by blast
  with take_callback_leases_ok [OF m(1)] notify_leases [OF m(3)] ready_job_fields [OF m(4)]
  show ?thesis by (auto simp: lease_into_ready_row_def existing_ready_row.defs)
qed

lemma fetch_job_Some:
  assumes "fetch_job rows s = (Inr (Some job), s')"
  shows "s' = s \<and> (\<exists>r \<in> set (rows s). lease_into_job_row r = Inr job)"
  using assms by (auto simp: fetch_job_def tx_bind_Inr tx_simps first_of_def split: option.splits list.splits)

lemma lease_rows_in: "r \<in> set (lease_rows s P) \<Longrightarrow> \<exists>l \<in> set (s_leases s). P l \<and> r_job_id r = ls_job_id l \<and>
    r_run_lease r = ls_run_lease l \<and> lj_state r = ls_state l"
  by (auto simp: lease_rows_def List.map_filter_def lease_row_def Let_def)

lemma upsert_one_result:
  "upsert_attempts [pf] s = (Inr 1, s\<lparr>s_attempts := upsert_attempt pf (s_attempts s)\<rparr>)"
  by (simp add: upsert_attempts_def tx_simps)

lemma resume_resolves:
  assumes "resume_callback cb payload rl s = (Inr job, s')"
  obtains l where "l \<in> set (s_leases s)" "resolvable cb rl l" "jr_id job = ls_job_id l"
    "jr_run_lease job = ls_run_lease l" "first_of (filter (resolvable cb rl) (s_leases s)) = Some l"
    "s' = s\<lparr>s_leases := map (\<lambda>l. if resolvable cb rl l then resumed_lease (s_now s) l else l) (s_leases s),
            s_attempts := upsert_attempt (lease_pair l, \<lambda>a. a\<lparr>as_callback_filter := None, as_callback_on_complete := None,
              as_callback_on_fail := None, as_callback_transform := None,
              as_callback_result := Some (or_default payload JNull)\<rparr>) (s_attempts s)\<rparr>"
    "\<exists>x \<in> set (s_leases s'). lease_pair x = lease_pair l \<and> ls_state x = jr_state job"
proof -
  obtain l where l: "first_of (filter (resolvable cb rl) (s_leases s)) = Some l"
    using assms by (auto simp: resume_callback_def tx_simps split: option.splits)
  then have mem: "l \<in> set (s_leases s)" "resolvable cb rl l"
    by (auto simp: first_of_def filter_eq_Cons_iff split: list.splits)
  let ?s = "s\<lparr>s_leases := map (\<lambda>l. if resolvable cb rl l then resumed_lease (s_now s) l else l) (s_leases s),
            s_attempts := upsert_attempt (lease_pair l, \<lambda>a. a\<lparr>as_callback_filter := None, as_callback_on_complete := None,
              as_callback_on_fail := None, as_callback_transform := None,
              as_callback_result := Some (or_default payload JNull)\<rparr>) (s_attempts s)\<rparr>"
  have "load_active_lease_in_tx (ls_job_id l) (ls_run_lease l) ?s = (Inr (Some job), s')"
    using assms l by (auto simp: resume_callback_def tx_simps tx_bind_Inr upsert_one_result split: option.splits)
  from fetch_job_Some [OF this [unfolded load_active_lease_in_tx_def]]
  obtain r where s': "s' = ?s" and r: "r \<in> set (lease_rows ?s (\<lambda>x. lease_pair x = lease_pair l))" "lease_into_job_row r = Inr job"
    by (auto simp: lease_pair_def)
  from lease_rows_in [OF r(1)] obtain x where x: "x \<in> set (s_leases ?s)" "lease_pair x = lease_pair l"
      "r_job_id r = ls_job_id x" "r_run_lease r = ls_run_lease x" "lj_state r = ls_state x" by blast
  note job = lease_job_fields [OF r(2)]
  have "jr_id job = ls_job_id l" "jr_run_lease job = ls_run_lease l"
    using job x(2-4) by (simp_all add: lease_pair_def)
  moreover have "\<exists>x \<in> set (s_leases s'). lease_pair x = lease_pair l \<and> ls_state x = jr_state job"
    unfolding s' by (rule bexI [OF _ x(1)]) (simp add: job x(2,5))
  ultimately show thesis by (rule that [OF mem _ _ l s'])
qed

lemma resume_none:
  assumes "\<forall>l \<in> set (s_leases s). \<not> resolvable cb rl l"
  shows "resume_callback cb payload rl s = (Inl (CallbackNotFound cb), s)"
proof -
  have "filter (resolvable cb rl) (s_leases s) = []"
    "map (\<lambda>l. if resolvable cb rl l then resumed_lease (s_now s) l else l) (s_leases s) = s_leases s"
    using assms by (auto simp: filter_empty_conv intro: map_idI)
  then show ?thesis by (simp add: resume_callback_def tx_simps first_of_def)
qed

text \<open>Once no lease carries the callback, every resolution is refused and changes nothing.\<close>

lemma resolve_refused:
  assumes "\<forall>l \<in> set (s_leases s). ls_callback_id l \<noteq> Some cb"
  shows "resolve cb r s = (Inl (CallbackNotFound cb), s)"
proof -
  have none: "\<forall>l \<in> set (s_leases s). \<not> resolvable cb rl l" "\<forall>l \<in> set (s_leases s). \<not> parked_for cb rl l" for rl
    using assms by (auto simp: resolvable_def parked_for_def)
  show ?thesis
    by (cases r) (simp_all add: complete_external_def complete_external_in_tx_def complete_external_with_output_in_tx_def
        fail_external_with_error_entry_in_tx_def retry_external_def retry_external_in_tx_def in_tx_def
        take_callback_leases_none [OF none(1)] take_callback_leases_none [OF none(2)] resume_none [OF none(1)] tx_simps)
qed

text \<open>The callback is on one lease, and that lease is the only one of its attempt.\<close>

definition sole_callback :: "string \<Rightarrow> store \<Rightarrow> bool" where
  "sole_callback cb s \<longleftrightarrow>
    list_all (\<lambda>l. ls_callback_id l = Some cb \<longrightarrow>
      filter (\<lambda>x. ls_callback_id x = Some cb \<or> lease_pair x = lease_pair l) (s_leases s) = [l]) (s_leases s)"

lemma sole_callback_eq:
  assumes "sole_callback cb s" "l \<in> set (s_leases s)" "ls_callback_id l = Some cb"
    and "x \<in> set (s_leases s)" "ls_callback_id x = Some cb \<or> lease_pair x = lease_pair l"
  shows "x = l"
proof -
  have "x \<in> set (filter (\<lambda>x. ls_callback_id x = Some cb \<or> lease_pair x = lease_pair l) (s_leases s))"
    using assms(4,5) by simp
  also have "\<dots> = {l}" using assms(1-3) by (simp add: sole_callback_def list_all_iff)
  finally show ?thesis by simp
qed

lemma sole_callback_removed:
  assumes "sole_callback cb s" "l \<in> set (s_leases s)" "ls_callback_id l = Some cb" "P l"
    and "x \<in> set (filter (\<lambda>l. \<not> P l) (s_leases s))"
  shows "ls_callback_id x \<noteq> Some cb"
  using sole_callback_eq [OF assms(1-3), of x] assms(4,5) by auto

lemma resumed_no_callback:
  assumes "sole_callback cb s" "l \<in> set (s_leases s)" "resolvable cb rl l"
    and "x \<in> set (map (\<lambda>l. if resolvable cb rl l then resumed_lease t l else l) (s_leases s))"
  shows "ls_callback_id x \<noteq> Some cb"
proof -
  obtain y where y: "y \<in> set (s_leases s)" "x = (if resolvable cb rl y then resumed_lease t y else y)"
    using assms(4) by auto
  show ?thesis
  proof (cases "resolvable cb rl y")
    case False
    then show ?thesis
      using sole_callback_removed [OF assms(1,2), of "resolvable cb rl" y] assms(3) y by (auto simp: resolvable_def)
  qed (simp add: y(2) resumed_lease_def)
qed

text \<open>What a successful resolution achieves.\<close>

definition resolved_as :: "string \<Rightarrow> job_state \<Rightarrow> store \<Rightarrow> job_row \<Rightarrow> store \<Rightarrow> bool" where
  "resolved_as cb st s job s' \<longleftrightarrow>
    (\<exists>l \<in> set (s_leases s). ls_callback_id l = Some cb \<and> ls_state l \<in> {WaitingExternal, Running} \<and>
       jr_id job = ls_job_id l \<and> jr_run_lease job = ls_run_lease l) \<and>
    jr_state job = st \<and> (\<forall>x \<in> set (s_leases s'). ls_callback_id x \<noteq> Some cb)"

lemma removal_resolves:
  assumes "sole_callback cb s"
    and "s_leases s' = filter (\<lambda>l. \<not> P l) (s_leases s) \<and> jr_state job = st \<and>
      (\<exists>l \<in> set (s_leases s). P l \<and> jr_id job = ls_job_id l \<and> jr_run_lease job = ls_run_lease l)"
    and P: "\<And>l. P l \<Longrightarrow> ls_callback_id l = Some cb \<and> ls_state l \<in> {WaitingExternal, Running}"
  shows "resolved_as cb st s job s'"
proof -
  obtain l where l: "l \<in> set (s_leases s)" "P l" "jr_id job = ls_job_id l" "jr_run_lease job = ls_run_lease l"
    using assms(2) by blast
  have "\<forall>x \<in> set (s_leases s'). ls_callback_id x \<noteq> Some cb"
    using sole_callback_removed [where P = P, OF assms(1) l(1) conjunct1 [OF P [OF l(2)]] l(2)] assms(2) by simp
  then show ?thesis using l P [OF l(2)] assms(2) unfolding resolved_as_def by blast
qed

lemma resumption_resolves:
  assumes "sole_callback cb s" "l \<in> set (s_leases s)" "resolvable cb rl l"
    and "jr_id job = ls_job_id l" "jr_run_lease job = ls_run_lease l"
    and leases: "s_leases s' = map (\<lambda>l. if resolvable cb rl l then resumed_lease t l else l) (s_leases s)"
    and "\<exists>x \<in> set (s_leases s'). lease_pair x = lease_pair l \<and> ls_state x = jr_state job"
  shows "resolved_as cb Running s job s'"
proof -
  have cb: "ls_callback_id l = Some cb" "ls_state l \<in> {WaitingExternal, Running}"
    using assms(3) by (auto simp: resolvable_def)
  obtain y where y: "y \<in> set (s_leases s)" "lease_pair y = lease_pair l"
    "ls_state (if resolvable cb rl y then resumed_lease t y else y) = jr_state job"
    using assms(7) unfolding leases by (auto simp: resumed_lease_def lease_pair_def split: if_splits)
  then have "y = l" using sole_callback_eq [OF assms(1,2) cb(1)] by blast
  then have "jr_state job = Running" using y(3) assms(3) by (simp add: resumed_lease_def)
  moreover have "\<forall>x \<in> set (s_leases s'). ls_callback_id x \<noteq> Some cb"
    unfolding leases using resumed_no_callback [OF assms(1-3)] by blast
  ultimately show ?thesis using assms(2,4,5) cb unfolding resolved_as_def by blast
qed

lemma resolve_resolves:
  assumes "sole_callback cb s" "resolve cb r s = (Inr job, s')"
  shows "resolved_as cb (resolved_state r) s job s'"
proof (cases r)
  case (Completes outputs rl)
  with assms(2) have "complete_external_with_output_in_tx outputs cb rl None s = (Inr job, s')"
    by (simp add: complete_external_def in_tx_Inr complete_external_in_tx_def)
  from removal_resolves [OF assms(1) complete_resolves [OF this]] Completes show ?thesis
    by (simp add: resolvable_def)
next
  case (Resumes p rl)
  with assms(2) have "resume_callback cb p rl s = (Inr job, s')"
    by (simp add: complete_external_def in_tx_Inr complete_external_in_tx_def)
  then have "resolved_as cb Running s job s'"
    by (rule resume_resolves) (erule (3) resumption_resolves [OF assms(1), where t = "s_now s"], simp)
  with Resumes show ?thesis by simp
next
  case (Fails env entry rl)
  with assms(2) have "fail_external_with_error_entry_in_tx env cb entry rl s = (Inr job, s')"
    by (simp add: in_tx_Inr)
  from removal_resolves [OF assms(1) fail_resolves [OF this]] Fails show ?thesis
    by (simp add: resolvable_def)
next
  case (Retries rl)
  with assms(2) have "retry_external_in_tx cb rl s = (Inr job, s')"
    by (simp add: retry_external_def in_tx_Inr)
  from removal_resolves [OF assms(1) retry_resolves [OF this]] Retries show ?thesis
    by (simp add: parked_for_def)
qed


text \<open>A store in which job 7 waits for the callback \<open>cb\<close>.\<close>

definition waiting_lease :: lease_entry where
  "waiting_lease =
    \<lparr> ls_lease_slot = 0, ls_lease_generation = 0, ls_ready_slot = 0, ls_ready_generation = 0, ls_job_id = 7,
      ls_queue = ''q'', ls_state = WaitingExternal, ls_priority = 2, ls_attempt = 1, ls_run_lease = 1,
      ls_max_attempts = 3, ls_lane_seq = 0, ls_enqueue_shard = 0, ls_heartbeat_at = None, ls_deadline_at = None,
      ls_attempted_at = Some 900, ls_callback_id = Some ''cb'', ls_callback_timeout_at = Some 5000 \<rparr>"

definition waiting_store :: store where
  "waiting_store = claimed_store\<lparr>s_claim_batches := [], s_leases := [waiting_lease]\<rparr>"


subsection \<open>A resumption and its poller\<close>

lemma found_in: "find P xs = Some x \<Longrightarrow> x \<in> set xs \<and> P x"
  by (induction xs) (auto split: if_splits)

lemma cleared_row:
  assumes "b \<in> set (map (\<lambda>x. if attempt_pair x = p then x\<lparr>as_callback_result := None\<rparr> else x) rows)" "attempt_pair b = p"
  shows "as_callback_result b = None"
proof -
  obtain x where "b = (if attempt_pair x = p then x\<lparr>as_callback_result := None\<rparr> else x)"
    using assms(1) unfolding set_map by blast
  with assms(2) show ?thesis by (cases "attempt_pair x = p") simp_all
qed

lemma new_attempt_pair: "attempt_pair (new_attempt p) = p"
  by (simp add: attempt_pair_def new_attempt_def)

lemma find_upserted:
  assumes f: "\<And>a. attempt_pair (f a) = attempt_pair a"
  shows "\<exists>a. find (\<lambda>a. attempt_pair a = p) (upsert_attempt (p, f) rows) = Some (f a)"
proof -
  have "\<exists>a. find (\<lambda>a. attempt_pair a = p) (map (\<lambda>a. if attempt_pair a = p then f a else a) rows) = Some (f a)"
    if "p \<in> attempt_pair ` set rows"
    using that by (induction rows) (auto simp: f)
  moreover have "find (\<lambda>a. attempt_pair a = p) (rows @ [f (new_attempt p)]) = Some (f (new_attempt p))"
    if "p \<notin> attempt_pair ` set rows"
    using that by (induction rows) (auto simp: f new_attempt_pair)
  ultimately show ?thesis unfolding upsert_attempt_def fst_conv snd_conv by (cases "p \<in> attempt_pair ` set rows") auto
qed

lemma find_attempt_pair: "find_attempt s j l = find (\<lambda>a. attempt_pair a = (j, l)) (s_attempts s)"
  by (simp add: find_attempt_def attempt_pair_def)

text \<open>A poll that finds the resumed lease and its result takes the result away and leaves the lease.\<close>

lemma result_polled_once:
  assumes new: "newest_lease s j = Some (l, Some v)" and l: "ls_job_id l = j" "ls_state l = Running" "ls_callback_id l = None"
  shows "\<exists>s'. check_callback_state j cb s = (Inr (Resolved v), s') \<and>
    check_callback_state j cb s' = (Inr (UnexpectedState cb Running), s')"
proof -
  let ?p = "(j, ls_run_lease l)"
  from new l(1) have fl: "first_of (sort_key (\<lambda>l. - ls_run_lease l) (filter (\<lambda>l. ls_job_id l = j) (s_leases s))) = Some l"
    and res: "Option.bind (find_attempt s j (ls_run_lease l)) as_callback_result = Some v"
    by (auto simp: newest_lease_def)
  from res obtain a where a: "find_attempt s j (ls_run_lease l) = Some a" "as_callback_result a = Some v"
    by (auto simp: bind_eq_Some_conv)
  define xs where "xs = (if attempt_row_bare a then filter (\<lambda>x. attempt_pair x \<noteq> ?p) (s_attempts s)
      else map (\<lambda>x. if attempt_pair x = ?p then x\<lparr>as_callback_result := None\<rparr> else x) (s_attempts s))"
  define s' where "s' = s\<lparr>s_attempts := xs\<rparr>"
  have first: "check_callback_state j cb s = (Inr (Resolved v), s')"
    unfolding check_callback_state_def take_callback_result_def in_tx_def s'_def xs_def
    by (simp add: tx_simps new l a)
  have "Option.bind (find_attempt s' j (ls_run_lease l)) as_callback_result = None"
  proof (cases "find (\<lambda>a. attempt_pair a = ?p) xs")
    case (Some b)
    from found_in [OF this] have "b \<in> set xs" "attempt_pair b = ?p" by simp_all
    then have "as_callback_result b = None"
      using cleared_row [of b ?p "s_attempts s"] by (cases "attempt_row_bare a") (simp_all add: xs_def)
    with Some show ?thesis by (simp add: find_attempt_pair s'_def)
  qed (simp add: find_attempt_pair s'_def)
  then have "newest_lease s' j = Some (l, None)"
    using fl l(1) by (simp add: newest_lease_def s'_def)
  then have "check_callback_state j cb s' = (Inr (UnexpectedState cb Running), s')"
    using l by (simp add: check_callback_state_def tx_simps)
  with first show ?thesis by blast
qed

text \<open>The attempt that carries the callback is the only attempt of its job.\<close>

definition sole_attempt :: "string \<Rightarrow> store \<Rightarrow> bool" where
  "sole_attempt cb s \<longleftrightarrow>
    list_all (\<lambda>l. ls_callback_id l = Some cb \<longrightarrow> filter (\<lambda>x. ls_job_id x = ls_job_id l) (s_leases s) = [l]) (s_leases s)"

text \<open>
  C20: a payload reaches the attempt that waits for it, exactly once.  When the job of a callback has no other attempt and
  the callback is resolved with \<^verbatim>\<open>resume\<close>, then the next poll of the job returns that payload (JSON null when none was
  given), whatever callback id the poller names, and the poll after it reports a running job without a pending
  callback: the result is neither lost nor delivered twice.
\<close>

theorem resumed_payload_reaches_poller:
  assumes "sole_attempt cb s" "complete_external outputs cb payload rl True s = (Inr job, s')"
  shows "\<exists>s''. check_callback_state (jr_id job) cb' s' = (Inr (Resolved (or_default payload JNull)), s'') \<and>
    check_callback_state (jr_id job) cb' s'' = (Inr (UnexpectedState cb' Running), s'')"
proof -
  from assms(2) have "resume_callback cb payload rl s = (Inr job, s')"
    by (simp add: complete_external_def in_tx_Inr complete_external_in_tx_def)
  then show ?thesis
  proof (rule resume_resolves)
    fix l
    let ?f = "\<lambda>a. a\<lparr>as_callback_filter := None, as_callback_on_complete := None, as_callback_on_fail := None,
      as_callback_transform := None, as_callback_result := Some (or_default payload JNull)\<rparr>"
    assume l: "l \<in> set (s_leases s)" "resolvable cb rl l" "jr_id job = ls_job_id l"
      and s': "s' = s\<lparr>s_leases := map (\<lambda>l. if resolvable cb rl l then resumed_lease (s_now s) l else l) (s_leases s),
        s_attempts := upsert_attempt (lease_pair l, ?f) (s_attempts s)\<rparr>"
    have "filter (\<lambda>x. ls_job_id x = ls_job_id l) (s_leases s) = [l]"
      using assms(1) l(1,2) by (simp add: sole_attempt_def list_all_iff resolvable_def)
    then have "filter (\<lambda>x. ls_job_id x = ls_job_id l) (s_leases s') = [resumed_lease (s_now s) l]"
      using l(2) by (simp add: s' filter_map comp_def if_distrib [of ls_job_id] resumed_lease_def cong: if_cong)
    moreover obtain a where "find_attempt s' (ls_job_id l) (ls_run_lease l) = Some (?f a)"
      using find_upserted [of ?f "lease_pair l" "s_attempts s"]
      by (auto simp: s' find_attempt_pair lease_pair_def attempt_pair_def)
    ultimately have "newest_lease s' (jr_id job) = Some (resumed_lease (s_now s) l, Some (or_default payload JNull))"
      using l(3) by (simp add: newest_lease_def first_of_def resumed_lease_def)
    then show ?thesis by (rule result_polled_once) (simp_all add: resumed_lease_def l(3))
  qed
qed

theorem resumed_payload_reaches_poller_witness:
  "\<exists>job s' s''. complete_external False ''cb'' (Some (JBool True)) None True waiting_store = (Inr job, s') \<and>
     check_callback_state (jr_id job) ''cb'' s' = (Inr (Resolved (JBool True)), s'') \<and>
     check_callback_state (jr_id job) ''cb'' s'' = (Inr (UnexpectedState ''cb'' Running), s'')"
proof -
  have "map_sum (\<lambda>_. ()) (\<lambda>_. ()) (fst (complete_external False ''cb'' (Some (JBool True)) None True waiting_store)) = Inr ()"
    by code_simp
  then obtain job s' where r: "complete_external False ''cb'' (Some (JBool True)) None True waiting_store = (Inr job, s')"
    by (elim fst_Inr_selE)
  have "sole_attempt ''cb'' waiting_store" by code_simp
  from resumed_payload_reaches_poller [OF this r, of "''cb''"] r show ?thesis by auto
qed

subsection \<open>Jobs claimed at a raised priority, and heartbeats of receipts\<close>

text \<open>
  A claim records the aged priority, and the readers join the ready row on it.  Such a job's callback can be
  completed, but not resumed, and \<^verbatim>\<open>callback_job\<close> does not find it.
\<close>

definition aged_store :: store where
  "aged_store = waiting_store\<lparr>s_leases := [waiting_lease\<lparr>ls_priority := 1\<rparr>]\<rparr>"

lemma aged_callback_not_resumable:
  "fst (resolve ''cb'' (Resumes None None) aged_store) = Inl (CallbackNotFound ''cb'')"
  "map_sum (\<lambda>_. ()) (map_option (\<lambda>_. ())) (fst (callback_job_in_tx ''cb'' None aged_store)) = Inr None"
  "map_sum (\<lambda>_. ()) jr_state (fst (resolve ''cb'' (Completes True None) aged_store)) = Inr Completed"
  by code_simp+

text \<open>
  A running attempt whose heartbeat lives in \<^verbatim>\<open>attempt_state\<close> only: registering a callback deletes the row, and the
  attempt falls back to the heartbeat of its lease.
\<close>

definition heartbeat_store :: store where
  "heartbeat_store = waiting_store\<lparr>
     s_leases := [waiting_lease\<lparr>ls_state := Running, ls_callback_id := None, ls_callback_timeout_at := None, ls_heartbeat_at := Some 10\<rparr>],
     s_attempts := [(new_attempt (7, 1))\<lparr>as_heartbeat_at := Some 990\<rparr>]\<rparr>"

lemma register_callback_drops_heartbeat:
  "map lj_heartbeat_at (lease_rows heartbeat_store (\<lambda>_. True)) = [Some 990]"
  "map lj_heartbeat_at (lease_rows (snd (register_callback ''cb'' 7 1 60000 heartbeat_store)) (\<lambda>_. True)) = [Some 10]"
  by code_simp+

end
