(* ===== verification/Awa_Claim.thy ===== *)
theory Awa_Claim
  imports Awa_Completion
begin

section \<open>Claiming\<close>

text \<open>
  The functions \<^verbatim>\<open>claim_ready_runtime\<close> and \<^verbatim>\<open>claim_ready_slot_N\<close> of the storage schema and the claim paths of
  \<^verbatim>\<open>queue_storage.rs\<close> above them: choosing a lane, catching its cursor up, skipping spent rows, recording the
  claim, moving the unique claims, the advance of the cursors after the commit, and the loop over stripes.

  The rows of \<^verbatim>\<open>queue_claim_heads\<close> are the keys of a map, so the order in which a scan meets them is an
  argument, \<open>cv_scan\<close>; a lane whose row another transaction has locked is in \<open>cv_locked\<close> and is skipped.  The
  clock stands still during a call, durations are milliseconds, and the columns of an attempt batch that nothing
  reads (slot, count and time of the claim) are left out.

  The theorems show that with receipts a claim takes rows that were never claimed and were not removed, that
  the cursor of a lane never passes a row that is neither, and when a claim fails.
\<close>


subsection \<open>Priorities raised by age\<close>

definition in_smallint :: "int \<Rightarrow> bool" where
  "in_smallint i \<longleftrightarrow> - 32768 \<le> i \<and> i \<le> 32767"

definition smallint_out_of_range :: awa_error where
  "smallint_out_of_range = map_sqlx_error (DbError (Some ''22003'') None)"

definition aged_priority :: "millis \<Rightarrow> timestamp \<Rightarrow> timestamp \<Rightarrow> int \<Rightarrow> awa_error + int" where
  "aged_priority aging now run_at priority =
    (if aging > 0 then
       let steps = (now - run_at) div aging in
       if in_smallint steps \<and> in_smallint (priority - steps) then Inr (max 1 (priority - steps))
       else Inl smallint_out_of_range
     else Inr priority)"


subsection \<open>Choosing a lane\<close>

record claim_env =
  cv_scan :: "lane list"
  cv_locked :: "lane list"

text \<open>The first segment of a lane that ends after the cursor: its partition and the time of its first row.\<close>

definition segment_lane :: "ready_segment_insert \<Rightarrow> lane" where
  "segment_lane seg = (sg_queue seg, sg_priority seg, sg_enqueue_shard seg)"

definition first_segment :: "store \<Rightarrow> lane \<Rightarrow> int \<Rightarrow> (int \<times> int \<times> timestamp) option" where
  "first_segment s lane claim_seq =
    map_option (\<lambda>(slot, generation, seg). (slot, generation, sg_first_run_at seg))
      (first_of (sort_key (\<lambda>(_, _, seg). sg_next_lane_seq seg)
        (filter (\<lambda>(_, _, seg). segment_lane seg = lane \<and> claim_seq < sg_next_lane_seq seg) (s_segments s))))"

record claim_candidate =
  cn_lane :: lane
  cn_claim_seq :: int
  cn_next_seq :: int
  cn_target :: "(int \<times> int \<times> timestamp) option"

definition lane_candidates :: "store \<Rightarrow> claim_env \<Rightarrow> string \<Rightarrow> claim_candidate list" where
  "lane_candidates s env queue =
    List.map_filter (\<lambda>lane.
      case (s_claim_heads s lane, s_heads s lane) of
        (Some c, Some n) \<Rightarrow>
          if fst lane = queue \<and> queue \<notin> set (s_paused s) \<and> c < n
          then Some \<lparr> cn_lane = lane, cn_claim_seq = c, cn_next_seq = n, cn_target = first_segment s lane c \<rparr>
          else None
      | _ \<Rightarrow> None) (cv_scan env)"

text \<open>\<^verbatim>\<open>ORDER BY\<close> the aged priority and the age of the candidate, absent ones last, then the priority of the lane.\<close>

definition candidate_order :: "millis \<Rightarrow> timestamp \<Rightarrow> claim_candidate \<Rightarrow> awa_error + ((int \<times> int) \<times> (int \<times> int) \<times> int)" where
  "candidate_order aging now c =
    (let priority = fst (snd (cn_lane c)) in
     case cn_target c of
       None \<Rightarrow> Inr ((1, 0), (1, 0), priority)
     | Some (_, _, run_at) \<Rightarrow>
         res_bind (aged_priority aging now run_at priority) (\<lambda>p. Inr ((0, p), (0, run_at), priority)))"

definition select_lane :: "claim_env \<Rightarrow> string \<Rightarrow> millis \<Rightarrow> claim_candidate option tx" where
  "select_lane env queue aging =
    tx_bind (tx_get (\<lambda>s. lane_candidates s env queue)) (\<lambda>candidates.
    tx_bind (tx_get s_now) (\<lambda>now.
    tx_bind (tx_lift (res_map (candidate_order aging now) candidates)) (\<lambda>keys.
      tx_ret (map_option snd (first_of (filter (\<lambda>(_, c). cn_lane c \<notin> set (cv_locked env))
        (sort_key fst (zip keys candidates))))))))"


subsection \<open>The cursor of the lane\<close>

definition set_claim_cursor :: "lane \<Rightarrow> int \<Rightarrow> unit tx" where
  "set_claim_cursor lane n =
    tx_set (\<lambda>s. s\<lparr>s_claim_heads := (s_claim_heads s)(lane := map_option (\<lambda>c. set_sequence_next c n) (s_claim_heads s lane))\<rparr>)"

type_synonym claim_key = "int \<times> int \<times> lane"

definition batch_key :: "claim_attempt_batch \<Rightarrow> claim_key" where
  "batch_key b = (cb_ready_slot b, cb_ready_generation b, cb_queue b, cb_priority b, cb_enqueue_shard b)"

definition part_key :: "ready_transition_row \<Rightarrow> claim_key" where
  "part_key r = (rt_ready_slot r, rt_ready_generation r, row_lane r)"

text \<open>The largest end of a recorded attempt in the partition that lies after the cursor.\<close>

definition evidence_next :: "store \<Rightarrow> claim_key \<Rightarrow> int \<Rightarrow> int option" where
  "evidence_next s key claim_seq =
    (let ends = filter (\<lambda>n. claim_seq < n)
       (map cb_next_lane_seq (filter (\<lambda>b. batch_key b = key) (s_claim_attempts s))) in
     if ends = [] then None else Some (Max (set ends)))"

text \<open>
  Catches the cursor up over recorded attempts.  The result is the partition to claim from and the cursor
  in force, none when no segment lies after the cursor.
\<close>

definition catch_up :: "lane \<Rightarrow> int \<Rightarrow> int \<times> int \<Rightarrow> ((int \<times> int) \<times> int) option tx" where
  "catch_up lane claim_seq target =
    tx_bind (tx_get (\<lambda>s. evidence_next s (fst target, snd target, lane) claim_seq)) (\<lambda>evidence.
      case evidence of
        None \<Rightarrow> tx_ret (Some (target, claim_seq))
      | Some n \<Rightarrow>
          tx_bind (set_claim_cursor lane n) (\<lambda>_.
          tx_bind (tx_get (\<lambda>s. first_segment s lane n)) (\<lambda>segment.
            tx_ret (map_option (\<lambda>(slot, generation, _). ((slot, generation), n)) segment))))"

text \<open>The rows of a partition of the lane from a position on, in order.\<close>

definition key_rows :: "store \<Rightarrow> claim_key \<Rightarrow> int \<Rightarrow> ready_transition_row list" where
  "key_rows s key claim_seq =
    sort_key rt_lane_seq (filter (\<lambda>r. part_key r = key \<and> claim_seq \<le> rt_lane_seq r) (s_ready s))"

definition seek_head :: "claim_key \<Rightarrow> int \<Rightarrow> (ready_transition_row \<times> int) option tx" where
  "seek_head key claim_seq =
    tx_bind (tx_get (\<lambda>s. first_of (key_rows s key claim_seq))) (\<lambda>head.
      case head of
        None \<Rightarrow> tx_ret None
      | Some r \<Rightarrow>
          if claim_seq < rt_lane_seq r
          then tx_bind (set_claim_cursor (snd (snd key)) (rt_lane_seq r)) (\<lambda>_. tx_ret (Some (r, rt_lane_seq r)))
          else tx_ret (Some (r, claim_seq)))"


subsection \<open>Spent rows\<close>

definition tombstoned :: "store \<Rightarrow> claim_key \<Rightarrow> int \<Rightarrow> bool" where
  "tombstoned s key seq \<longleftrightarrow>
    (\<exists>t \<in> set (s_ready_tombs s).
       (tm_ready_slot t, tm_ready_generation t, tm_queue t, tm_priority t, tm_enqueue_shard t) = key \<and> tm_lane_seq t = seq)"

definition covers_seq :: "claim_attempt_batch \<Rightarrow> int \<Rightarrow> bool" where
  "covers_seq b seq \<longleftrightarrow>
    cb_first_lane_seq b \<le> seq \<and> seq < cb_next_lane_seq b \<and>
    (\<exists>(lo, hi) \<in> set (cb_lane_ranges b). lo \<le> seq \<and> seq < hi)"

definition attempted :: "store \<Rightarrow> claim_key \<Rightarrow> int \<Rightarrow> bool" where
  "attempted s key seq \<longleftrightarrow> (\<exists>b \<in> set (s_claim_attempts s). batch_key b = key \<and> covers_seq b seq)"

text \<open>Without receipts the attempt that would be claimed is looked for in every table that could hold it.\<close>

definition legacy_spent :: "store \<Rightarrow> claim_key \<Rightarrow> ready_transition_row \<Rightarrow> bool" where
  "legacy_spent s key r \<longleftrightarrow>
    (let j = r_job_id r; l = r_run_lease r + 1 in
     (\<exists>c \<in> set (s_lease_claims s). lc_job_id c = j \<and> lc_run_lease c = l) \<or>
     (\<exists>c \<in> set (s_closures s). cc_job_id c = j \<and> cc_run_lease c = l) \<or>
     (\<exists>b \<in> set (s_receipt_batches s).
        (rc_ready_slot b, rc_ready_generation b, rc_queue b, rc_priority b, rc_enqueue_shard b) = key \<and>
        (\<exists>i \<in> set (rc_items b). ci_job_id i = j \<and> ci_run_lease i = l)) \<or>
     leased s j l \<or> moved_on s j l \<or>
     (\<exists>x \<in> set (s_ready s). r_job_id x = j \<and> r_run_lease x = l))"

definition attempt_spent :: "store \<Rightarrow> claim_key \<Rightarrow> ready_transition_row \<Rightarrow> bool" where
  "attempt_spent s key r \<longleftrightarrow>
    tombstoned s key (rt_lane_seq r) \<or> attempted s key (rt_lane_seq r) \<or>
    \<not> cfg_lease_claim_receipts (s_config s) \<and> legacy_spent s key r"

text \<open>The end of the run of spent rows that starts at the cursor, among the next \<open>limit\<close> rows.\<close>

definition spent_next :: "store \<Rightarrow> claim_key \<Rightarrow> int \<Rightarrow> nat \<Rightarrow> int option" where
  "spent_next s key claim_seq limit =
    (let spent = map rt_lane_seq (filter (attempt_spent s key) (take limit (key_rows s key claim_seq)));
         run = filter (\<lambda>(i, seq). seq - int (i + 1) = claim_seq - 1) (enumerate 0 spent) in
     if run = [] then None else Some (Max (set (map snd run)) + 1))"

definition skip_spent :: "claim_key \<Rightarrow> int \<Rightarrow> nat \<Rightarrow> unit tx" where
  "skip_spent key claim_seq limit =
    tx_bind (tx_get (\<lambda>s. spent_next s key claim_seq limit)) (\<lambda>n.
      case n of None \<Rightarrow> tx_ret () | Some n \<Rightarrow> set_claim_cursor (snd (snd key)) n)"

subsection \<open>Recording a claim\<close>

text \<open>\<^verbatim>\<open>ring_cursor\<close> as a table: no row when a ledger has none.\<close>

definition cursor_rows :: "ring_authority \<Rightarrow> ring_state \<Rightarrow> (int \<times> int) list" where
  "cursor_rows authority ring = (case ring_cursor authority ring of Inl _ \<Rightarrow> [] | Inr cursor \<Rightarrow> [cursor])"

text \<open>\<^verbatim>\<open>range_agg\<close> of single positions in ascending order.\<close>

fun range_agg :: "int list \<Rightarrow> (int \<times> int) list" where
  "range_agg [] = []"
| "range_agg (x # xs) =
     (case range_agg xs of
        [] \<Rightarrow> [(x, x + 1)]
      | (lo, hi) # rest \<Rightarrow> if x + 1 = lo then (x, hi) # rest else (x, x + 1) # (lo, hi) # rest)"

definition attempt_batch :: "claim_key \<Rightarrow> int list \<Rightarrow> claim_attempt_batch" where
  "attempt_batch key seqs =
    (case key of (slot, generation, queue, priority, shard) \<Rightarrow>
      \<lparr> cb_ready_slot = slot, cb_ready_generation = generation, cb_queue = queue, cb_priority = priority,
        cb_enqueue_shard = shard, cb_first_lane_seq = Min (set seqs), cb_next_lane_seq = Max (set seqs) + 1,
        cb_lane_ranges = range_agg seqs \<rparr>)"

text \<open>
  A selected row with the priority and the number of the attempt it is claimed at, and the columns of
  the result that do not depend on the mode.
\<close>

definition claim_row :: "timestamp \<Rightarrow> millis \<Rightarrow> int \<times> int \<Rightarrow> ready_transition_row \<times> int \<Rightarrow> ready_job_lease_row" where
  "claim_row now deadline lease_cursor = (\<lambda>(r, priority).
    \<lparr> r_job_id = r_job_id r, r_kind = r_kind r, r_queue = r_queue r, r_args = r_args r, r_priority = priority,
      r_attempt = r_attempt r + 1, r_run_lease = r_run_lease r + 1, r_max_attempts = r_max_attempts r,
      r_run_at = r_run_at r, r_attempted_at = (if deadline > 0 then Some now else None),
      r_created_at = r_created_at r, r_unique_key = r_unique_key r, r_unique_states = r_unique_states r,
      r_payload = r_payload r,
      rl_ready_slot = rt_ready_slot r, rl_ready_generation = rt_ready_generation r, rl_lane_seq = rt_lane_seq r,
      rl_enqueue_shard = rt_enqueue_shard r, rl_lease_slot = fst lease_cursor,
      rl_lease_generation = snd lease_cursor, rl_claim_slot = 0, rl_receipt_id = None, rl_claim_batch_id = None,
      rl_claim_batch_index = None, rl_lane_priority = r_priority r,
      rl_heartbeat_at = (if deadline > 0 then Some now else None),
      rl_deadline_at = (if deadline > 0 then Some (now + deadline) else None) \<rparr>)"

text \<open>The claimed rows with their receipts, in the order of the priority they are claimed at.\<close>

definition claim_receipts :: "int \<Rightarrow> (ready_transition_row \<times> int) list \<Rightarrow> (int \<times> ready_transition_row \<times> int) list" where
  "claim_receipts next_receipt live =
    map (\<lambda>(i, rp). (next_receipt + int i, rp))
      (enumerate 0 (sort_key (\<lambda>(r, p). (p, rt_lane_seq r, r_job_id r)) live))"

definition claim_priorities :: "(ready_transition_row \<times> int) list \<Rightarrow> int list" where
  "claim_priorities live = sort (remdups (map snd live))"

definition priority_group :: "int \<Rightarrow> (int \<times> ready_transition_row \<times> int) list \<Rightarrow> (int \<times> ready_transition_row \<times> int) list" where
  "priority_group p items = filter (\<lambda>(_, _, p'). p' = p) items"

definition claim_batch_row ::
  "timestamp \<Rightarrow> millis \<Rightarrow> int \<Rightarrow> claim_key \<Rightarrow> int \<Rightarrow> int \<Rightarrow> (int \<times> ready_transition_row \<times> int) list \<Rightarrow> lease_claim_batch" where
  "claim_batch_row now deadline claim_slot key batch_id priority items =
    (case key of (slot, generation, queue, _, shard) \<Rightarrow>
      \<lparr> lb_claim_slot = claim_slot, lb_batch_id = batch_id, lb_ready_slot = slot, lb_ready_generation = generation,
        lb_queue = queue, lb_priority = priority, lb_enqueue_shard = shard,
        lb_deadline_at = (if deadline > 0 then Some (now + deadline) else None), lb_claimed_at = now,
        lb_items = map (\<lambda>(receipt, r, _).
          \<lparr> it_job_id = r_job_id r, it_run_lease = r_run_lease r + 1, it_receipt_id = receipt,
            it_lane_seq = rt_lane_seq r, it_attempt = r_attempt r + 1, it_max_attempts = r_max_attempts r \<rparr>) items \<rparr>)"

text \<open>
  With receipts: one attempt batch over the positions, one claim batch per priority, and the result rows
  in the order of their positions.  A group is the id of its batch, its priority and its items.
\<close>

type_synonym claim_group = "int \<times> int \<times> (int \<times> ready_transition_row \<times> int) list"

definition claim_groups :: "int \<Rightarrow> int \<Rightarrow> (ready_transition_row \<times> int) list \<Rightarrow> claim_group list" where
  "claim_groups next_batch next_receipt live =
    map (\<lambda>(k, p). (next_batch + int k, p, priority_group p (claim_receipts next_receipt live)))
      (enumerate 0 (claim_priorities live))"

definition group_rows :: "timestamp \<Rightarrow> millis \<Rightarrow> int \<Rightarrow> int \<times> int \<Rightarrow> claim_group list \<Rightarrow> ready_job_lease_row list" where
  "group_rows now deadline claim_slot cursor groups =
    concat (map (\<lambda>(batch_id, p, group_items).
      map (\<lambda>(j, receipt, rp). (claim_row now deadline cursor rp)
          \<lparr>rl_claim_slot := claim_slot, rl_receipt_id := Some receipt, rl_claim_batch_id := Some batch_id,
           rl_claim_batch_index := Some (int j + 1)\<rparr>) (enumerate 0 group_items)) groups)"

definition group_batches :: "timestamp \<Rightarrow> millis \<Rightarrow> int \<Rightarrow> claim_key \<Rightarrow> claim_group list \<Rightarrow> lease_claim_batch list" where
  "group_batches now deadline claim_slot key groups =
    map (\<lambda>(batch_id, p, group_items). claim_batch_row now deadline claim_slot key batch_id p group_items) groups"

definition claim_with_receipts ::
  "millis \<Rightarrow> claim_key \<Rightarrow> (ready_transition_row \<times> int) list \<Rightarrow> ready_job_lease_row list tx" where
  "claim_with_receipts deadline key live s =
    (case cursor_rows (s_authority s) (s_claim_ring s) of
       [] \<Rightarrow> (Inr [], s)
     | (claim_slot, _) # _ \<Rightarrow>
         (if live = [] then (Inr [], s)
          else
            let groups = claim_groups (s_next_batch_id s) (s_next_receipt_id s) live in
            (Inr (sort_key rl_lane_seq (concat (map (\<lambda>cursor. group_rows (s_now s) deadline claim_slot cursor groups)
               (cursor_rows (s_authority s) (s_lease_ring s))))),
             s\<lparr>s_claim_attempts := s_claim_attempts s @ [attempt_batch key (map (rt_lane_seq \<circ> fst) live)],
               s_claim_batches := s_claim_batches s @ group_batches (s_now s) deadline claim_slot key groups,
               s_next_receipt_id := s_next_receipt_id s + int (length live),
               s_next_batch_id := s_next_batch_id s + int (length groups)\<rparr>)))"

text \<open>Without receipts: a running lease per row.\<close>

definition claimed_lease :: "timestamp \<Rightarrow> millis \<Rightarrow> int \<times> int \<Rightarrow> ready_transition_row \<times> int \<Rightarrow> lease_entry" where
  "claimed_lease now deadline lease_cursor = (\<lambda>(r, priority).
    \<lparr> ls_lease_slot = fst lease_cursor, ls_lease_generation = snd lease_cursor, ls_ready_slot = rt_ready_slot r,
      ls_ready_generation = rt_ready_generation r, ls_job_id = r_job_id r, ls_queue = r_queue r, ls_state = Running,
      ls_priority = priority, ls_attempt = r_attempt r + 1, ls_run_lease = r_run_lease r + 1,
      ls_max_attempts = r_max_attempts r, ls_lane_seq = rt_lane_seq r, ls_enqueue_shard = rt_enqueue_shard r,
      ls_heartbeat_at = Some now, ls_deadline_at = (if deadline > 0 then Some (now + deadline) else None),
      ls_attempted_at = Some now, ls_callback_id = None, ls_callback_timeout_at = None \<rparr>)"

definition claim_with_leases :: "millis \<Rightarrow> (ready_transition_row \<times> int) list \<Rightarrow> ready_job_lease_row list tx" where
  "claim_with_leases deadline live s =
    (let cursors = cursor_rows (s_authority s) (s_lease_ring s) in
     (Inr (concat (map (\<lambda>cursor. map (claim_row (s_now s) deadline cursor) live) cursors)),
      s\<lparr>s_leases := s_leases s @ concat (map (\<lambda>cursor. map (claimed_lease (s_now s) deadline cursor) live) cursors)\<rparr>))"

definition claim_ready_slot :: "millis \<Rightarrow> millis \<Rightarrow> claim_key \<Rightarrow> int \<Rightarrow> nat \<Rightarrow> ready_job_lease_row list tx" where
  "claim_ready_slot deadline aging key claim_seq limit =
    tx_bind (tx_get (\<lambda>s. take limit (key_rows s key claim_seq))) (\<lambda>selected.
    tx_bind (tx_get s_now) (\<lambda>now.
    tx_bind (tx_lift (res_map (\<lambda>r. aged_priority aging now (r_run_at r) (r_priority r)) selected)) (\<lambda>priorities.
    tx_bind (tx_get (\<lambda>s. filter (\<lambda>(r, _). \<not> tombstoned s key (rt_lane_seq r)) (zip selected priorities))) (\<lambda>live.
    tx_bind (tx_get (\<lambda>s. cfg_lease_claim_receipts (s_config s))) (\<lambda>receipts.
      if \<not> list_all (\<lambda>(r, _). in_smallint (r_attempt r + 1)) live then tx_err smallint_out_of_range
      else if receipts then claim_with_receipts deadline key live
      else claim_with_leases deadline live)))))"

definition claim_from :: "millis \<Rightarrow> millis \<Rightarrow> int \<Rightarrow> claim_key \<Rightarrow> int \<Rightarrow> int \<Rightarrow> ready_job_lease_row list tx" where
  "claim_from deadline aging max_batch key claim_seq next_seq =
    tx_bind (seek_head key claim_seq) (\<lambda>head.
      case head of
        None \<Rightarrow> tx_ret []
      | Some (r, claim_seq) \<Rightarrow>
          (let limit = min (max (next_seq - claim_seq) 0) max_batch in
           if limit \<le> 0 then tx_ret []
           else
             tx_bind (tx_get (\<lambda>s. attempt_spent s key r)) (\<lambda>spent.
               if spent then tx_bind (skip_spent key claim_seq (nat limit)) (\<lambda>_. tx_ret [])
               else claim_ready_slot deadline aging key claim_seq (nat limit))))"

definition claim_ready_runtime ::
  "claim_env \<Rightarrow> string \<Rightarrow> int \<Rightarrow> millis \<Rightarrow> millis \<Rightarrow> ready_job_lease_row list tx" where
  "claim_ready_runtime env queue max_batch deadline aging =
    tx_bind (select_lane env queue aging) (\<lambda>selected.
      case selected of
        None \<Rightarrow> tx_ret []
      | Some c \<Rightarrow>
          tx_bind (tx_get (\<lambda>s. case cn_target c of
              None \<Rightarrow> first_segment s (cn_lane c) (cn_claim_seq c) | Some t \<Rightarrow> Some t)) (\<lambda>target.
            case target of
              None \<Rightarrow> tx_ret []
            | Some (slot, generation, _) \<Rightarrow>
                tx_bind (catch_up (cn_lane c) (cn_claim_seq c) (slot, generation)) (\<lambda>route.
                  case route of
                    None \<Rightarrow> tx_ret []
                  | Some ((slot, generation), claim_seq) \<Rightarrow>
                      claim_from deadline aging max_batch (slot, generation, cn_lane c) claim_seq (cn_next_seq c))))"

subsection \<open>The claim paths of the store\<close>

definition claim_ready_rows_tx ::
  "claim_env \<Rightarrow> string \<Rightarrow> int \<Rightarrow> millis \<Rightarrow> millis \<Rightarrow> ready_job_lease_row list tx" where
  "claim_ready_rows_tx env queue max_batch deadline_duration aging_interval =
    claim_ready_runtime env queue max_batch deadline_duration aging_interval"

text \<open>The tables that the advance of the cursors reads, and the advance as a step of the store.\<close>

definition store_claim_tables :: "store \<Rightarrow> claim_tables" where
  "store_claim_tables s =
    \<lparr> ct_heads = s_claim_heads s, ct_attempts = s_claim_attempts s,
      ct_leases = map (\<lambda>l. \<lparr> lf_job_id = ls_job_id l, lf_run_lease = ls_run_lease l, lf_ready_slot = ls_ready_slot l,
        lf_ready_generation = ls_ready_generation l, lf_queue = ls_queue l, lf_enqueue_shard = ls_enqueue_shard l,
        lf_lane_seq = ls_lane_seq l \<rparr>) (s_leases s) \<rparr>"

definition advance_cursors_tx :: "(nat \<times> bool) list \<Rightarrow> ready_job_lease_row list \<Rightarrow> unit tx" where
  "advance_cursors_tx fails claimed =
    tx_set (\<lambda>s. s\<lparr>s_claim_heads :=
      ct_heads (advance_claim_cursors fails (claim_cursor_advances claimed) (store_claim_tables s))\<rparr>)"

text \<open>
  The transaction of a claim.  Its rows are converted before the commit when neither receipts nor a deadline
  would let a failed conversion be rescued, and after it otherwise.
\<close>

definition claim_transaction ::
  "claim_env \<Rightarrow> string \<Rightarrow> int \<Rightarrow> millis \<Rightarrow> millis \<Rightarrow>
     (ready_job_lease_row list \<times> claimed_runtime_job list option) tx" where
  "claim_transaction env queue max_batch deadline_duration aging_interval =
    in_tx (
      tx_bind (claim_ready_rows_tx env queue max_batch deadline_duration aging_interval) (\<lambda>claimed.
      tx_bind (sync_rows (\<lambda>_. Running) (Some Available) claimed) (\<lambda>_.
      tx_bind (tx_get (\<lambda>s. cfg_lease_claim_receipts (s_config s))) (\<lambda>receipts.
        if \<not> receipts \<and> deadline_duration = 0
        then tx_bind (tx_lift (res_map (\<lambda>row. into_claimed_runtime_job row receipts) claimed)) (\<lambda>converted.
               tx_ret (claimed, Some converted))
        else tx_ret (claimed, None)))))"

definition claim_runtime_batch_with_aging_physical ::
  "claim_env \<Rightarrow> (nat \<times> bool) list \<Rightarrow> string \<Rightarrow> int \<Rightarrow> millis \<Rightarrow> millis \<Rightarrow> claimed_runtime_job list tx" where
  "claim_runtime_batch_with_aging_physical env fails queue max_batch deadline_duration aging_interval =
    (if max_batch \<le> 0 then tx_ret []
     else
       tx_bind (claim_transaction env queue max_batch deadline_duration aging_interval) (\<lambda>(claimed, converted).
       tx_bind (advance_cursors_tx fails claimed) (\<lambda>_.
         case converted of
           Some jobs \<Rightarrow> tx_ret jobs
         | None \<Rightarrow>
             tx_bind (tx_get (\<lambda>s. cfg_lease_claim_receipts (s_config s))) (\<lambda>receipts.
               tx_lift (res_map (\<lambda>row. into_claimed_runtime_job row receipts) claimed)))))"

definition probe_stripes :: "string list \<Rightarrow> string list tx" where
  "probe_stripes stripe_queues s =
    (let n = length stripe_queues; (start, local') = stripe_probe_start n (s_local s) in
     (Inr (map (\<lambda>offset. stripe_queues ! ((start + offset) mod n)) [0..<n]), s\<lparr>s_local := local'\<rparr>))"

text \<open>An error is returned only when nothing has been claimed yet.\<close>

fun claim_stripes ::
  "(string \<Rightarrow> int \<Rightarrow> claimed_runtime_job list tx) \<Rightarrow> int \<Rightarrow> string list \<Rightarrow> claimed_runtime_job list \<Rightarrow>
     claimed_runtime_job list tx" where
  "claim_stripes claim max_batch [] claimed = tx_ret claimed"
| "claim_stripes claim max_batch (queue # queues) claimed =
    (if max_batch \<le> int (length claimed) then tx_ret claimed
     else (\<lambda>s. case claim queue (max_batch - int (length claimed)) s of
             (Inr jobs, s') \<Rightarrow> claim_stripes claim max_batch queues (claimed @ jobs) s'
           | (Inl e, s') \<Rightarrow> if claimed = [] then (Inl e, s') else (Inr claimed, s')))"

definition claim_runtime_batch_with_aging ::
  "claim_env \<Rightarrow> (nat \<times> bool) list \<Rightarrow> string \<Rightarrow> int \<Rightarrow> millis \<Rightarrow> millis \<Rightarrow> claimed_runtime_job list tx" where
  "claim_runtime_batch_with_aging env fails queue max_batch deadline_duration aging_interval =
    (let claim = \<lambda>q n. claim_runtime_batch_with_aging_physical env fails q n deadline_duration aging_interval in
     if max_batch \<le> 0 then tx_ret []
     else
       tx_bind (tx_get (\<lambda>s. physical_queues_for_logical (s_config s) queue)) (\<lambda>stripe_queues.
         if 1 < length stripe_queues
         then tx_bind (probe_stripes stripe_queues) (\<lambda>order. claim_stripes claim max_batch order [])
         else claim (hd stripe_queues) max_batch))"

definition claim_runtime_batch ::
  "claim_env \<Rightarrow> (nat \<times> bool) list \<Rightarrow> string \<Rightarrow> int \<Rightarrow> millis \<Rightarrow> claimed_runtime_job list tx" where
  "claim_runtime_batch env fails queue max_batch deadline_duration =
    claim_runtime_batch_with_aging env fails queue max_batch deadline_duration 0"

definition claim_job_batch ::
  "claim_env \<Rightarrow> (nat \<times> bool) list \<Rightarrow> string \<Rightarrow> int \<Rightarrow> millis \<Rightarrow> job_row list tx" where
  "claim_job_batch env fails queue max_batch deadline_duration =
    tx_bind (claim_runtime_batch env fails queue max_batch deadline_duration) (\<lambda>claimed. tx_ret (map cj_job claimed))"

text \<open>\<^verbatim>\<open>claim_batch\<close>: all stripes in one transaction, without deadline, aging or unique claims.\<close>

fun claim_batch_rows :: "claim_env \<Rightarrow> int \<Rightarrow> string list \<Rightarrow> ready_job_lease_row list \<Rightarrow> ready_job_lease_row list tx" where
  "claim_batch_rows env max_batch [] claimed = tx_ret claimed"
| "claim_batch_rows env max_batch (queue # queues) claimed =
    (if max_batch \<le> int (length claimed) then tx_ret claimed
     else
       tx_bind (claim_ready_rows_tx env queue (max_batch - int (length claimed)) 0 0) (\<lambda>rows.
         claim_batch_rows env max_batch queues (claimed @ rows)))"

definition claim_batch :: "claim_env \<Rightarrow> (nat \<times> bool) list \<Rightarrow> string \<Rightarrow> int \<Rightarrow> claimed_entry list tx" where
  "claim_batch env fails queue max_batch =
    (if max_batch \<le> 0 then tx_ret []
     else
       tx_bind (in_tx (
         tx_bind (tx_get (\<lambda>s. physical_queues_for_logical (s_config s) queue)) (\<lambda>stripe_queues.
         tx_bind (probe_stripes stripe_queues) (\<lambda>order. claim_batch_rows env max_batch order [])))) (\<lambda>claimed.
       tx_bind (advance_cursors_tx fails claimed) (\<lambda>_.
       tx_bind (tx_get (\<lambda>s. cfg_lease_claim_receipts (s_config s))) (\<lambda>receipts.
         tx_ret (map (\<lambda>row. claim_ref row receipts) claimed)))))"

section \<open>Properties of claims\<close>

subsection \<open>The invariant of the lanes\<close>

text \<open>A ready row is spent when its attempt is recorded or the row was removed.\<close>

definition spent :: "store \<Rightarrow> ready_transition_row \<Rightarrow> bool" where
  "spent s r \<longleftrightarrow> tombstoned s (part_key r) (rt_lane_seq r) \<or> attempted s (part_key r) (rt_lane_seq r)"

text \<open>
  Positions are unique, later positions of a lane lie in later partitions, segments cover the rows and end at one, a recorded
  attempt ends at a row, and every row behind a cursor or below the end of a recorded attempt of its
  partition is spent.
\<close>

definition positions_wf :: "store \<Rightarrow> bool" where
  "positions_wf s \<longleftrightarrow>
    distinct (map ready_pos (s_ready s)) \<and>
    list_all (\<lambda>r. list_all (\<lambda>r'. row_lane r = row_lane r' \<longrightarrow>
      (rt_lane_seq r < rt_lane_seq r' \<longrightarrow> rt_ready_generation r \<le> rt_ready_generation r') \<and>
      (rt_ready_generation r = rt_ready_generation r' \<longrightarrow> rt_ready_slot r = rt_ready_slot r')) (s_ready s)) (s_ready s)"

definition segments_wf :: "store \<Rightarrow> bool" where
  "segments_wf s \<longleftrightarrow>
    list_all (\<lambda>r. list_ex (\<lambda>(slot, generation, seg). part_key r = (slot, generation, segment_lane seg) \<and>
      rt_lane_seq r < sg_next_lane_seq seg) (s_segments s)) (s_ready s) \<and>
    list_all (\<lambda>(slot, generation, seg). list_ex (\<lambda>r. part_key r = (slot, generation, segment_lane seg) \<and>
      rt_lane_seq r = sg_next_lane_seq seg - 1) (s_ready s)) (s_segments s)"

definition attempts_wf :: "store \<Rightarrow> bool" where
  "attempts_wf s \<longleftrightarrow>
    list_all (\<lambda>b. list_ex (\<lambda>r. part_key r = batch_key b \<and> rt_lane_seq r = cb_next_lane_seq b - 1) (s_ready s) \<and>
      list_all (\<lambda>r. part_key r = batch_key b \<and> rt_lane_seq r < cb_next_lane_seq b \<longrightarrow> spent s r) (s_ready s))
    (s_claim_attempts s)"

definition cursors_wf :: "store \<Rightarrow> bool" where
  "cursors_wf s \<longleftrightarrow>
    list_all (\<lambda>r. case s_claim_heads s (row_lane r) of None \<Rightarrow> True | Some c \<Rightarrow> rt_lane_seq r < c \<longrightarrow> spent s r) (s_ready s) \<and>
    (\<forall>c \<in> ran (s_claim_heads s). 1 \<le> c)"

definition claim_wf :: "store \<Rightarrow> bool" where
  "claim_wf s \<longleftrightarrow> positions_wf s \<and> segments_wf s \<and> attempts_wf s \<and> cursors_wf s"

lemma same_position:
  assumes "positions_wf s" "r \<in> set (s_ready s)" "r' \<in> set (s_ready s)" "row_lane r = row_lane r'" "rt_lane_seq r = rt_lane_seq r'"
  shows "r = r'"
proof -
  have "inj_on ready_pos (set (s_ready s))" using assms(1) by (simp add: positions_wf_def distinct_map)
  from inj_onD [OF this _ assms(2,3)] assms(4,5) show ?thesis by (simp add: ready_pos_def)
qed

lemma lane_order:
  assumes "positions_wf s" "r \<in> set (s_ready s)" "r' \<in> set (s_ready s)" "row_lane r = row_lane r'"
  shows "rt_lane_seq r < rt_lane_seq r' \<Longrightarrow> rt_ready_generation r \<le> rt_ready_generation r'"
    and "rt_ready_generation r = rt_ready_generation r' \<Longrightarrow> rt_ready_slot r = rt_ready_slot r'"
  using assms unfolding positions_wf_def list_all_iff by blast+

lemma later_generation:
  assumes "positions_wf s" "r \<in> set (s_ready s)" "r' \<in> set (s_ready s)" "row_lane r = row_lane r'" "rt_lane_seq r \<le> rt_lane_seq r'"
  shows "rt_ready_generation r \<le> rt_ready_generation r'"
proof (cases "rt_lane_seq r = rt_lane_seq r'")
  case True
  then show ?thesis using same_position [OF assms(1-4)] by simp
next
  case False
  with assms(5) show ?thesis using lane_order(1) [OF assms(1-4)] by simp
qed

lemma same_generation:
  assumes "positions_wf s" "r \<in> set (s_ready s)" "r' \<in> set (s_ready s)" "row_lane r = row_lane r'"
    and "rt_ready_generation r = rt_ready_generation r'"
  shows "part_key r = part_key r'"
  using lane_order(2) [OF assms(1-4)] assms(4,5) by (simp add: part_key_def)

lemma first_of_sorted:
  assumes "first_of (sort_key f (filter P xs)) = Some x"
  shows "x \<in> set xs \<and> P x \<and> (\<forall>y \<in> set xs. P y \<longrightarrow> f x \<le> f y)"
proof -
  let ?l = "sort_key f (filter P xs)"
  obtain ys where l: "?l = x # ys" using assms by (auto simp: first_of_def split: list.splits)
  have "sorted (map f ?l)" "set ?l = {y \<in> set xs. P y}" by simp_all
  then have "x \<in> set xs \<and> P x" "\<forall>y \<in> set ?l. f x \<le> f y" unfolding l by auto
  then show ?thesis by simp
qed

lemma first_of_none: "first_of (sort_key f (filter P xs)) = None \<longleftrightarrow> (\<forall>x \<in> set xs. \<not> P x)"
proof -
  have "first_of ys = None \<longleftrightarrow> ys = []" for ys :: "'a list" by (cases ys) (simp_all add: first_of_def)
  moreover have "sort_key f (filter P xs) = [] \<longleftrightarrow> filter P xs = []" by (metis length_0_conv length_sort)
  ultimately show ?thesis by (simp add: filter_empty_conv)
qed

lemma row_segment:
  assumes "segments_wf s" "r \<in> set (s_ready s)"
  obtains h where "(rt_ready_slot r, rt_ready_generation r, h) \<in> set (s_segments s)" "segment_lane h = row_lane r"
    "rt_lane_seq r < sg_next_lane_seq h"
proof -
  obtain sl gn h where "(sl, gn, h) \<in> set (s_segments s)" "part_key r = (sl, gn, segment_lane h)"
      "rt_lane_seq r < sg_next_lane_seq h"
    using bspec [OF conjunct1 [OF assms(1) [unfolded segments_wf_def list_all_iff list_ex_iff]] assms(2)] by auto
  then show thesis by (intro that [of h]) (simp_all add: part_key_def)
qed

lemma segment_row:
  assumes "segments_wf s" "(slot, generation, g) \<in> set (s_segments s)"
  obtains y where "y \<in> set (s_ready s)" "part_key y = (slot, generation, segment_lane g)" "rt_lane_seq y = sg_next_lane_seq g - 1"
  using bspec [OF conjunct2 [OF assms(1) [unfolded segments_wf_def list_all_iff list_ex_iff]] assms(2)] that by auto

text \<open>Between the cursor and a row of the first segment's partition there are only rows of that partition.\<close>

lemma target_partition:
  assumes wf: "positions_wf s" "segments_wf s" and seg: "first_segment s lane c = Some (slot, generation, t)"
    and r: "r \<in> set (s_ready s)" "row_lane r = lane" "c \<le> rt_lane_seq r"
    and x: "x \<in> set (s_ready s)" "part_key x = (slot, generation, lane)" "rt_lane_seq r \<le> rt_lane_seq x"
  shows "part_key r = (slot, generation, lane)"
proof -
  obtain g where g: "(slot, generation, g) \<in> set (s_segments s)" "segment_lane g = lane"
    and least: "\<And>sl gn h. (sl, gn, h) \<in> set (s_segments s) \<Longrightarrow> segment_lane h = lane \<Longrightarrow> c < sg_next_lane_seq h \<Longrightarrow>
      sg_next_lane_seq g \<le> sg_next_lane_seq h"
    using seg unfolding first_segment_def by (fastforce dest!: first_of_sorted)
  obtain y where y: "y \<in> set (s_ready s)" "part_key y = (slot, generation, lane)" "rt_lane_seq y = sg_next_lane_seq g - 1"
    using segment_row [OF wf(2) g(1)] g(2) by metis
  obtain h where h: "(rt_ready_slot r, rt_ready_generation r, h) \<in> set (s_segments s)" "segment_lane h = lane"
      "rt_lane_seq r < sg_next_lane_seq h"
    using row_segment [OF wf(2) r(1)] r(2) by metis
  obtain z where z: "z \<in> set (s_ready s)" "part_key z = part_key r" "rt_lane_seq z = sg_next_lane_seq h - 1"
    using segment_row [OF wf(2) h(1)] h(2) r(2) by (metis part_key_def)
  have "rt_lane_seq y \<le> rt_lane_seq z" using least [OF h(1,2)] h(3) r(3) y(3) z(3) by simp
  then have "generation \<le> rt_ready_generation r"
    using later_generation [OF wf(1) y(1) z(1)] y(2) z(2) r(2) by (simp add: part_key_def)
  moreover have "rt_ready_generation r \<le> generation"
    using later_generation [OF wf(1) r(1) x(1)] r(2) x(2,3) by (simp add: part_key_def)
  ultimately show ?thesis using same_generation [OF wf(1) r(1) x(1)] r(2) x(2) by (simp add: part_key_def)
qed

subsection \<open>Moving the cursor\<close>

abbreviation moved_to :: "store \<Rightarrow> lane \<Rightarrow> int \<Rightarrow> store" where
  "moved_to s lane n \<equiv> s\<lparr>s_claim_heads := (s_claim_heads s)(lane \<mapsto> n)\<rparr>"

lemma moved_to_same: "s_claim_heads s lane = Some c \<Longrightarrow> moved_to s lane c = s"
  by (simp add: fun_upd_idem)

lemma spent_heads [simp]: "spent (s\<lparr>s_claim_heads := h\<rparr>) r = spent s r"
  by (simp add: spent_def tombstoned_def attempted_def)

lemma first_segment_heads [simp]: "first_segment (s\<lparr>s_claim_heads := h\<rparr>) lane c = first_segment s lane c"
  by (simp add: first_segment_def)

lemma claim_wf_heads:
  "claim_wf (s\<lparr>s_claim_heads := h\<rparr>) \<longleftrightarrow>
    positions_wf s \<and> segments_wf s \<and> attempts_wf s \<and> cursors_wf (s\<lparr>s_claim_heads := h\<rparr>)"
  by (simp add: claim_wf_def positions_wf_def segments_wf_def attempts_wf_def)

lemma cursors_wf_heads:
  "cursors_wf (s\<lparr>s_claim_heads := h\<rparr>) \<longleftrightarrow>
    list_all (\<lambda>r. case h (row_lane r) of None \<Rightarrow> True | Some c \<Rightarrow> rt_lane_seq r < c \<longrightarrow> spent s r) (s_ready s) \<and>
    (\<forall>c \<in> ran h. 1 \<le> c)"
  by (simp add: cursors_wf_def cong: option.case_cong)

lemma cursor_spent:
  assumes "claim_wf s" "s_claim_heads s lane = Some c" "r \<in> set (s_ready s)" "row_lane r = lane" "rt_lane_seq r < c"
  shows "spent s r"
proof -
  have "case s_claim_heads s (row_lane r) of None \<Rightarrow> True | Some c \<Rightarrow> rt_lane_seq r < c \<longrightarrow> spent s r"
    using assms(1,3) by (simp add: claim_wf_def cursors_wf_def list_all_iff)
  with assms(2,4,5) show ?thesis by simp
qed

lemma cursor_positive: "claim_wf s \<Longrightarrow> s_claim_heads s lane = Some c \<Longrightarrow> 1 \<le> c"
  using ranI [of "s_claim_heads s" lane c] by (simp add: claim_wf_def cursors_wf_def)

lemma moved_wf:
  assumes wf: "claim_wf s" and c: "s_claim_heads s lane = Some c" "c \<le> n"
    and passed: "\<And>r. r \<in> set (s_ready s) \<Longrightarrow> row_lane r = lane \<Longrightarrow> c \<le> rt_lane_seq r \<Longrightarrow> rt_lane_seq r < n \<Longrightarrow> spent s r"
  shows "claim_wf (moved_to s lane n)"
proof -
  have "spent s r" if "r \<in> set (s_ready s)" "row_lane r = lane" "rt_lane_seq r < n" for r
    using passed [OF that(1,2)] cursor_spent [OF wf c(1) that(1,2)] that(3) by (cases "rt_lane_seq r < c") auto
  then have "list_all (\<lambda>r. case ((s_claim_heads s)(lane \<mapsto> n)) (row_lane r) of None \<Rightarrow> True
      | Some c \<Rightarrow> rt_lane_seq r < c \<longrightarrow> spent s r) (s_ready s)"
    using wf by (auto simp: claim_wf_def cursors_wf_def list_all_iff)
  moreover have "\<forall>m \<in> ran ((s_claim_heads s)(lane \<mapsto> n)). 1 \<le> m"
  proof
    fix m assume "m \<in> ran ((s_claim_heads s)(lane \<mapsto> n))"
    then obtain l where "((s_claim_heads s)(lane \<mapsto> n)) l = Some m" unfolding ran_def by blast
    then show "1 \<le> m" using cursor_positive [OF wf, of l m] cursor_positive [OF wf c(1)] c(2) by (simp split: if_splits)
  qed
  moreover have "positions_wf s \<and> segments_wf s \<and> attempts_wf s" using wf by (simp add: claim_wf_def)
  ultimately show ?thesis unfolding claim_wf_heads cursors_wf_heads by blast
qed

lemma set_claim_cursor_to:
  assumes "claim_wf s" "s_claim_heads s lane = Some c" "c \<le> n"
  shows "set_claim_cursor lane n s = (Inr (), moved_to s lane n)"
proof -
  have "set_sequence_next c n = n"
    using cursor_positive [OF assms(1,2)] assms(3) by (auto simp: set_sequence_next_def Let_def)
  with assms(2) show ?thesis by (simp add: set_claim_cursor_def tx_simps)
qed

lemma batch_row:
  assumes "attempts_wf s" "b \<in> set (s_claim_attempts s)"
  obtains r where "r \<in> set (s_ready s)" "part_key r = batch_key b" "rt_lane_seq r = cb_next_lane_seq b - 1"
  using assms unfolding attempts_wf_def list_all_iff list_ex_iff by blast

lemma below_batch_spent:
  assumes "attempts_wf s" "b \<in> set (s_claim_attempts s)" "r \<in> set (s_ready s)" "part_key r = batch_key b"
    "rt_lane_seq r < cb_next_lane_seq b"
  shows "spent s r"
  using assms unfolding attempts_wf_def list_all_iff by blast

lemma part_key_lane: "part_key r = (slot, generation, lane) \<Longrightarrow> row_lane r = lane"
  by (simp add: part_key_def)

text \<open>Catching up over recorded attempts.\<close>

lemma catch_up_cases:
  assumes wf: "claim_wf s" and c: "s_claim_heads s lane = Some c" and seg: "first_segment s lane c = Some (slot, generation, t)"
  obtains n where "c \<le> n" "claim_wf (moved_to s lane n)" "first_segment s lane n = None" "c < n"
      "catch_up lane c (slot, generation) s = (Inr None, moved_to s lane n)"
  | n sl gn t' where "c \<le> n" "claim_wf (moved_to s lane n)" "first_segment s lane n = Some (sl, gn, t')"
      "catch_up lane c (slot, generation) s = (Inr (Some ((sl, gn), n)), moved_to s lane n)"
proof (cases "evidence_next s (slot, generation, lane) c")
  case None
  then have "catch_up lane c (slot, generation) s = (Inr (Some ((slot, generation), c)), moved_to s lane c)"
    by (simp add: catch_up_def tx_simps moved_to_same [OF c])
  with wf seg show thesis by (intro that(2) [of c slot generation t]) (simp_all add: moved_to_same [OF c])
next
  case (Some n)
  then obtain b where b: "b \<in> set (s_claim_attempts s)" "batch_key b = (slot, generation, lane)" "cb_next_lane_seq b = n" "c < n"
    by (auto simp: evidence_next_def Let_def split: if_splits dest!: Max_in [OF finite_set, unfolded set_empty])
  have pos: "positions_wf s" "segments_wf s" "attempts_wf s" using wf by (simp_all add: claim_wf_def)
  obtain x where x: "x \<in> set (s_ready s)" "part_key x = (slot, generation, lane)" "rt_lane_seq x = n - 1"
    using batch_row [OF pos(3) b(1)] b(2,3) by metis
  have "spent s r" if "r \<in> set (s_ready s)" "row_lane r = lane" "c \<le> rt_lane_seq r" "rt_lane_seq r < n" for r
    using target_partition [OF pos(1,2) seg that(1-3) x(1,2)] below_batch_spent [OF pos(3) b(1) that(1)] b(2,3) x(3) that(4)
    by simp
  then have wf': "claim_wf (moved_to s lane n)" using b(4) by (intro moved_wf [OF wf c]) simp_all
  have run: "catch_up lane c (slot, generation) s =
      (Inr (map_option (\<lambda>(sl, gn, _). ((sl, gn), n)) (first_segment s lane n)), moved_to s lane n)"
    using Some b(4) by (simp add: catch_up_def tx_simps tx_bind_def set_claim_cursor_to [OF wf c])
  show thesis
  proof (cases "first_segment s lane n")
    case None
    with wf' run b(4) show thesis by (intro that(1) [of n]) simp_all
  next
    case (Some seg')
    then obtain sl gn t' where "first_segment s lane n = Some (sl, gn, t')" by (cases seg') auto
    with wf' run b(4) show thesis by (intro that(2) [of n sl gn t']) simp_all
  qed
qed

text \<open>The head of the partition exists, and everything before it in the lane is spent.\<close>

lemma seek_head_found:
  assumes wf: "claim_wf s" and c: "s_claim_heads s lane = Some c" and seg: "first_segment s lane c = Some (slot, generation, t)"
  obtains r where "r \<in> set (s_ready s)" "part_key r = (slot, generation, lane)" "c \<le> rt_lane_seq r"
    "claim_wf (moved_to s lane (rt_lane_seq r))"
    "\<And>x. x \<in> set (s_ready s) \<Longrightarrow> part_key x = (slot, generation, lane) \<Longrightarrow> c \<le> rt_lane_seq x \<Longrightarrow> rt_lane_seq r \<le> rt_lane_seq x"
    "seek_head (slot, generation, lane) c s = (Inr (Some (r, rt_lane_seq r)), moved_to s lane (rt_lane_seq r))"
proof -
  let ?key = "(slot, generation, lane)"
  have pos: "positions_wf s" "segments_wf s" using wf by (simp_all add: claim_wf_def)
  obtain g where g: "(slot, generation, g) \<in> set (s_segments s)" "segment_lane g = lane" "c < sg_next_lane_seq g"
    using seg unfolding first_segment_def by (fastforce dest!: first_of_sorted)
  obtain y where y: "y \<in> set (s_ready s)" "part_key y = ?key" "c \<le> rt_lane_seq y"
    using segment_row [OF pos(2) g(1)] g(2,3) by (metis add_le_cancel_right diff_add_cancel zless_imp_add1_zle)
  obtain r where head: "first_of (key_rows s ?key c) = Some r"
    using y unfolding key_rows_def by (cases "first_of (key_rows s ?key c)") (auto simp: key_rows_def first_of_none)
  note r = first_of_sorted [OF head [unfolded key_rows_def]]
  have "spent s x" if "x \<in> set (s_ready s)" "row_lane x = lane" "c \<le> rt_lane_seq x" "rt_lane_seq x < rt_lane_seq r" for x
    using target_partition [OF pos seg that(1-3), of r] r that by fastforce
  then have wf': "claim_wf (moved_to s lane (rt_lane_seq r))" using r by (intro moved_wf [OF wf c]) simp_all
  have "seek_head ?key c s = (Inr (Some (r, rt_lane_seq r)), moved_to s lane (rt_lane_seq r))"
  proof (cases "c < rt_lane_seq r")
    case True
    then show ?thesis
      by (simp add: seek_head_def tx_simps head tx_bind_def set_claim_cursor_to [OF wf c])
  next
    case False
    then have "rt_lane_seq r = c" using r by simp
    then show ?thesis using moved_to_same [OF c] by (simp add: seek_head_def tx_simps head)
  qed
  with r wf' show thesis by (intro that [of r]) simp_all
qed

lemma strict_gap:
  assumes "sorted_wrt (<) (xs :: int list)" "i \<le> j" "j < length xs"
  shows "xs ! i + int (j - i) \<le> xs ! j"
  using assms(2,3)
proof (induction j rule: dec_induct)
  case (step n)
  have "xs ! n < xs ! Suc n" using assms(1) step.prems by (simp add: sorted_wrt_nth_less)
  with step show ?case by simp
qed simp

lemma run_prefix:
  assumes "sorted_wrt (<) (xs :: int list)" "\<forall>x \<in> set xs. c \<le> x" "k < length xs" "xs ! k = c + int k" "j \<le> k"
  shows "xs ! j = c + int j"
proof -
  have "c \<le> xs ! 0" using assms(2,3) by (cases xs) auto
  then show ?thesis using strict_gap [OF assms(1), of 0 j] strict_gap [OF assms(1,5,3)] assms(3-5) by simp
qed

lemma key_rows_set [simp]:
  "set (key_rows s key c) = {r \<in> set (s_ready s). part_key r = key \<and> c \<le> rt_lane_seq r}"
  by (auto simp: key_rows_def)

lemma key_rows_strict:
  assumes "positions_wf s"
  shows "sorted_wrt (\<lambda>a b. rt_lane_seq a < rt_lane_seq b) (key_rows s key c)"
proof -
  let ?f = "filter (\<lambda>r. part_key r = key \<and> c \<le> rt_lane_seq r) (s_ready s)"
  have "inj_on rt_lane_seq (set ?f)"
  proof (rule inj_onI)
    fix a b assume "a \<in> set ?f" "b \<in> set ?f" "rt_lane_seq a = rt_lane_seq b"
    then show "a = b" by (intro same_position [OF assms]) (auto simp: part_key_def)
  qed
  moreover have "distinct (s_ready s)" using assms by (simp add: positions_wf_def distinct_map)
  ultimately have "distinct (map rt_lane_seq (key_rows s key c))" by (simp add: key_rows_def distinct_map)
  moreover have "sorted (map rt_lane_seq (key_rows s key c))" by (simp add: key_rows_def)
  ultimately show ?thesis using strict_sorted_iff [of "map rt_lane_seq (key_rows s key c)"] by (simp add: sorted_wrt_map)
qed

text \<open>The skipped run: every position up to its end is a spent row of the partition.\<close>

lemma spent_next_run:
  assumes pos: "positions_wf s" and n: "spent_next s key c limit = Some n" and i: "c \<le> i" "i < n"
  shows "\<exists>r \<in> set (s_ready s). part_key r = key \<and> rt_lane_seq r = i \<and> attempt_spent s key r"
proof -
  define rows where "rows = filter (attempt_spent s key) (take limit (key_rows s key c))"
  define xs where "xs = map rt_lane_seq rows"
  have strict: "sorted_wrt (<) xs"
    unfolding xs_def rows_def sorted_wrt_map by (intro sorted_wrt_filter sorted_wrt_take key_rows_strict [OF pos])
  have rows: "r \<in> set (s_ready s) \<and> part_key r = key \<and> c \<le> rt_lane_seq r \<and> attempt_spent s key r" if "r \<in> set rows" for r
    using that in_set_takeD [of r limit "key_rows s key c"] by (auto simp: rows_def)
  let ?run = "filter (\<lambda>(i, seq). seq - int (i + 1) = c - 1) (enumerate 0 xs)"
  have run: "?run \<noteq> []" "n = Max (set (map snd ?run)) + 1"
    using n by (auto simp: spent_next_def xs_def rows_def Let_def split: if_splits)
  have "set (map snd ?run) \<noteq> {}" unfolding set_empty map_is_Nil_conv by (rule run(1))
  then have "Max (set (map snd ?run)) \<in> set (map snd ?run)" by (intro Max_in finite_set)
  then obtain k where k: "k < length xs" "xs ! k = n - 1" "xs ! k = c + int k"
    using run(2) by (auto simp: in_set_enumerate_eq)
  let ?j = "nat (i - c)"
  have "xs ! ?j = i" using run_prefix [OF strict _ k(1,3), of ?j] rows k(2,3) i by (auto simp: xs_def)
  moreover have "?j < length xs" using k i by simp
  ultimately have "i \<in> set xs" by (metis nth_mem)
  then show ?thesis using rows by (auto simp: xs_def)
qed

lemma attempt_spent_receipts:
  "cfg_lease_claim_receipts (s_config s) \<Longrightarrow> part_key r = key \<Longrightarrow> attempt_spent s key r = spent s r"
  by (auto simp: attempt_spent_def spent_def)

lemma key_rows_head:
  assumes "positions_wf s" "r \<in> set (s_ready s)" "part_key r = key" "rt_lane_seq r = c"
  obtains rest where "key_rows s key c = r # rest"
proof (cases "key_rows s key c")
  case Nil
  then have "r \<notin> set (key_rows s key c)" by simp
  with assms show thesis by simp
next
  case (Cons x rest)
  have x: "x \<in> set (s_ready s)" "part_key x = key" "c \<le> rt_lane_seq x"
    using key_rows_set [of s key c] unfolding Cons by auto
  have "r \<in> set (key_rows s key c)" using assms by simp
  then have "r = x \<or> rt_lane_seq x < rt_lane_seq r" using key_rows_strict [OF assms(1), of key c] unfolding Cons by auto
  with x(3) assms(4) have "r = x" by simp
  with Cons show thesis by (intro that) simp
qed

lemma skip_spent_moves:
  assumes wf: "claim_wf s" and c: "s_claim_heads s lane = Some c" and receipts: "cfg_lease_claim_receipts (s_config s)"
    and r: "r \<in> set (s_ready s)" "part_key r = (slot, generation, lane)" "rt_lane_seq r = c"
      "attempt_spent s (slot, generation, lane) r" and limit: "0 < limit"
  obtains n where "c < n" "claim_wf (moved_to s lane n)"
    "skip_spent (slot, generation, lane) c limit s = (Inr (), moved_to s lane n)"
proof -
  let ?key = "(slot, generation, lane)"
  have pos: "positions_wf s" using wf by (simp add: claim_wf_def)
  obtain rest where rest: "key_rows s ?key c = r # rest" using key_rows_head [OF pos r(1-3)] .
  obtain k where limit': "limit = Suc k" using limit by (cases limit) auto
  let ?spent = "map rt_lane_seq (filter (attempt_spent s ?key) (take limit (key_rows s ?key c)))"
  let ?run = "filter (\<lambda>(i, seq). seq - int (i + 1) = c - 1) (enumerate 0 ?spent)"
  have first: "(0, c) \<in> set ?run" using r(3,4) by (simp add: rest limit')
  then have "?run \<noteq> []" by (metis empty_iff list.set(1))
  then have n: "spent_next s ?key c limit = Some (Max (set (map snd ?run)) + 1)" (is "_ = Some ?n")
    unfolding spent_next_def Let_def by simp
  have "c \<in> set (map snd ?run)" using first by force
  then have less: "c < ?n" using Max_ge [OF finite_set] by (simp only: zless_add1_eq le_less [symmetric])
  have "spent s x" if x: "x \<in> set (s_ready s)" "row_lane x = lane" "c \<le> rt_lane_seq x" "rt_lane_seq x < ?n" for x
  proof -
    obtain y where y: "y \<in> set (s_ready s)" "part_key y = ?key" "rt_lane_seq y = rt_lane_seq x" "attempt_spent s ?key y"
      using spent_next_run [OF pos n x(3,4)] by blast
    then have "y = x" using same_position [OF pos y(1) x(1)] x(2) by (simp add: part_key_def)
    with y(2,4) show ?thesis using attempt_spent_receipts [OF receipts] by simp
  qed
  then have "claim_wf (moved_to s lane ?n)" using less by (intro moved_wf [OF wf c]) simp_all
  moreover have "skip_spent ?key c limit s = (Inr (), moved_to s lane ?n)"
    unfolding skip_spent_def tx_bind_def tx_get_def n using set_claim_cursor_to [OF wf c, of ?n] less
    by (simp only: prod.case sum.case option.case fst_conv snd_conv less_imp_le)
  ultimately show thesis using less that by blast
qed

subsection \<open>What a claim records\<close>

lemma range_agg_proper: "(lo, hi) \<in> set (range_agg xs) \<Longrightarrow> lo < hi"
  by (induction xs arbitrary: lo hi) (fastforce split: list.splits if_splits)+

lemma range_agg_exact: "(\<exists>(lo, hi) \<in> set (range_agg xs). lo \<le> y \<and> y < hi) \<longleftrightarrow> y \<in> set xs"
proof (induction xs)
  case (Cons x xs)
  show ?case
  proof (cases "range_agg xs")
    case Nil
    with Cons show ?thesis by auto
  next
    case (Cons p rest)
    obtain lo hi where p: "p = (lo, hi)" by (cases p)
    have "lo < hi" using range_agg_proper [of lo hi xs] by (simp add: Cons p)
    with Cons.IH show ?thesis by (auto simp: Cons p)
  qed
qed simp

lemma attempt_batch_key [simp]: "batch_key (attempt_batch key seqs) = key"
  by (cases key) (simp add: batch_key_def attempt_batch_def)

lemma attempt_batch_covers:
  assumes "seqs \<noteq> []"
  shows "covers_seq (attempt_batch key seqs) y \<longleftrightarrow> y \<in> set seqs"
  using assms range_agg_exact [of seqs y]
  by (cases key) (auto simp: covers_seq_def attempt_batch_def zless_add1_eq le_less [symmetric])

lemma attempt_batch_next: "cb_next_lane_seq (attempt_batch key seqs) = Max (set seqs) + 1"
  by (cases key) (simp add: attempt_batch_def)

lemma grouped_mset:
  "distinct ps \<Longrightarrow> mset (concat (map (\<lambda>p. filter (\<lambda>x. f x = p) xs) ps)) = mset (filter (\<lambda>x. f x \<in> set ps) xs)"
proof (induction ps)
  case (Cons p ps)
  have "mset (filter (\<lambda>x. f x = p) xs) + mset (filter (\<lambda>x. f x \<in> set ps) xs) = mset (filter (\<lambda>x. f x = p \<or> f x \<in> set ps) xs)"
    using Cons.prems by (intro multiset_eqI) (auto simp: count_mset_gt_0)
  with Cons show ?case by simp
qed simp

text \<open>A result row against the ready row it claims, and against the item of a claim batch that records it.\<close>

definition claims_row :: "ready_transition_row \<Rightarrow> ready_job_lease_row \<Rightarrow> bool" where
  "claims_row r x \<longleftrightarrow>
    r_job_id x = r_job_id r \<and> r_run_lease x = r_run_lease r + 1 \<and> r_attempt x = r_attempt r + 1 \<and> r_kind x = r_kind r \<and>
    r_args x = r_args r \<and> part_key r = (rl_ready_slot x, rl_ready_generation x, r_queue x, rl_lane_priority x, rl_enqueue_shard x) \<and>
    rl_lane_seq x = rt_lane_seq r"

definition item_of_row :: "lease_claim_batch list \<Rightarrow> ready_job_lease_row \<Rightarrow> bool" where
  "item_of_row bs x \<longleftrightarrow>
    (\<exists>b \<in> set bs. \<exists>i < length (lb_items b).
       rl_claim_slot x = lb_claim_slot b \<and> rl_claim_batch_id x = Some (lb_batch_id b) \<and>
       rl_claim_batch_index x = Some (int i + 1) \<and> rl_receipt_id x = Some (it_receipt_id (lb_items b ! i)) \<and>
       it_job_id (lb_items b ! i) = r_job_id x \<and> it_run_lease (lb_items b ! i) = r_run_lease x \<and>
       it_lane_seq (lb_items b ! i) = rl_lane_seq x \<and> lb_ready_slot b = rl_ready_slot x \<and>
       lb_ready_generation b = rl_ready_generation x)"

lemma claim_row_claims: "claims_row (fst rp) ((claim_row now deadline cursor rp)
    \<lparr>rl_claim_slot := a, rl_receipt_id := b, rl_claim_batch_id := c, rl_claim_batch_index := d\<rparr>)"
  by (cases rp) (simp add: claims_row_def claim_row_def part_key_def row_lane_def)

lemma group_rows_seqs:
  "map rl_lane_seq (group_rows now deadline claim_slot cursor groups) =
    concat (map (\<lambda>(_, _, items). map (\<lambda>(_, r, _). rt_lane_seq r) items) groups)"
proof -
  have "map (\<lambda>x. rt_lane_seq (fst (snd (snd x)))) (enumerate n items) = map (\<lambda>(_, r, _). rt_lane_seq r) items"
    for n and items :: "(int \<times> ready_transition_row \<times> int) list"
    by (induction items arbitrary: n) auto
  then show ?thesis
    by (simp add: group_rows_def map_concat comp_def case_prod_beta' claim_row_def)
qed

lemma group_rows_recorded:
  assumes "x \<in> set (group_rows now deadline claim_slot cursor groups)"
    and key: "\<And>b p items i r q. (b, p, items) \<in> set groups \<Longrightarrow> (i, r, q) \<in> set items \<Longrightarrow> part_key r = key"
  shows "(\<exists>b p items i r q. (b, p, items) \<in> set groups \<and> (i, r, q) \<in> set items \<and> claims_row r x) \<and>
    item_of_row (group_batches now deadline claim_slot key groups) x"
proof -
  obtain b p items j receipt rp where g: "(b, p, items) \<in> set groups" "j < length items" "items ! j = (receipt, rp)"
    and x: "x = (claim_row now deadline cursor rp)\<lparr>rl_claim_slot := claim_slot, rl_receipt_id := Some receipt,
      rl_claim_batch_id := Some b, rl_claim_batch_index := Some (int j + 1)\<rparr>"
    using assms(1) by (auto simp: group_rows_def in_set_enumerate_eq)
  have mem: "(receipt, fst rp, snd rp) \<in> set items" using g(2,3) by (metis nth_mem prod.collapse)
  have cl: "claims_row (fst rp) x" unfolding x by (rule claim_row_claims)
  have k: "part_key (fst rp) = key" by (rule key [OF g(1) mem])
  have "item_of_row (group_batches now deadline claim_slot key groups) x"
    unfolding item_of_row_def
  proof (intro bexI exI conjI)
    show "claim_batch_row now deadline claim_slot key b p items \<in> set (group_batches now deadline claim_slot key groups)"
      using g(1) by (force simp: group_batches_def)
    show "j < length (lb_items (claim_batch_row now deadline claim_slot key b p items))"
      using g(2) by (cases key) (simp add: claim_batch_row_def)
  qed (use g(2,3) k in \<open>cases rp; cases key; simp add: x claim_batch_row_def claim_row_def part_key_def\<close>)+
  with g(1) mem cl show ?thesis by blast
qed

lemma claim_receipts_rows: "map snd (claim_receipts n live) = sort_key (\<lambda>(r, p). (p, rt_lane_seq r, r_job_id r)) live"
  by (simp add: claim_receipts_def comp_def case_prod_beta')

lemma claim_receipts_mem: "(i, rp) \<in> set (claim_receipts n live) \<Longrightarrow> rp \<in> set live"
  using claim_receipts_rows [of n live] by (metis (no_types) image_eqI list.set_map set_sort snd_conv)

lemma claim_groups_mem:
  "(b, p, items) \<in> set (claim_groups nb nr live) \<Longrightarrow> (i, r, q) \<in> set items \<Longrightarrow> (r, q) \<in> set live"
  by (auto simp: claim_groups_def priority_group_def intro: claim_receipts_mem)

lemma claim_groups_seqs:
  "mset (concat (map (\<lambda>(_, _, items). map (\<lambda>(_, r, _). rt_lane_seq r) items) (claim_groups nb nr live))) =
    mset (map (rt_lane_seq \<circ> fst) live)"
proof -
  let ?items = "claim_receipts nr live" and ?f = "\<lambda>x :: int \<times> ready_transition_row \<times> int. snd (snd x)"
  have groups: "map (\<lambda>(_, _, items). map (\<lambda>(_, r, _). rt_lane_seq r) items) (claim_groups nb nr live) =
      map (\<lambda>p. map (\<lambda>x. rt_lane_seq (fst (snd x))) (filter (\<lambda>x. ?f x = p) ?items)) (claim_priorities live)"
    by (rule nth_equalityI)
      (simp_all add: claim_groups_def priority_group_def nth_enumerate_eq case_prod_beta')
  have all: "filter (\<lambda>x. ?f x \<in> set (claim_priorities live)) ?items = ?items"
    using claim_receipts_mem by (fastforce simp: filter_id_conv claim_priorities_def)
  have "mset (concat (map (\<lambda>p. filter (\<lambda>x. ?f x = p) ?items) (claim_priorities live))) = mset ?items"
    by (rule grouped_mset [of "claim_priorities live" ?f ?items, unfolded all]) (simp add: claim_priorities_def)
  then have "mset (map (\<lambda>x. rt_lane_seq (fst (snd x))) (concat (map (\<lambda>p. filter (\<lambda>x. ?f x = p) ?items) (claim_priorities live)))) =
      mset (map (\<lambda>rp. rt_lane_seq (fst rp)) (map snd ?items))"
    by (simp add: comp_def)
  then show ?thesis by (simp add: groups map_concat comp_def claim_receipts_rows)
qed

text \<open>
  \<open>chosen\<close> is recorded: exactly its rows become spent, the result rows claim them, each once and each under an
  item of a new claim batch, and all of them are returned when the lease ring has a cursor.
\<close>

definition claim_recorded ::
  "store \<Rightarrow> ready_transition_row list \<Rightarrow> ready_job_lease_row list \<Rightarrow> store \<Rightarrow> bool" where
  "claim_recorded s chosen rows s' \<longleftrightarrow>
    (\<exists>b bs nr nb. s' = s\<lparr>s_claim_attempts := s_claim_attempts s @ [b], s_claim_batches := s_claim_batches s @ bs,
        s_next_receipt_id := nr, s_next_batch_id := nb\<rparr> \<and>
      (\<forall>key seq. attempted s' key seq \<longleftrightarrow> attempted s key seq \<or> key = batch_key b \<and> seq \<in> rt_lane_seq ` set chosen) \<and>
      cb_next_lane_seq b = Max (rt_lane_seq ` set chosen) + 1 \<and> (\<forall>r \<in> set chosen. part_key r = batch_key b) \<and>
      (\<forall>x \<in> set rows. (\<exists>r \<in> set chosen. claims_row r x) \<and> item_of_row bs x)) \<and>
    distinct (map rl_lane_seq rows) \<and> length rows \<le> length chosen \<and>
    (cursor_rows (s_authority s) (s_lease_ring s) \<noteq> [] \<longrightarrow> (\<forall>r \<in> set chosen. \<exists>x \<in> set rows. claims_row r x))"

lemma cursor_rows_single: "cursor_rows a r = [] \<or> (\<exists>c. cursor_rows a r = [c])"
  by (simp add: cursor_rows_def split: sum.splits)

lemma claims_row_seq: "claims_row r x \<Longrightarrow> rl_lane_seq x = rt_lane_seq r"
  by (simp add: claims_row_def)

lemma claim_with_receipts_records:
  assumes run: "claim_with_receipts deadline key live s = (res, s')" and live: "live \<noteq> []"
    and ring: "cursor_rows (s_authority s) (s_claim_ring s) \<noteq> []"
    and key: "\<And>r p. (r, p) \<in> set live \<Longrightarrow> part_key r = key"
    and distinct: "distinct (map (rt_lane_seq \<circ> fst) live)"
  shows "\<exists>rows. res = Inr rows \<and> claim_recorded s (map fst live) rows s'"
proof -
  let ?groups = "claim_groups (s_next_batch_id s) (s_next_receipt_id s) live"
  obtain claim_slot g rest where cur: "cursor_rows (s_authority s) (s_claim_ring s) = (claim_slot, g) # rest"
    using ring by (metis list.exhaust prod.collapse)
  let ?b = "attempt_batch key (map (rt_lane_seq \<circ> fst) live)"
  let ?bs = "group_batches (s_now s) deadline claim_slot key ?groups"
  define all where "all = concat (map (\<lambda>cursor. group_rows (s_now s) deadline claim_slot cursor ?groups)
    (cursor_rows (s_authority s) (s_lease_ring s)))"
  have res: "res = Inr (sort_key rl_lane_seq all)"
    and s': "s' = s\<lparr>s_claim_attempts := s_claim_attempts s @ [?b], s_claim_batches := s_claim_batches s @ ?bs,
        s_next_receipt_id := s_next_receipt_id s + int (length live), s_next_batch_id := s_next_batch_id s + int (length ?groups)\<rparr>"
    using run live cur by (simp_all add: claim_with_receipts_def Let_def all_def)
  have gkey: "part_key r = key" if "(b, p, items) \<in> set ?groups" "(i, r, q) \<in> set items" for b p items i r q
    using claim_groups_mem [OF that] key by blast
  have attempted: "attempted s' k seq \<longleftrightarrow> attempted s k seq \<or> k = batch_key ?b \<and> seq \<in> rt_lane_seq ` set (map fst live)" for k seq
    using live attempt_batch_covers [of "map (rt_lane_seq \<circ> fst) live" key seq]
    by (auto simp: attempted_def s' image_image)
  have rows: "(\<exists>r \<in> set (map fst live). claims_row r x) \<and> item_of_row ?bs x" if x: "x \<in> set all" for x
  proof -
    obtain cursor where c: "x \<in> set (group_rows (s_now s) deadline claim_slot cursor ?groups)" using x by (auto simp: all_def)
    from group_rows_recorded [OF c, of key] gkey obtain b p items i r q where
      "(b, p, items) \<in> set ?groups" "(i, r, q) \<in> set items" "claims_row r x" "item_of_row ?bs x" by blast
    then show ?thesis using claim_groups_mem by (metis fst_conv image_eqI list.set_map)
  qed
  have seqs: "mset (map rl_lane_seq all) = (if cursor_rows (s_authority s) (s_lease_ring s) = [] then {#} else mset (map (rt_lane_seq \<circ> fst) live))"
    using cursor_rows_single [of "s_authority s" "s_lease_ring s"] claim_groups_seqs [of "s_next_batch_id s" "s_next_receipt_id s" live]
    by (auto simp: all_def group_rows_seqs simp del: mset_map)
  have "distinct (map rl_lane_seq all)"
    using seqs distinct mset_eq_imp_distinct_iff [of "map rl_lane_seq all" "map (rt_lane_seq \<circ> fst) live"] by (auto split: if_splits)
  then have "distinct (map rl_lane_seq (sort_key rl_lane_seq all))" by (simp add: distinct_map)
  moreover have "length all \<le> length live"
    using arg_cong [OF seqs, of size] by (auto split: if_splits)
  moreover have "\<exists>x \<in> set all. claims_row r x" if ne: "cursor_rows (s_authority s) (s_lease_ring s) \<noteq> []" and r: "r \<in> set (map fst live)" for r
  proof -
    have "set (map rl_lane_seq all) = set (map (rt_lane_seq \<circ> fst) live)" using seqs ne by (metis mset_eq_setD)
    then obtain x where x: "x \<in> set all" "rl_lane_seq x = rt_lane_seq r" using r by (metis (no_types, lifting) comp_apply image_iff list.set_map)
    then obtain r' where r': "r' \<in> set (map fst live)" "claims_row r' x" using rows by blast
    then have "rt_lane_seq r' = rt_lane_seq r" using x(2) claims_row_seq by metis
    then have "r' = r" using distinct r r'(1) by (metis distinct_map inj_onD list.map_comp)
    with x(1) r'(2) show ?thesis by blast
  qed
  ultimately show ?thesis unfolding claim_recorded_def res
    by (intro exI conjI) (rule refl, rule s', use attempted rows key in \<open>auto simp: attempt_batch_next image_image\<close>)
qed

lemma take_downward:
  assumes "sorted_wrt (\<lambda>a b. f a < f b) xs" "x \<in> set (take n xs)" "y \<in> set xs" "f y \<le> (f x :: int)"
  shows "y \<in> set (take n xs)"
proof (rule ccontr)
  assume "y \<notin> set (take n xs)"
  moreover have "set xs = set (take n xs) \<union> set (drop n xs)" by (simp flip: set_append)
  ultimately have "y \<in> set (drop n xs)" using assms(3) by blast
  moreover have "\<forall>a \<in> set (take n xs). \<forall>b \<in> set (drop n xs). f a < f b"
    using assms(1) sorted_wrt_append [of "\<lambda>a b. f a < f b" "take n xs" "drop n xs"] by simp
  ultimately have "f x < f y" using assms(2) by blast
  with assms(4) show False by simp
qed

lemma claim_recordedE:
  assumes "claim_recorded s chosen rows s'"
  obtains b bs nr nb where "s' = s\<lparr>s_claim_attempts := s_claim_attempts s @ [b], s_claim_batches := s_claim_batches s @ bs,
        s_next_receipt_id := nr, s_next_batch_id := nb\<rparr>"
      "\<forall>key seq. attempted s' key seq \<longleftrightarrow> attempted s key seq \<or> key = batch_key b \<and> seq \<in> rt_lane_seq ` set chosen"
      "cb_next_lane_seq b = Max (rt_lane_seq ` set chosen) + 1" "\<forall>r \<in> set chosen. part_key r = batch_key b"
      "\<forall>x \<in> set rows. (\<exists>r \<in> set chosen. claims_row r x) \<and> item_of_row bs x"
  using assms unfolding claim_recorded_def by (elim conjE exE) (rule that)

lemma recorded_fields:
  assumes "claim_recorded s chosen rows s'"
  shows "s_ready s' = s_ready s" "s_segments s' = s_segments s" "s_ready_tombs s' = s_ready_tombs s"
    "s_claim_heads s' = s_claim_heads s" "s_config s' = s_config s" "s_claims s' = s_claims s" "s_heads s' = s_heads s"
    "tombstoned s' key seq = tombstoned s key seq"
proof -
  obtain b bs nr nb where "s' = s\<lparr>s_claim_attempts := s_claim_attempts s @ [b], s_claim_batches := s_claim_batches s @ bs,
        s_next_receipt_id := nr, s_next_batch_id := nb\<rparr>"
    using assms by (rule claim_recordedE)
  then show "s_ready s' = s_ready s" "s_segments s' = s_segments s" "s_ready_tombs s' = s_ready_tombs s"
    "s_claim_heads s' = s_claim_heads s" "s_config s' = s_config s" "s_claims s' = s_claims s" "s_heads s' = s_heads s"
    "tombstoned s' key seq = tombstoned s key seq"
    by (simp_all add: tombstoned_def)
qed

lemma recorded_rows:
  assumes "claim_recorded s chosen rows s'" "chosen \<noteq> []" "cursor_rows (s_authority s) (s_lease_ring s) \<noteq> []"
  shows "rows \<noteq> []"
proof -
  have "\<exists>x \<in> set rows. claims_row (hd chosen) x" using assms hd_in_set [OF assms(2)] unfolding claim_recorded_def by blast
  then show ?thesis by auto
qed

lemma recorded_batch:
  assumes "claim_recorded s chosen rows s'" "m \<in> set chosen"
  obtains b where "b \<in> set (s_claim_attempts s')" "part_key m = batch_key b" "rt_lane_seq m < cb_next_lane_seq b"
proof -
  have "rt_lane_seq m \<le> Max (rt_lane_seq ` set chosen)" using assms(2) by (intro Max_ge) simp_all
  moreover obtain b where "b \<in> set (s_claim_attempts s')" "part_key m = batch_key b" "cb_next_lane_seq b = Max (rt_lane_seq ` set chosen) + 1"
    using assms(1)
  proof (rule claim_recordedE)
    fix b bs nr nb
    assume s': "s' = s\<lparr>s_claim_attempts := s_claim_attempts s @ [b], s_claim_batches := s_claim_batches s @ bs,
        s_next_receipt_id := nr, s_next_batch_id := nb\<rparr>"
      and b: "cb_next_lane_seq b = Max (rt_lane_seq ` set chosen) + 1" "\<forall>r \<in> set chosen. part_key r = batch_key b"
    show thesis by (rule that [of b]) (simp_all add: s' b assms(2))
  qed
  ultimately show thesis by (intro that [of b]) simp_all
qed

text \<open>The rows chosen by a claim from an unspent head are all unspent, and recording them keeps the invariant.\<close>

lemma recorded_spends:
  assumes wf: "claim_wf s" and c: "s_claim_heads s lane = Some c" and key: "key = (slot, generation, lane)"
    and rec: "claim_recorded s chosen rows s'" and ne: "chosen \<noteq> []"
    and chosen: "chosen = filter (\<lambda>r. \<not> tombstoned s key (rt_lane_seq r)) (take limit (key_rows s key c))"
    and head: "h \<in> set (s_ready s)" "part_key h = key" "rt_lane_seq h = c" "\<not> spent s h"
  shows recorded_unspent: "\<forall>x \<in> set chosen. x \<in> set (s_ready s) \<and> part_key x = key \<and> c \<le> rt_lane_seq x \<and> \<not> spent s x"
    and recorded_exact: "\<forall>x \<in> set (s_ready s). spent s' x \<longleftrightarrow> spent s x \<or> x \<in> set chosen"
proof -
  have pos: "positions_wf s" "attempts_wf s" using wf by (simp_all add: claim_wf_def)
  have mem: "x \<in> set (s_ready s) \<and> part_key x = key \<and> c \<le> rt_lane_seq x \<and> \<not> tombstoned s key (rt_lane_seq x)" if "x \<in> set chosen" for x
    using that in_set_takeD [of x limit "key_rows s key c"] by (auto simp: chosen)
  have "\<not> attempted s key (rt_lane_seq x)" if x: "x \<in> set chosen" for x
  proof
    assume "attempted s key (rt_lane_seq x)"
    then obtain b where b: "b \<in> set (s_claim_attempts s)" "batch_key b = key" "rt_lane_seq x < cb_next_lane_seq b"
      by (auto simp: attempted_def covers_seq_def)
    then have "rt_lane_seq h < cb_next_lane_seq b" using mem [OF x] head(3) by simp
    with below_batch_spent [OF pos(2) b(1) head(1)] b(2) head(2,4) show False by simp
  qed
  with mem show "\<forall>x \<in> set chosen. x \<in> set (s_ready s) \<and> part_key x = key \<and> c \<le> rt_lane_seq x \<and> \<not> spent s x"
    by (simp add: spent_def)
  obtain b where b: "\<forall>k seq. attempted s' k seq \<longleftrightarrow> attempted s k seq \<or> k = batch_key b \<and> seq \<in> rt_lane_seq ` set chosen"
      "\<forall>r \<in> set chosen. part_key r = batch_key b"
    using rec by (rule claim_recordedE)
  have "batch_key b = key" using b(2) mem ne by (metis hd_in_set)
  show "\<forall>x \<in> set (s_ready s). spent s' x \<longleftrightarrow> spent s x \<or> x \<in> set chosen"
  proof
    fix x assume x: "x \<in> set (s_ready s)"
    have "part_key x = key \<and> rt_lane_seq x \<in> rt_lane_seq ` set chosen \<longleftrightarrow> x \<in> set chosen"
      using mem same_position [OF pos(1) x] by (fastforce simp: part_key_def)
    then show "spent s' x \<longleftrightarrow> spent s x \<or> x \<in> set chosen"
      using spec [OF spec [OF b(1), of "part_key x"], of "rt_lane_seq x"]
      unfolding spent_def recorded_fields [OF rec] \<open>batch_key b = key\<close> by blast
  qed
qed

lemma recorded_wf:
  assumes wf: "claim_wf s" and c: "s_claim_heads s lane = Some c" and key: "key = (slot, generation, lane)"
    and rec: "claim_recorded s chosen rows s'" and ne: "chosen \<noteq> []"
    and chosen: "chosen = filter (\<lambda>r. \<not> tombstoned s key (rt_lane_seq r)) (take limit (key_rows s key c))"
    and head: "h \<in> set (s_ready s)" "part_key h = key" "rt_lane_seq h = c" "\<not> spent s h"
  shows "claim_wf s'"
proof -
  note exact = recorded_exact [OF assms] and unspent = recorded_unspent [OF assms] and same = recorded_fields [OF rec]
  have pos: "positions_wf s" "segments_wf s" "attempts_wf s" "cursors_wf s" using wf by (simp_all add: claim_wf_def)
  obtain b where b: "s_claim_attempts s' = s_claim_attempts s @ [b]" "cb_next_lane_seq b = Max (rt_lane_seq ` set chosen) + 1"
      "\<forall>r \<in> set chosen. part_key r = batch_key b"
    using rec by (rule claim_recordedE) simp
  have bkey: "batch_key b = key" using b(3) unspent ne by (metis hd_in_set)
  have "Max (rt_lane_seq ` set chosen) \<in> rt_lane_seq ` set chosen" using ne by (intro Max_in) simp_all
  then obtain m where m: "m \<in> set chosen" "rt_lane_seq m = Max (rt_lane_seq ` set chosen)" by fastforce
  have "spent s' y" if y: "y \<in> set (s_ready s)" "part_key y = key" "rt_lane_seq y \<le> rt_lane_seq m" for y
  proof (cases "rt_lane_seq y < c")
    case True
    then have "spent s y" using cursor_spent [OF wf c y(1)] y(2) by (simp add: key part_key_def)
    then show ?thesis using exact y(1) by blast
  next
    case False
    have "y \<in> set (take limit (key_rows s key c))"
      by (rule take_downward [OF key_rows_strict [OF pos(1)] _ _ y(3)]) (use m(1) y False in \<open>auto simp: chosen\<close>)
    then show ?thesis using exact y by (cases "tombstoned s key (rt_lane_seq y)") (auto simp: chosen spent_def)
  qed
  then have new: "list_all (\<lambda>r. part_key r = batch_key b \<and> rt_lane_seq r < cb_next_lane_seq b \<longrightarrow> spent s' r) (s_ready s)"
    by (simp add: list_all_iff b(2) bkey m(2) zless_add1_eq le_less [symmetric])
  have top: "list_ex (\<lambda>r. part_key r = batch_key b \<and> rt_lane_seq r = cb_next_lane_seq b - 1) (s_ready s)"
    using m unspent by (auto simp: list_ex_iff b(2) bkey)
  have old: "list_all (\<lambda>r. part_key r = batch_key a \<and> rt_lane_seq r < cb_next_lane_seq a \<longrightarrow> spent s' r) (s_ready s)"
    if "a \<in> set (s_claim_attempts s)" for a
    using below_batch_spent [OF pos(3) that] exact by (auto simp: list_all_iff)
  have "attempts_wf s'"
    using pos(3) new top old unfolding attempts_wf_def b(1) same by (simp add: list_all_iff)
  moreover have "cursors_wf s'"
    using pos(4) exact by (auto simp: cursors_wf_def same list_all_iff split: option.splits)
  ultimately show ?thesis using pos(1,2) by (simp add: claim_wf_def positions_wf_def segments_wf_def same)
qed

subsection \<open>One claim statement\<close>

lemma zip_filter_fst: "length ys = length xs \<Longrightarrow> map fst (filter (\<lambda>(x, _). P x) (zip xs ys)) = filter P xs"
  by (induction xs ys rule: list_induct2') auto

abbreviation live_rows :: "store \<Rightarrow> claim_key \<Rightarrow> int \<Rightarrow> nat \<Rightarrow> ready_transition_row list" where
  "live_rows s key c limit \<equiv> filter (\<lambda>r. \<not> tombstoned s key (rt_lane_seq r)) (take limit (key_rows s key c))"

lemma live_rows_distinct:
  assumes "positions_wf s"
  shows "distinct (map rt_lane_seq (live_rows s key c limit))"
proof -
  have "sorted_wrt (<) (map rt_lane_seq (live_rows s key c limit))"
    unfolding sorted_wrt_map by (intro sorted_wrt_filter sorted_wrt_take key_rows_strict [OF assms])
  then show ?thesis by (simp add: strict_sorted_iff)
qed

lemma claim_ready_slot_cases:
  assumes run: "claim_ready_slot deadline aging key c limit s = (res, s')" and pos: "positions_wf s"
    and receipts: "cfg_lease_claim_receipts (s_config s)"
  obtains e where "res = Inl e" "s' = s"
  | "res = Inr []" "s' = s" "live_rows s key c limit = [] \<or> cursor_rows (s_authority s) (s_claim_ring s) = []"
  | rows where "res = Inr rows" "live_rows s key c limit \<noteq> []" "claim_recorded s (live_rows s key c limit) rows s'"
proof -
  let ?sel = "take limit (key_rows s key c)"
  show thesis
  proof (cases "res_map (\<lambda>r. aged_priority aging (s_now s) (r_run_at r) (r_priority r)) ?sel")
    case (Inl e)
    then show thesis using run by (intro that(1) [of e]) (simp_all add: claim_ready_slot_def tx_simps)
  next
    case (Inr ps)
    define live where "live = filter (\<lambda>(r, _). \<not> tombstoned s key (rt_lane_seq r)) (zip ?sel ps)"
    have fst: "map fst live = live_rows s key c limit"
      unfolding live_def by (rule zip_filter_fst) (use res_map_Inr_length [OF Inr] in simp)
    have step: "(if \<not> list_all (\<lambda>(r, _). in_smallint (r_attempt r + 1)) live then tx_err smallint_out_of_range
        else claim_with_receipts deadline key live) s = (res, s')"
      using run Inr receipts by (simp add: claim_ready_slot_def tx_simps live_def split: if_splits)
    show thesis
    proof (cases "list_all (\<lambda>(r, _). in_smallint (r_attempt r + 1)) live")
      case False
      with step show thesis by (intro that(1) [of smallint_out_of_range]) (auto simp: tx_simps)
    next
      case True
      with step have w: "claim_with_receipts deadline key live s = (res, s')" by simp
      show thesis
      proof (cases "live = [] \<or> cursor_rows (s_authority s) (s_claim_ring s) = []")
        case True
        then show thesis using w fst by (intro that(2)) (auto simp: claim_with_receipts_def split: list.splits)
      next
        case False
        have key: "part_key r = key" if "(r, p) \<in> set live" for r p
          using that in_set_takeD [of r limit "key_rows s key c"] by (auto simp: live_def dest!: set_zip_leftD)
        have d: "distinct (map (rt_lane_seq \<circ> fst) live)"
          using live_rows_distinct [OF pos, where key = key and c = c and limit = limit] unfolding fst [symmetric] by simp
        have "\<exists>rows. res = Inr rows \<and> claim_recorded s (map fst live) rows s'"
          using False by (intro claim_with_receipts_records [OF w _ _ _ d]) (simp_all, rule key)
        then obtain rows where "res = Inr rows" "claim_recorded s (map fst live) rows s'" by blast
        moreover have "map fst live \<noteq> []" using False by simp
        ultimately show thesis unfolding fst by (intro that(3) [of rows])
      qed
    qed
  qed
qed

text \<open>
  \<open>claim_step limit s res s'\<close>: cursors only move forward, over spent rows; either nothing else happens and
  nothing is returned, or unspent rows are recorded, after which every row of the lane up to them is spent.
\<close>

definition claim_step :: "int \<Rightarrow> store \<Rightarrow> awa_error + ready_job_lease_row list \<Rightarrow> store \<Rightarrow> bool" where
  "claim_step limit s res s' \<longleftrightarrow>
    (\<exists>h. claim_wf (s\<lparr>s_claim_heads := h\<rparr>) \<and>
      ((\<forall>rows. res = Inr rows \<longrightarrow> rows = []) \<and> s' = s\<lparr>s_claim_heads := h\<rparr> \<or>
       (\<exists>chosen rows. res = Inr rows \<and> chosen \<noteq> [] \<and> claim_recorded (s\<lparr>s_claim_heads := h\<rparr>) chosen rows s' \<and> claim_wf s' \<and>
          int (length chosen) \<le> limit \<and> (\<forall>x \<in> set chosen. x \<in> set (s_ready s) \<and> \<not> spent s x) \<and>
          (\<forall>x \<in> set (s_ready s). spent s' x \<longleftrightarrow> spent s x \<or> x \<in> set chosen) \<and>
          (\<forall>m \<in> set chosen. \<forall>x \<in> set (s_ready s). row_lane x = row_lane m \<and> rt_lane_seq x \<le> rt_lane_seq m \<longrightarrow> spent s' x))))"

lemma claim_step_moved:
  "claim_wf (s\<lparr>s_claim_heads := h\<rparr>) \<Longrightarrow> (\<And>rows. res = Inr rows \<Longrightarrow> rows = []) \<Longrightarrow>
    claim_step limit s res (s\<lparr>s_claim_heads := h\<rparr>)"
  unfolding claim_step_def by blast

lemma claim_from_step:
  assumes wf: "claim_wf s" and c: "s_claim_heads s lane = Some c" and seg: "first_segment s lane c = Some (slot, generation, t)"
    and receipts: "cfg_lease_claim_receipts (s_config s)"
    and run: "claim_from deadline aging max_batch (slot, generation, lane) c next_seq s = (res, s')"
  shows "claim_step max_batch s res s'"
proof -
  let ?key = "(slot, generation, lane)"
  obtain r where r: "r \<in> set (s_ready s)" "part_key r = ?key" "c \<le> rt_lane_seq r"
    and wf1: "claim_wf (moved_to s lane (rt_lane_seq r))"
    and seek: "seek_head ?key c s = (Inr (Some (r, rt_lane_seq r)), moved_to s lane (rt_lane_seq r))"
    using seek_head_found [OF wf c seg] by metis
  define n where "n = rt_lane_seq r"
  define s1 where "s1 = moved_to s lane n"
  define limit where "limit = min (max (next_seq - n) 0) max_batch"
  have wf1: "claim_wf s1" and c1: "s_claim_heads s1 lane = Some n" using wf1 by (simp_all add: s1_def n_def)
  have same: "s_ready s1 = s_ready s" "s_config s1 = s_config s" "\<And>x. spent s1 x = spent s x" by (simp_all add: s1_def)
  have pos: "positions_wf s1" "segments_wf s1" using wf1 by (simp_all add: claim_wf_def)
  have step: "(if limit \<le> 0 then (Inr [], s1)
      else if attempt_spent s1 ?key r then tx_bind (skip_spent ?key n (nat limit)) (\<lambda>_. tx_ret []) s1
      else claim_ready_slot deadline aging ?key n (nat limit) s1) = (res, s')"
  proof -
    have "claim_from deadline aging max_batch ?key c next_seq s =
        (if limit \<le> 0 then tx_ret []
         else tx_bind (tx_get (\<lambda>s. attempt_spent s ?key r)) (\<lambda>spent.
           if spent then tx_bind (skip_spent ?key n (nat limit)) (\<lambda>_. tx_ret [])
           else claim_ready_slot deadline aging ?key n (nat limit))) s1"
      unfolding claim_from_def tx_bind_def [of "seek_head ?key c"] seek n_def s1_def limit_def
      by (simp only: prod.case sum.case option.case Let_def)
    with run show ?thesis by (simp add: tx_simps split: if_splits)
  qed
  have stay: "claim_step max_batch s res' s1" if "\<And>rows. res' = Inr rows \<Longrightarrow> rows = []" for res'
    using claim_step_moved [where s = s and h = "(s_claim_heads s)(lane \<mapsto> n)" and res = res'] wf1 that by (simp add: s1_def)
  consider "limit \<le> 0" | "0 < limit" "attempt_spent s1 ?key r" | "0 < limit" "\<not> attempt_spent s1 ?key r" by linarith
  then show ?thesis
  proof cases
    case 1
    then show ?thesis using step stay by auto
  next
    case 2
    have r1: "r \<in> set (s_ready s1)" "part_key r = ?key" "rt_lane_seq r = n" using r by (simp_all add: same n_def)
    obtain m where m: "claim_wf (moved_to s1 lane m)" "skip_spent ?key n (nat limit) s1 = (Inr (), moved_to s1 lane m)"
      using skip_spent_moves [OF wf1 c1 _ r1 2(2), of "nat limit"] receipts 2(1) by (auto simp: same)
    have "res = Inr []" "s' = moved_to s lane m" using 2 m(2) step by (simp_all add: tx_bind_def tx_simps s1_def)
    moreover have "claim_wf (moved_to s lane m)" using m(1) by (simp add: s1_def)
    ultimately show ?thesis
      using claim_step_moved [where s = s and h = "(s_claim_heads s)(lane \<mapsto> m)" and res = res and limit = max_batch] by simp
  next
    case 3
    have r1: "r \<in> set (s_ready s1)" "part_key r = ?key" "rt_lane_seq r = n" "\<not> spent s1 r"
      using r 3(2) attempt_spent_receipts [of s1 r ?key] receipts by (simp_all add: same n_def)
    have run1: "claim_ready_slot deadline aging ?key n (nat limit) s1 = (res, s')" using step 3 by simp
    have rec1: "cfg_lease_claim_receipts (s_config s1)" using receipts by (simp add: same)
    show ?thesis
    proof (rule claim_ready_slot_cases [OF run1 pos(1) rec1])
      fix rows
      let ?live = "live_rows s1 ?key n (nat limit)"
      assume ok: "res = Inr rows" "?live \<noteq> []" "claim_recorded s1 ?live rows s'"
      note rec = wf1 c1 refl ok(3,2) refl r1
      have wf2: "claim_wf s'" by (rule recorded_wf [OF rec])
      note unspent = recorded_unspent [OF rec] and exact = recorded_exact [OF rec]
      have upto: "spent s' x"
        if m: "m \<in> set ?live" and x: "x \<in> set (s_ready s)" "row_lane x = row_lane m" "rt_lane_seq x \<le> rt_lane_seq m" for m x
      proof (cases "rt_lane_seq x < n")
        case True
        have "row_lane x = lane" using unspent m x(2) by (metis part_key_lane)
        then have "spent s1 x" using cursor_spent [OF wf1 c1, of x] True x(1) by (simp add: same)
        then show ?thesis using exact x(1) by (simp add: same)
      next
        case False
        have mk: "m \<in> set (s_ready s)" "part_key m = ?key" using unspent m by (simp_all add: same)
        have "part_key x = ?key"
          using target_partition [OF _ _ seg x(1) _ _ mk x(3)] wf False r(3) x(2) mk(2) by (simp add: claim_wf_def n_def part_key_def)
        moreover obtain b where b: "b \<in> set (s_claim_attempts s')" "part_key m = batch_key b" "rt_lane_seq m < cb_next_lane_seq b"
          using recorded_batch [OF ok(3) m] .
        ultimately show ?thesis
          using below_batch_spent [OF _ b(1), of x] wf2 x(1,3) mk(2) recorded_fields(1) [OF ok(3)] by (simp add: claim_wf_def same)
      qed
      have "length ?live \<le> nat limit" using length_filter_le [of _ "take (nat limit) (key_rows s1 ?key n)"] by (rule order_trans) simp
      moreover have "limit \<le> max_batch" by (simp add: limit_def)
      ultimately have len: "int (length ?live) \<le> max_batch" using 3(1) by linarith
      show ?thesis
        unfolding claim_step_def
        by (intro exI [of _ "(s_claim_heads s)(lane \<mapsto> n)"] conjI disjI2 exI [of _ ?live] exI [of _ rows])
          (use wf1 wf2 ok unspent exact upto len in \<open>simp_all add: same s1_def [symmetric]\<close>)
    qed (use stay in auto)
  qed
qed

lemma candidate_fields:
  assumes "c \<in> set (lane_candidates s env queue)"
  shows "s_claim_heads s (cn_lane c) = Some (cn_claim_seq c) \<and> s_heads s (cn_lane c) = Some (cn_next_seq c) \<and>
    cn_target c = first_segment s (cn_lane c) (cn_claim_seq c) \<and> fst (cn_lane c) = queue \<and> cn_lane c \<in> set (cv_scan env) \<and>
    cn_claim_seq c < cn_next_seq c \<and> queue \<notin> set (s_paused s)"
  using assms by (fastforce simp: lane_candidates_def List.map_filter_def split: option.splits if_splits)

lemma select_lane_cases:
  obtains e where "select_lane env queue aging s = (Inl e, s)"
  | "select_lane env queue aging s = (Inr None, s)"
  | c where "select_lane env queue aging s = (Inr (Some c), s)" "c \<in> set (lane_candidates s env queue)"
      "cn_lane c \<notin> set (cv_locked env)"
proof (cases "res_map (candidate_order aging (s_now s)) (lane_candidates s env queue)")
  case (Inl e)
  then show thesis by (intro that(1) [of e]) (simp add: select_lane_def tx_simps)
next
  case (Inr keys)
  let ?l = "filter (\<lambda>(_, c). cn_lane c \<notin> set (cv_locked env)) (sort_key fst (zip keys (lane_candidates s env queue)))"
  have run: "select_lane env queue aging s = (Inr (map_option snd (first_of ?l)), s)"
    using Inr by (simp add: select_lane_def tx_simps)
  show thesis
  proof (cases ?l)
    case Nil
    with run show thesis by (intro that(2)) (simp add: first_of_def)
  next
    case (Cons kc rest)
    obtain k c where kc: "kc = (k, c)" by (cases kc)
    have "(k, c) \<in> set ?l" by (simp only: Cons kc list.set_intros)
    then have "(k, c) \<in> set (zip keys (lane_candidates s env queue))" "cn_lane c \<notin> set (cv_locked env)" by simp_all
    moreover have "select_lane env queue aging s = (Inr (Some c), s)" unfolding run Cons kc by (simp add: first_of_def)
    ultimately show thesis by (intro that(3) [of c]) (auto dest: set_zip_rightD)
  qed
qed

lemma claim_runtime_step:
  assumes wf: "claim_wf s" and receipts: "cfg_lease_claim_receipts (s_config s)"
    and run: "claim_ready_runtime env queue max_batch deadline aging s = (res, s')"
  shows "claim_step max_batch s res s'"
proof -
  have same: "s\<lparr>s_claim_heads := s_claim_heads s\<rparr> = s" by simp
  have stay: "claim_step max_batch s res' s" if "\<And>rows. res' = Inr rows \<Longrightarrow> rows = []" for res'
    using claim_step_moved [where s = s and h = "s_claim_heads s" and res = res'] wf that by simp
  show ?thesis
  proof (rule select_lane_cases [of env queue aging s])
    fix e assume "select_lane env queue aging s = (Inl e, s)"
    then show ?thesis using run stay by (auto simp: claim_ready_runtime_def tx_bind_def)
  next
    assume "select_lane env queue aging s = (Inr None, s)"
    then show ?thesis using run stay by (auto simp: claim_ready_runtime_def tx_bind_def tx_simps)
  next
    fix c assume sel: "select_lane env queue aging s = (Inr (Some c), s)" and c: "c \<in> set (lane_candidates s env queue)"
    note f = candidate_fields [OF c]
    show ?thesis
    proof (cases "first_segment s (cn_lane c) (cn_claim_seq c)")
      case None
      then show ?thesis using run sel f stay by (auto simp: claim_ready_runtime_def tx_bind_def tx_simps)
    next
      case (Some seg)
      then obtain slot generation t where seg: "first_segment s (cn_lane c) (cn_claim_seq c) = Some (slot, generation, t)"
        by (cases seg) auto
      let ?lane = "cn_lane c"
      have head: "s_claim_heads s ?lane = Some (cn_claim_seq c)" using f by simp
      show ?thesis
      proof (rule catch_up_cases [OF wf head seg])
        fix n assume n: "claim_wf (moved_to s ?lane n)" "catch_up ?lane (cn_claim_seq c) (slot, generation) s = (Inr None, moved_to s ?lane n)"
        then have "res = Inr []" "s' = moved_to s ?lane n"
          using run sel f seg by (auto simp: claim_ready_runtime_def tx_bind_def tx_simps)
        with n(1) show ?thesis using claim_step_moved [where s = s and h = "(s_claim_heads s)(?lane \<mapsto> n)" and res = res] by simp
      next
        fix n sl gn t'
        assume n: "claim_wf (moved_to s ?lane n)" "first_segment s ?lane n = Some (sl, gn, t')"
          "catch_up ?lane (cn_claim_seq c) (slot, generation) s = (Inr (Some ((sl, gn), n)), moved_to s ?lane n)"
        then have r: "claim_from deadline aging max_batch (sl, gn, ?lane) n (cn_next_seq c) (moved_to s ?lane n) = (res, s')"
          using run sel f seg by (simp add: claim_ready_runtime_def tx_bind_def tx_simps)
        have "claim_step max_batch (moved_to s ?lane n) res s'"
          by (rule claim_from_step [OF n(1) _ _ _ r]) (use n(2) receipts in simp_all)
        then show ?thesis by (simp add: claim_step_def)
      qed
    qed
  qed
qed

subsection \<open>The transaction of a claim and the advance after it\<close>

lemma spent_cong:
  "s_ready_tombs s' = s_ready_tombs s \<Longrightarrow> s_claim_attempts s' = s_claim_attempts s \<Longrightarrow> spent s' = spent s"
  by (simp add: fun_eq_iff spent_def tombstoned_def attempted_def)

lemma claim_wf_cong:
  assumes "s_ready s' = s_ready s" "s_segments s' = s_segments s" "s_ready_tombs s' = s_ready_tombs s"
    "s_claim_attempts s' = s_claim_attempts s" "s_claim_heads s' = s_claim_heads s"
  shows "claim_wf s' = claim_wf s"
  unfolding claim_wf_def positions_wf_def segments_wf_def attempts_wf_def cursors_wf_def assms spent_cong [OF assms(3,4)] ..

lemma claim_wf_rollback:
  assumes "claim_wf (s\<lparr>s_claim_heads := s_claim_heads s'\<rparr>)"
  shows "claim_wf (rollback s s')"
proof -
  let ?h = "\<lambda>l. if s_claim_heads s l = None then None else s_claim_heads s' l"
  have "claim_wf (rollback s s') = claim_wf (s\<lparr>s_claim_heads := ?h\<rparr>)"
    by (rule claim_wf_cong) (simp_all add: rollback_def)
  moreover have "ran ?h \<subseteq> ran (s_claim_heads s')" by (auto simp: ran_def split: if_splits)
  then have "cursors_wf (s\<lparr>s_claim_heads := ?h\<rparr>)"
    using assms unfolding claim_wf_heads cursors_wf_heads by (auto simp: list_all_iff split: option.splits if_splits)
  ultimately show ?thesis using assms by (simp add: claim_wf_heads)
qed

text \<open>Cursors may also move to any position up to which the lane is spent.\<close>

lemma advanced_wf:
  assumes wf: "claim_wf s"
    and moved: "\<And>l n. h l = Some n \<Longrightarrow> \<exists>c. s_claim_heads s l = Some c \<and> c \<le> n \<and>
      (n = c \<or> (\<forall>x \<in> set (s_ready s). row_lane x = l \<and> rt_lane_seq x < n \<longrightarrow> spent s x))"
  shows "claim_wf (s\<lparr>s_claim_heads := h\<rparr>)"
proof -
  have "list_all (\<lambda>r. case h (row_lane r) of None \<Rightarrow> True | Some c \<Rightarrow> rt_lane_seq r < c \<longrightarrow> spent s r) (s_ready s)"
    unfolding list_all_iff
  proof
    fix r assume r: "r \<in> set (s_ready s)"
    show "case h (row_lane r) of None \<Rightarrow> True | Some c \<Rightarrow> rt_lane_seq r < c \<longrightarrow> spent s r"
      using moved [of "row_lane r"] cursor_spent [OF wf _ r refl] r by (cases "h (row_lane r)") auto
  qed
  moreover have "\<forall>n \<in> ran h. 1 \<le> n"
  proof
    fix n assume "n \<in> ran h"
    then obtain l where "h l = Some n" unfolding ran_def by blast
    with moved [OF this] cursor_positive [OF wf, of l] show "1 \<le> n" by fastforce
  qed
  moreover have "positions_wf s \<and> segments_wf s \<and> attempts_wf s" using wf by (simp add: claim_wf_def)
  ultimately show ?thesis unfolding claim_wf_heads cursors_wf_heads by blast
qed

lemma last_by_lane_from:
  assumes "(l, x) \<in> set (last_by_lane rows)"
  shows "x \<in> set rows \<and> l = (r_queue x, rl_lane_priority x, rl_enqueue_shard x)"
proof -
  define f where "f = (\<lambda>m (row :: ready_job_lease_row). let key = (r_queue row, rl_lane_priority row, rl_enqueue_shard row) in
        case map_of m key of
          None \<Rightarrow> omap_insert key row m
        | Some current \<Rightarrow> if rl_lane_seq row > rl_lane_seq current then omap_insert key row m else m)"
  let ?ok = "\<lambda>rs m. \<forall>(l, x) \<in> set m. x \<in> set rs \<and> l = (r_queue x, rl_lane_priority x, rl_enqueue_shard x)"
  have "?ok (rs @ xs) (foldl f m xs)" if "?ok rs m" for rs xs m
    using that
  proof (induction xs arbitrary: rs m)
    case (Cons x xs)
    let ?k = "(r_queue x, rl_lane_priority x, rl_enqueue_shard x)"
    have "set (f m x) \<subseteq> insert (?k, x) (set m)"
      using set_omap_insert_subset [of ?k x m] by (auto simp: f_def Let_def split: option.splits)
    then have "?ok (rs @ [x]) (f m x)" using Cons.prems by fastforce
    from Cons.IH [OF this] show ?case by simp
  qed simp
  from this [of "[]" "[]" rows] assms show ?thesis by (auto simp: last_by_lane_def f_def)
qed

definition claims_kept :: "store \<Rightarrow> store \<Rightarrow> bool" where
  "claims_kept s s' \<longleftrightarrow>
    claim_wf s' \<and> s_ready s' = s_ready s \<and> s_config s' = s_config s \<and>
    set (s_claim_batches s) \<subseteq> set (s_claim_batches s') \<and> (\<forall>x \<in> set (s_ready s). spent s x \<longrightarrow> spent s' x)"

definition row_pos :: "ready_job_lease_row \<Rightarrow> lane \<times> int" where
  "row_pos x = ((r_queue x, rl_lane_priority x, rl_enqueue_shard x), rl_lane_seq x)"

definition claims_taken :: "int \<Rightarrow> store \<Rightarrow> ready_job_lease_row list \<Rightarrow> store \<Rightarrow> bool" where
  "claims_taken limit s rows s' \<longleftrightarrow>
    claims_kept s s' \<and> int (length rows) \<le> limit \<and> distinct (map row_pos rows) \<and>
    (\<forall>x \<in> set rows. item_of_row (s_claim_batches s') x \<and>
      (\<exists>r \<in> set (s_ready s). claims_row r x \<and> \<not> spent s r \<and> spent s' r) \<and>
      (\<forall>y \<in> set (s_ready s). row_lane y = fst (row_pos x) \<and> rt_lane_seq y \<le> rl_lane_seq x \<longrightarrow> spent s' y))"

lemma claims_kept_trans: "claims_kept s s1 \<Longrightarrow> claims_kept s1 s2 \<Longrightarrow> claims_kept s s2"
  unfolding claims_kept_def by auto

lemma claims_row_lane: "claims_row r x \<Longrightarrow> row_lane r = fst (row_pos x)"
  by (simp add: claims_row_def part_key_def row_pos_def)

lemma item_of_row_mono: "item_of_row bs x \<Longrightarrow> set bs \<subseteq> set bs' \<Longrightarrow> item_of_row bs' x"
  unfolding item_of_row_def by blast

lemma claim_step_taken:
  assumes step: "claim_step limit s (Inr rows) s'" and limit: "0 < limit"
  shows "claims_taken limit s rows s'"
proof -
  obtain h where h: "claim_wf (s\<lparr>s_claim_heads := h\<rparr>)" and alt: "rows = [] \<and> s' = s\<lparr>s_claim_heads := h\<rparr> \<or>
      (\<exists>chosen. chosen \<noteq> [] \<and> claim_recorded (s\<lparr>s_claim_heads := h\<rparr>) chosen rows s' \<and> claim_wf s' \<and>
          int (length chosen) \<le> limit \<and> (\<forall>x \<in> set chosen. x \<in> set (s_ready s) \<and> \<not> spent s x) \<and>
          (\<forall>x \<in> set (s_ready s). spent s' x \<longleftrightarrow> spent s x \<or> x \<in> set chosen) \<and>
          (\<forall>m \<in> set chosen. \<forall>x \<in> set (s_ready s). row_lane x = row_lane m \<and> rt_lane_seq x \<le> rt_lane_seq m \<longrightarrow> spent s' x))"
    using step unfolding claim_step_def by auto
  show ?thesis
  proof (cases "rows = [] \<and> s' = s\<lparr>s_claim_heads := h\<rparr>")
    case True
    with h limit show ?thesis by (simp add: claims_taken_def claims_kept_def)
  next
    case False
    with alt obtain chosen where rec: "claim_recorded (s\<lparr>s_claim_heads := h\<rparr>) chosen rows s'" and wf: "claim_wf s'"
      and len: "int (length chosen) \<le> limit" and un: "\<forall>x \<in> set chosen. x \<in> set (s_ready s) \<and> \<not> spent s x"
      and exact: "\<forall>x \<in> set (s_ready s). spent s' x \<longleftrightarrow> spent s x \<or> x \<in> set chosen"
      and upto: "\<forall>m \<in> set chosen. \<forall>x \<in> set (s_ready s). row_lane x = row_lane m \<and> rt_lane_seq x \<le> rt_lane_seq m \<longrightarrow> spent s' x"
      by blast
    have "set (s_claim_batches s) \<subseteq> set (s_claim_batches s')" using rec by (rule claim_recordedE) simp
    then have kept: "claims_kept s s'" using wf exact recorded_fields [OF rec] by (simp add: claims_kept_def)
    have "distinct (map rl_lane_seq rows)" "length rows \<le> length chosen" using rec by (simp_all add: claim_recorded_def)
    then have d: "distinct (map row_pos rows)" "int (length rows) \<le> limit"
      using len by (auto simp: distinct_map inj_on_def row_pos_def)
    have items: "item_of_row (s_claim_batches s') x \<and> (\<exists>r \<in> set chosen. claims_row r x)" if "x \<in> set rows" for x
      using rec
    proof (rule claim_recordedE)
      fix b bs nr nb
      assume s': "s' = s\<lparr>s_claim_heads := h\<rparr>\<lparr>s_claim_attempts := s_claim_attempts (s\<lparr>s_claim_heads := h\<rparr>) @ [b],
          s_claim_batches := s_claim_batches (s\<lparr>s_claim_heads := h\<rparr>) @ bs, s_next_receipt_id := nr, s_next_batch_id := nb\<rparr>"
        and all: "\<forall>x \<in> set rows. (\<exists>r \<in> set chosen. claims_row r x) \<and> item_of_row bs x"
      show ?thesis using all that item_of_row_mono [of bs x "s_claim_batches s'"] by (auto simp: s')
    qed
    have "item_of_row (s_claim_batches s') x \<and> (\<exists>r \<in> set (s_ready s). claims_row r x \<and> \<not> spent s r \<and> spent s' r) \<and>
      (\<forall>y \<in> set (s_ready s). row_lane y = fst (row_pos x) \<and> rt_lane_seq y \<le> rl_lane_seq x \<longrightarrow> spent s' y)" if x: "x \<in> set rows" for x
    proof -
      obtain r where r: "r \<in> set chosen" "claims_row r x" "item_of_row (s_claim_batches s') x" using items [OF x] by blast
      have "\<forall>y \<in> set (s_ready s). row_lane y = fst (row_pos x) \<and> rt_lane_seq y \<le> rl_lane_seq x \<longrightarrow> spent s' y"
        using bspec [OF upto r(1)] claims_row_lane [OF r(2)] claims_row_seq [OF r(2)] by simp
      with r un exact show ?thesis by blast
    qed
    with kept d show ?thesis by (simp add: claims_taken_def)
  qed
qed

lemma claim_step_heads: "claim_step limit s res s' \<Longrightarrow> claim_wf (s\<lparr>s_claim_heads := s_claim_heads s'\<rparr>)"
  unfolding claim_step_def by (auto simp: recorded_fields)

lemma claim_step_rollback:
  assumes "claim_step limit s res s1" "s_claim_heads s' = s_claim_heads s1"
  shows "claims_kept s (rollback s s')"
proof -
  have "claim_wf (rollback s s')" using claim_wf_rollback claim_step_heads [OF assms(1)] assms(2) by metis
  moreover have "spent (rollback s s') = spent s" by (rule spent_cong) (simp_all add: rollback_def)
  ultimately show ?thesis by (simp add: claims_kept_def rollback_def)
qed

lemma claim_transaction_taken:
  assumes wf: "claim_wf s" and receipts: "cfg_lease_claim_receipts (s_config s)" and limit: "0 < max_batch"
    and run: "claim_transaction env queue max_batch deadline aging s = (res, s')"
  shows "(\<exists>e. res = Inl e \<and> claims_kept s s') \<or> (\<exists>rows. res = Inr (rows, None) \<and> claims_taken max_batch s rows s')"
proof -
  obtain r0 s0 where c: "claim_ready_runtime env queue max_batch deadline aging s = (r0, s0)" by fastforce
  note step = claim_runtime_step [OF wf receipts c]
  show ?thesis
  proof (cases r0)
    case (Inl e)
    then have "res = Inl e" "s' = rollback s s0"
      using run c by (simp_all add: claim_transaction_def claim_ready_rows_tx_def in_tx_def tx_bind_def)
    then show ?thesis using claim_step_rollback [OF step refl] by blast
  next
    case (Inr rows)
    obtain r1 s1 where y: "sync_rows (\<lambda>_. Running) (Some Available) rows s0 = (r1, s1)" by fastforce
    obtain m where s1: "s1 = s0\<lparr>s_claims := m\<rparr>"
      using claims_rel.keepsD [OF sync_rows_claims_only y] by (auto simp: claims_only_iff)
    show ?thesis
    proof (cases r1)
      case (Inl e)
      then have "res = Inl e" "s' = rollback s s1"
        using run c y Inr by (simp_all add: claim_transaction_def claim_ready_rows_tx_def in_tx_def tx_bind_def)
      moreover have "claims_kept s (rollback s s1)" by (rule claim_step_rollback [OF step]) (simp add: s1)
      ultimately show ?thesis by blast
    next
      case ok: (Inr u)
      have taken: "claims_taken max_batch s rows s0" using claim_step_taken [OF step [unfolded Inr] limit] .
      have "claim_wf s1 = claim_wf s0" by (rule claim_wf_cong) (simp_all add: s1)
      moreover have "spent s1 = spent s0" by (rule spent_cong) (simp_all add: s1)
      ultimately have "claims_taken max_batch s rows s1" using taken by (simp add: claims_taken_def claims_kept_def s1)
      moreover have "res = Inr (rows, None) \<and> s' = s1"
        using run c y Inr ok receipts taken
        by (simp add: claim_transaction_def claim_ready_rows_tx_def in_tx_def tx_bind_def tx_simps claims_taken_def claims_kept_def s1)
      ultimately show ?thesis by blast
    qed
  qed
qed

lemma claim_advances_wf: "list_all advance_wf (claim_cursor_advances rows)"
  by (auto simp: claim_cursor_advances_def advance_wf_def list_all_iff split: prod.splits)

lemma claim_advance_of:
  assumes "a \<in> set (claim_cursor_advances rows)"
  obtains x where "x \<in> set rows" "ca_lane a = fst (row_pos x)" "ca_next_seq a = rl_lane_seq x + 1"
proof -
  obtain l x where lx: "(l, x) \<in> set (last_by_lane rows)" "ca_lane a = l" "ca_next_seq a = rl_lane_seq x + 1"
    using assms by (auto simp: claim_cursor_advances_def ca_lane_def)
  with last_by_lane_from [OF lx(1)] show thesis by (intro that [of x]) (simp_all add: row_pos_def)
qed

text \<open>The advance after the commit keeps the claim and the invariant, whichever of its attempts fail.\<close>

lemma advance_cursors_taken:
  assumes taken: "claims_taken limit s rows s1"
  obtains h where "advance_cursors_tx fails rows s1 = (Inr (), s1\<lparr>s_claim_heads := h\<rparr>)"
    "claims_taken limit s rows (s1\<lparr>s_claim_heads := h\<rparr>)"
proof -
  let ?t = "store_claim_tables s1"
  define h where "h = ct_heads (advance_claim_cursors fails (claim_cursor_advances rows) ?t)"
  have wf: "claim_wf s1" and ready: "s_ready s1 = s_ready s" using taken by (simp_all add: claims_taken_def claims_kept_def)
  have "heads_positive ?t" using cursor_positive [OF wf] by (simp add: heads_positive_def store_claim_tables_def)
  from advance_attempts_moved [OF normalize_subset [OF claim_advances_wf] this, of rows "take 3 fails"]
  have moved: "lane_moved (set (claim_cursor_advances rows)) ?t l (s_claim_heads s1 l) (h l)" for l
    unfolding advance_claim_cursors_def h_def cursor_moved_def by (simp add: store_claim_tables_def del: split_paired_All)
  have "claim_wf (s1\<lparr>s_claim_heads := h\<rparr>)"
  proof (rule advanced_wf [OF wf])
    fix l n assume n: "h l = Some n"
    with moved [of l] obtain c where c: "s_claim_heads s1 l = Some c" "c \<le> n"
        "n = c \<or> (\<exists>a \<in> set (claim_cursor_advances rows). ca_lane a = l \<and> n = ca_next_seq a)"
      by (cases "s_claim_heads s1 l") (auto simp: lane_moved_def)
    have "\<forall>y \<in> set (s_ready s1). row_lane y = l \<and> rt_lane_seq y < n \<longrightarrow> spent s1 y"
      if a: "a \<in> set (claim_cursor_advances rows)" "ca_lane a = l" "n = ca_next_seq a" for a
    proof -
      obtain x where x: "x \<in> set rows" "l = fst (row_pos x)" "n = rl_lane_seq x + 1"
        using claim_advance_of [OF a(1)] a(2,3) by metis
      then show ?thesis using taken unfolding claims_taken_def by (simp add: ready)
    qed
    with c show "\<exists>c. s_claim_heads s1 l = Some c \<and> c \<le> n \<and>
        (n = c \<or> (\<forall>x \<in> set (s_ready s1). row_lane x = l \<and> rt_lane_seq x < n \<longrightarrow> spent s1 x))" by blast
  qed
  then have "claims_taken limit s rows (s1\<lparr>s_claim_heads := h\<rparr>)" using taken by (simp add: claims_taken_def claims_kept_def)
  moreover have "advance_cursors_tx fails rows s1 = (Inr (), s1\<lparr>s_claim_heads := h\<rparr>)"
    by (simp add: advance_cursors_tx_def tx_simps h_def)
  ultimately show thesis by (intro that)
qed

subsection \<open>Claimed jobs\<close>

text \<open>A claimed job against the ready row it claims, and the item of a claim batch it refers to.\<close>

definition job_pos :: "claimed_runtime_job \<Rightarrow> lane \<times> int" where
  "job_pos j = (let c = cj_claim j in ((ce_queue c, ce_priority c, ce_enqueue_shard c), ce_lane_seq c))"

definition job_claims :: "ready_transition_row \<Rightarrow> claimed_runtime_job \<Rightarrow> bool" where
  "job_claims r j \<longleftrightarrow>
    jr_id (cj_job j) = r_job_id r \<and> jr_run_lease (cj_job j) = r_run_lease r + 1 \<and> jr_attempt (cj_job j) = r_attempt r + 1 \<and>
    jr_state (cj_job j) = Running \<and> jr_args (cj_job j) = r_args r \<and> job_pos j = (row_lane r, rt_lane_seq r)"

definition job_recorded :: "store \<Rightarrow> claimed_runtime_job \<Rightarrow> bool" where
  "job_recorded s j \<longleftrightarrow>
    (\<exists>b \<in> set (s_claim_batches s). \<exists>i < length (lb_items b).
       ce_claim_slot (cj_claim j) = lb_claim_slot b \<and> ce_claim_batch_id (cj_claim j) = Some (lb_batch_id b) \<and>
       ce_claim_batch_index (cj_claim j) = Some (int i + 1) \<and> ce_receipt_id (cj_claim j) = Some (it_receipt_id (lb_items b ! i)) \<and>
       it_job_id (lb_items b ! i) = jr_id (cj_job j) \<and> it_run_lease (lb_items b ! i) = jr_run_lease (cj_job j))"

lemma converted_job:
  assumes "into_claimed_runtime_job x receipts = Inr j"
  shows "job_pos j = row_pos x" "claims_row r x \<Longrightarrow> job_claims r j"
    "item_of_row (s_claim_batches s) x \<Longrightarrow> job_recorded s j"
proof -
  obtain job where job: "ready_lease_into_job_row x = Inr job" and j: "cj_claim j = claim_ref x receipts" "cj_job j = job"
    using assms by (auto simp: into_claimed_runtime_job_def res_bind_eq_Inr)
  have f: "jr_id job = r_job_id x" "jr_run_lease job = r_run_lease x" "jr_attempt job = r_attempt x" "jr_state job = Running"
      "jr_args job = r_args x"
    using job by (auto simp: ready_lease_into_job_row_def res_bind_eq_Inr base_job_row_def)
  show pos: "job_pos j = row_pos x" by (simp add: job_pos_def j claim_ref_def row_pos_def)
  show "claims_row r x \<Longrightarrow> job_claims r j"
    using pos f by (simp add: job_claims_def j claims_row_def row_pos_def part_key_def)
  show "item_of_row (s_claim_batches s) x \<Longrightarrow> job_recorded s j"
    unfolding item_of_row_def job_recorded_def j f claim_ref_def by simp blast
qed

text \<open>
  \<open>jobs_claimed limit s res s'\<close>: the invariant holds and nothing spent becomes claimable, and the jobs of a result are at
  most \<open>limit\<close>, at distinct positions, each for a row that was unspent and is spent now.
\<close>

definition jobs_claimed :: "int \<Rightarrow> store \<Rightarrow> awa_error + claimed_runtime_job list \<Rightarrow> store \<Rightarrow> bool" where
  "jobs_claimed limit s res s' \<longleftrightarrow>
    claims_kept s s' \<and>
    (\<forall>jobs. res = Inr jobs \<longrightarrow> int (length jobs) \<le> limit \<and> distinct (map job_pos jobs) \<and>
      (\<forall>j \<in> set jobs. job_recorded s' j \<and> (\<exists>r \<in> set (s_ready s). job_claims r j \<and> \<not> spent s r \<and> spent s' r)))"

lemma jobs_claimed_none: "claim_wf s \<Longrightarrow> 0 \<le> limit \<Longrightarrow> jobs_claimed limit s (Inr []) s"
  by (simp add: jobs_claimed_def claims_kept_def)

lemma claim_physical:
  assumes wf: "claim_wf s" and receipts: "cfg_lease_claim_receipts (s_config s)" and limit: "0 < max_batch"
    and run: "claim_runtime_batch_with_aging_physical env fails queue max_batch deadline aging s = (res, s')"
  shows "jobs_claimed max_batch s res s'"
proof -
  obtain r0 s0 where t: "claim_transaction env queue max_batch deadline aging s = (r0, s0)" by fastforce
  from claim_transaction_taken [OF wf receipts limit t] consider
      e where "r0 = Inl e" "claims_kept s s0" | rows where "r0 = Inr (rows, None)" "claims_taken max_batch s rows s0" by blast
  then show ?thesis
  proof cases
    case 1
    then have "res = Inl e \<and> s' = s0"
      using run limit t by (simp add: claim_runtime_batch_with_aging_physical_def tx_bind_def)
    with 1(2) show ?thesis by (simp add: jobs_claimed_def)
  next
    case (2 rows)
    obtain h where h: "advance_cursors_tx fails rows s0 = (Inr (), s0\<lparr>s_claim_heads := h\<rparr>)"
        "claims_taken max_batch s rows (s0\<lparr>s_claim_heads := h\<rparr>)"
      using advance_cursors_taken [OF 2(2)] .
    have cfg: "s_config s0 = s_config s" using 2(2) by (simp add: claims_taken_def claims_kept_def)
    have res: "res = res_map (\<lambda>row. into_claimed_runtime_job row True) rows" and s': "s' = s0\<lparr>s_claim_heads := h\<rparr>"
      using run limit t 2(1) h(1) receipts
      by (auto simp: claim_runtime_batch_with_aging_physical_def tx_bind_def tx_simps cfg)
    note taken = h(2) [folded s']
    have "int (length jobs) \<le> max_batch \<and> distinct (map job_pos jobs) \<and>
      (\<forall>j \<in> set jobs. job_recorded s' j \<and> (\<exists>r \<in> set (s_ready s). job_claims r j \<and> \<not> spent s r \<and> spent s' r))"
      if jobs: "res_map (\<lambda>row. into_claimed_runtime_job row True) rows = Inr jobs" for jobs
    proof (intro conjI ballI)
      note len = res_map_Inr_length [OF jobs]
      have nth: "into_claimed_runtime_job (rows ! i) True = Inr (jobs ! i)" if "i < length rows" for i
        using res_map_Inr_nth [OF jobs that] .
      have "map job_pos jobs = map row_pos rows"
        using len converted_job(1) [OF nth] by (intro nth_equalityI) simp_all
      then show "int (length jobs) \<le> max_batch" "distinct (map job_pos jobs)" using taken len by (simp_all add: claims_taken_def)
      fix j assume "j \<in> set jobs"
      then obtain i where i: "i < length rows" "jobs ! i = j" using len by (metis in_set_conv_nth)
      have c: "into_claimed_runtime_job (rows ! i) True = Inr j" using nth [OF i(1)] i(2) by simp
      have x: "item_of_row (s_claim_batches s') (rows ! i) \<and> (\<exists>r \<in> set (s_ready s). claims_row r (rows ! i) \<and> \<not> spent s r \<and> spent s' r)"
        using taken nth_mem [OF i(1)] unfolding claims_taken_def by blast
      show "job_recorded s' j" using converted_job(3) [OF c] x by blast
      show "\<exists>r \<in> set (s_ready s). job_claims r j \<and> \<not> spent s r \<and> spent s' r" using converted_job(2) [OF c] x by blast
    qed
    then show ?thesis using taken res by (simp add: jobs_claimed_def claims_taken_def)
  qed
qed

lemma job_recorded_mono: "job_recorded s j \<Longrightarrow> set (s_claim_batches s) \<subseteq> set (s_claim_batches s') \<Longrightarrow> job_recorded s' j"
  unfolding job_recorded_def by blast

lemma jobs_claimed_later:
  assumes "jobs_claimed limit s (Inr jobs) s1" "claims_kept s1 s2"
  shows "jobs_claimed limit s (Inr jobs) s2"
proof -
  have k: "claims_kept s s2" using assms claims_kept_trans by (auto simp: jobs_claimed_def)
  have "job_recorded s2 j \<and> (\<exists>r \<in> set (s_ready s). job_claims r j \<and> \<not> spent s r \<and> spent s2 r)" if j: "j \<in> set jobs" for j
  proof -
    obtain r where r: "r \<in> set (s_ready s)" "job_claims r j" "\<not> spent s r" "spent s1 r" "job_recorded s1 j"
      using assms(1) j unfolding jobs_claimed_def by blast
    have "spent s2 r" using assms r(1,4) by (simp add: jobs_claimed_def claims_kept_def)
    moreover have "job_recorded s2 j" using assms(2) by (intro job_recorded_mono [OF r(5)]) (simp add: claims_kept_def)
    ultimately show ?thesis using r by blast
  qed
  with k assms(1) show ?thesis by (simp add: jobs_claimed_def)
qed

lemma jobs_claimed_append:
  assumes 1: "jobs_claimed limit s (Inr xs) s1" and 2: "jobs_claimed (limit - int (length xs)) s1 (Inr ys) s2"
  shows "jobs_claimed limit s (Inr (xs @ ys)) s2"
proof -
  have "claims_kept s1 s2" using 2 by (simp add: jobs_claimed_def)
  note later = jobs_claimed_later [OF 1 this]
  have same: "s_ready s1 = s_ready s" and mono: "\<And>r. r \<in> set (s_ready s) \<Longrightarrow> spent s r \<Longrightarrow> spent s1 r" and pos: "positions_wf s1"
    using 1 by (simp_all add: jobs_claimed_def claims_kept_def claim_wf_def)
  have ys: "job_recorded s2 j \<and> (\<exists>r \<in> set (s_ready s). job_claims r j \<and> \<not> spent s r \<and> spent s2 r \<and> \<not> spent s1 r)" if "j \<in> set ys" for j
    using 2 that mono unfolding jobs_claimed_def same by blast
  have "job_pos j \<noteq> job_pos k" if j: "j \<in> set xs" and k: "k \<in> set ys" for j k
  proof
    assume eq: "job_pos j = job_pos k"
    obtain r where r: "r \<in> set (s_ready s)" "job_claims r j" "spent s1 r" using 1 j unfolding jobs_claimed_def by blast
    obtain r' where r': "r' \<in> set (s_ready s)" "job_claims r' k" "\<not> spent s1 r'" using ys [OF k] by blast
    have "r = r'" using same_position [OF pos, of r r'] r(1,2) r'(1,2) eq by (simp add: same job_claims_def)
    with r(3) r'(3) show False by simp
  qed
  then have "job_pos ` set xs \<inter> job_pos ` set ys = {}" by blast
  then have "distinct (map job_pos (xs @ ys))" using 1 2 by (simp add: jobs_claimed_def)
  moreover have "\<forall>j \<in> set ys. job_recorded s2 j \<and> (\<exists>r \<in> set (s_ready s). job_claims r j \<and> \<not> spent s r \<and> spent s2 r)"
    using ys by blast
  ultimately show ?thesis using later 2 unfolding jobs_claimed_def by (simp add: ball_Un)
qed

lemma claim_stripes_claimed:
  assumes claim: "\<And>q n s res s'. claim_wf s \<Longrightarrow> cfg_lease_claim_receipts (s_config s) \<Longrightarrow> 0 < n \<Longrightarrow> claim q n s = (res, s') \<Longrightarrow>
      jobs_claimed n s res s'"
    and "cfg_lease_claim_receipts (s_config s)" "jobs_claimed max_batch s (Inr acc) s1"
    and "claim_stripes claim max_batch queues acc s1 = (res, s')"
  shows "jobs_claimed max_batch s res s'"
  using assms(3,4)
proof (induction queues arbitrary: acc s1)
  case (Cons q queues)
  show ?case
  proof (cases "max_batch \<le> int (length acc)")
    case True
    then show ?thesis using Cons.prems by (simp add: tx_simps)
  next
    case False
    obtain r2 s2 where c: "claim q (max_batch - int (length acc)) s1 = (r2, s2)" by fastforce
    have "claim_wf s1" "cfg_lease_claim_receipts (s_config s1)"
      using Cons.prems(1) assms(2) by (simp_all add: jobs_claimed_def claims_kept_def)
    from claim [OF this _ c] False have step: "jobs_claimed (max_batch - int (length acc)) s1 r2 s2" by simp
    show ?thesis
    proof (cases r2)
      case (Inr jobs)
      with Cons.IH [OF jobs_claimed_append [OF Cons.prems(1) step [unfolded Inr]]] Cons.prems(2) c False show ?thesis by simp
    next
      case (Inl e)
      have "claims_kept s1 s2" using step by (simp add: jobs_claimed_def)
      with jobs_claimed_later [OF Cons.prems(1)] Cons.prems c False Inl show ?thesis
        by (auto simp: jobs_claimed_def split: if_splits)
    qed
  qed
qed (simp add: tx_simps)

lemma claim_runtime_claimed:
  assumes wf: "claim_wf s" and receipts: "cfg_lease_claim_receipts (s_config s)" and limit: "0 < max_batch"
    and run: "claim_runtime_batch_with_aging env fails queue max_batch deadline aging s = (res, s')"
  shows "jobs_claimed max_batch s res s'"
proof -
  let ?claim = "\<lambda>q n. claim_runtime_batch_with_aging_physical env fails q n deadline aging"
  let ?queues = "physical_queues_for_logical (s_config s) queue"
  show ?thesis
  proof (cases "1 < length ?queues")
    case False
    then have "?claim (hd ?queues) max_batch s = (res, s')"
      using run limit by (simp add: claim_runtime_batch_with_aging_def Let_def tx_simps)
    then show ?thesis by (rule claim_physical [OF wf receipts limit])
  next
    case True
    obtain order l where p: "probe_stripes ?queues s = (Inr order, s\<lparr>s_local := l\<rparr>)"
      by (cases "stripe_probe_start (length ?queues) (s_local s)") (simp add: probe_stripes_def Let_def)
    have "claim_wf (s\<lparr>s_local := l\<rparr>) = claim_wf s" "spent (s\<lparr>s_local := l\<rparr>) = spent s"
      by (rule claim_wf_cong spent_cong; simp)+
    with wf limit have start: "jobs_claimed max_batch s (Inr []) (s\<lparr>s_local := l\<rparr>)" by (simp add: jobs_claimed_def claims_kept_def)
    have stripes: "claim_stripes ?claim max_batch order [] (s\<lparr>s_local := l\<rparr>) = (res, s')"
      using run limit True p by (simp add: claim_runtime_batch_with_aging_def Let_def tx_simps tx_bind_def)
    show ?thesis by (rule claim_stripes_claimed [where claim = ?claim, OF _ receipts start stripes]) (rule claim_physical)
  qed
qed

text \<open>
  C2: no ready row is claimed twice, and no cursor passes a row that nobody claimed.  Start from lanes in
  which every row behind a cursor or below a recorded attempt of its partition is spent (claimed or
  removed).  A claim with receipts, over all stripes of the queue, with whatever lanes are locked and whatever attempts of the
  later cursor advance fail, leaves the lanes like that; spent rows stay spent; and the jobs it returns are at most as many as
  asked for, stand at distinct positions, and each is the next attempt of a row that was unspent before and is spent
  now, recorded under the very batch item that its claim names.
\<close>

theorem no_row_claimed_twice:
  assumes "claim_wf s" "cfg_lease_claim_receipts (s_config s)"
    and "claim_runtime_batch_with_aging env fails queue max_batch deadline aging s = (res, s')"
  shows "claim_wf s' \<and> (\<forall>r \<in> set (s_ready s). spent s r \<longrightarrow> spent s' r) \<and>
    (\<forall>jobs. res = Inr jobs \<longrightarrow> int (length jobs) \<le> max max_batch 0 \<and> distinct (map job_pos jobs) \<and>
      (\<forall>j \<in> set jobs. job_recorded s' j \<and> (\<exists>r \<in> set (s_ready s). job_claims r j \<and> \<not> spent s r \<and> spent s' r)))"
proof (cases "max_batch \<le> 0")
  case True
  with assms show ?thesis by (auto simp: claim_runtime_batch_with_aging_def Let_def tx_simps)
next
  case False
  with claim_runtime_claimed [OF assms(1,2) _ assms(3)] show ?thesis by (auto simp: jobs_claimed_def claims_kept_def)
qed

text \<open>A lane with two jobs of which the first has been removed.\<close>

definition lane_row :: "job_id \<Rightarrow> int \<Rightarrow> ready_transition_row" where
  "lane_row j seq = failed_mail_ready\<lparr>r_job_id := j, r_run_lease := 0, r_attempt := 0, rt_lane_seq := seq\<rparr>"

definition lane_store :: store where
  "lane_store = fresh_store\<lparr>
     s_ready := [lane_row 7 1, lane_row 8 2],
     s_segments := [(0, 0, \<lparr> sg_queue = ''q'', sg_priority = 2, sg_enqueue_shard = 0, sg_first_lane_seq = 1,
       sg_next_lane_seq = 3, sg_first_run_at = 0 \<rparr>)],
     s_ready_tombs := [\<lparr> tm_ready_slot = 0, tm_ready_generation = 0, tm_queue = ''q'', tm_priority = 2, tm_enqueue_shard = 0,
       tm_lane_seq = 1, tm_job_id = 7 \<rparr>],
     s_heads := [(''q'', 2, 0) \<mapsto> 3], s_claim_heads := [(''q'', 2, 0) \<mapsto> 2]\<rparr>"

definition mail_scan :: claim_env where
  "mail_scan = \<lparr> cv_scan = [(''q'', 2, 0)], cv_locked = [] \<rparr>"

lemma lane_store_wf: "claim_wf lane_store"
proof -
  have "positions_wf lane_store" "segments_wf lane_store" "attempts_wf lane_store" by code_simp+
  moreover have "list_all (\<lambda>r. case s_claim_heads lane_store (row_lane r) of None \<Rightarrow> True
      | Some c \<Rightarrow> rt_lane_seq r < c \<longrightarrow> spent lane_store r) (s_ready lane_store)" by code_simp
  then have "cursors_wf lane_store" unfolding cursors_wf_def by (simp add: lane_store_def)
  ultimately show ?thesis by (simp add: claim_wf_def)
qed

theorem no_row_claimed_twice_witness:
  "\<exists>j s'. claim_runtime_batch_with_aging mail_scan [(0, False)] ''q'' 5 60000 0 lane_store = (Inr [j], s') \<and>
     claim_wf s' \<and> jr_id (cj_job j) = 8 \<and> job_recorded s' j"
proof -
  let ?m = "claim_runtime_batch_with_aging mail_scan [(0, False)] ''q'' 5 60000 0"
  have "map_sum (\<lambda>_. ()) (map (jr_id \<circ> cj_job)) (fst (?m lane_store)) = Inr [8]" by code_simp
  then obtain jobs s' where r: "?m lane_store = (Inr jobs, s')" "map (jr_id \<circ> cj_job) jobs = [8]" by (elim fst_Inr_selE)
  have "cfg_lease_claim_receipts (s_config lane_store)" by code_simp
  from no_row_claimed_twice [OF lane_store_wf this r(1)] r show ?thesis by auto
qed

subsection \<open>A waiting job is reached\<close>

text \<open>
  Enough for a claim to be possible: claims record receipts, both rings have a cursor, and no attempt number
  and no aged priority leaves its range.
\<close>

definition claim_ready :: "millis \<Rightarrow> store \<Rightarrow> bool" where
  "claim_ready aging s \<longleftrightarrow>
    cfg_lease_claim_receipts (s_config s) \<and> cursor_rows (s_authority s) (s_claim_ring s) \<noteq> [] \<and>
    cursor_rows (s_authority s) (s_lease_ring s) \<noteq> [] \<and>
    list_all (\<lambda>r. in_smallint (r_attempt r + 1) \<and> \<not> isl (aged_priority aging (s_now s) (r_run_at r) (r_priority r))) (s_ready s) \<and>
    list_all (\<lambda>(_, _, seg). \<not> isl (aged_priority aging (s_now s) (sg_first_run_at seg) (sg_priority seg))) (s_segments s)"

lemma claim_ready_heads [simp]: "claim_ready aging (s\<lparr>s_claim_heads := h\<rparr>) = claim_ready aging s"
  by (simp add: claim_ready_def)

lemma res_map_total: "(\<And>x. x \<in> set xs \<Longrightarrow> \<not> isl (f x)) \<Longrightarrow> \<exists>ys. res_map f xs = Inr ys"
  using res_map_Inl [of f xs] by (cases "res_map f xs") fastforce+

lemma claim_ready_slot_productive:
  assumes pos: "positions_wf s" and ready: "claim_ready aging s" and live: "live_rows s key c limit \<noteq> []"
  obtains rows s' where "claim_ready_slot deadline aging key c limit s = (Inr rows, s')" "rows \<noteq> []"
    "s_claim_heads s' = s_claim_heads s"
proof -
  have receipts: "cfg_lease_claim_receipts (s_config s)" using ready by (simp add: claim_ready_def)
  obtain res s' where run: "claim_ready_slot deadline aging key c limit s = (res, s')" by fastforce
  have "\<nexists>e. res = Inl e"
  proof -
    have "list_all (\<lambda>(r, _). in_smallint (r_attempt r + 1))
        (filter (\<lambda>(r, _). \<not> tombstoned s key (rt_lane_seq r)) (zip (take limit (key_rows s key c)) ps))" for ps :: "int list"
      using ready by (auto simp: claim_ready_def list_all_iff dest!: set_zip_leftD in_set_takeD)
    moreover obtain ps where "res_map (\<lambda>r. aged_priority aging (s_now s) (r_run_at r) (r_priority r)) (take limit (key_rows s key c)) = Inr ps"
    proof -
      have "\<not> isl (aged_priority aging (s_now s) (r_run_at r) (r_priority r))" if "r \<in> set (take limit (key_rows s key c))" for r
        using in_set_takeD [OF that] ready by (simp add: claim_ready_def list_all_iff)
      then show thesis
        using res_map_total [where f = "\<lambda>r. aged_priority aging (s_now s) (r_run_at r) (r_priority r)"] that by blast
    qed
    ultimately show ?thesis
      using run receipts unfolding claim_ready_slot_def
      by (auto simp: tx_simps claim_with_receipts_def Let_def split: list.splits if_splits)
  qed
  then show thesis
  proof (cases rule: claim_ready_slot_cases [OF run pos receipts, case_names failed none claimed])
    fix rows assume ok: "res = Inr rows" "claim_recorded s (live_rows s key c limit) rows s'"
    have "rows \<noteq> []"
      using live ready recorded_rows [OF ok(2)] by (simp add: claim_ready_def)
    then show thesis using run ok(1) recorded_fields(4) [OF ok(2)] by (intro that [of rows s']) simp_all
  qed (use live ready in \<open>auto simp: claim_ready_def\<close>)
qed

lemma claim_from_progress:
  assumes wf: "claim_wf s" and ready: "claim_ready aging s" and lanes: "lanes_wf s" and batch: "0 < max_batch"
    and c: "s_claim_heads s lane = Some c" and seg: "first_segment s lane c = Some (slot, generation, t)"
    and head: "s_heads s lane = Some next_seq"
  obtains rows s' where "claim_from deadline aging max_batch (slot, generation, lane) c next_seq s = (Inr rows, s')" "rows \<noteq> []"
  | n where "claim_from deadline aging max_batch (slot, generation, lane) c next_seq s = (Inr [], moved_to s lane n)" "c < n"
      "claim_wf (moved_to s lane n)"
proof -
  let ?key = "(slot, generation, lane)"
  obtain r where r: "r \<in> set (s_ready s)" "part_key r = ?key" "c \<le> rt_lane_seq r"
    and wf1: "claim_wf (moved_to s lane (rt_lane_seq r))"
    and seek: "seek_head ?key c s = (Inr (Some (r, rt_lane_seq r)), moved_to s lane (rt_lane_seq r))"
    using seek_head_found [OF wf c seg] by metis
  define s1 where "s1 = moved_to s lane (rt_lane_seq r)"
  define limit where "limit = min (max (next_seq - rt_lane_seq r) 0) max_batch"
  have "rt_lane_seq r < next_seq"
    using lanes r(1) head part_key_lane [OF r(2)] by (auto simp: lanes_wf_def list_all_iff lane_start_def)
  then have limit: "0 < limit" using batch by (simp add: limit_def)
  have wf1: "claim_wf s1" and c1: "s_claim_heads s1 lane = Some (rt_lane_seq r)" using wf1 by (simp_all add: s1_def)
  have pos: "positions_wf s1" using wf1 by (simp add: claim_wf_def)
  have r1: "r \<in> set (s_ready s1)" using r(1) by (simp add: s1_def)
  have ready1: "claim_ready aging s1" using ready by (simp add: s1_def)
  then have receipts: "cfg_lease_claim_receipts (s_config s1)" by (simp add: claim_ready_def)
  have run: "claim_from deadline aging max_batch ?key c next_seq s =
      (if attempt_spent s1 ?key r then tx_bind (skip_spent ?key (rt_lane_seq r) (nat limit)) (\<lambda>_. tx_ret []) s1
       else claim_ready_slot deadline aging ?key (rt_lane_seq r) (nat limit) s1)"
    unfolding claim_from_def tx_bind_def [of "seek_head ?key c"] seek
    using limit by (simp add: Let_def limit_def [symmetric] s1_def [symmetric] tx_simps)
  show thesis
  proof (cases "attempt_spent s1 ?key r")
    case True
    obtain n where n: "rt_lane_seq r < n" "claim_wf (moved_to s1 lane n)"
        "skip_spent ?key (rt_lane_seq r) (nat limit) s1 = (Inr (), moved_to s1 lane n)"
      using skip_spent_moves [OF wf1 c1 receipts r1 r(2) refl True, of "nat limit"] limit by auto
    have same: "moved_to s1 lane n = moved_to s lane n" by (simp add: s1_def)
    show thesis
      using n r(3) True run unfolding same by (intro that(2) [of n]) (simp_all add: tx_bind_def tx_ret_def)
  next
    case False
    obtain rest where rest: "key_rows s1 ?key (rt_lane_seq r) = r # rest" using key_rows_head [OF pos r1 r(2) refl] .
    obtain k where k: "nat limit = Suc k" using limit by (cases "nat limit") auto
    have "\<not> tombstoned s1 ?key (rt_lane_seq r)" using False by (simp add: attempt_spent_def)
    then have "live_rows s1 ?key (rt_lane_seq r) (nat limit) \<noteq> []" by (simp add: rest k)
    from claim_ready_slot_productive [OF pos ready1 this] show thesis
      using that(1) run False by (metis (no_types))
  qed
qed

lemma ready_target:
  assumes wf: "claim_wf s" and c: "s_claim_heads s (row_lane r) = Some c" and r: "r \<in> set (s_ready s)" "\<not> spent s r"
  shows "first_segment s (row_lane r) c \<noteq> None" "c \<le> rt_lane_seq r"
proof -
  show le: "c \<le> rt_lane_seq r" using cursor_spent [OF wf c r(1) refl] r(2) by fastforce
  obtain g where "(rt_ready_slot r, rt_ready_generation r, g) \<in> set (s_segments s)" "segment_lane g = row_lane r"
      "rt_lane_seq r < sg_next_lane_seq g"
    using row_segment [of s r] wf r(1) by (auto simp: claim_wf_def)
  with le show "first_segment s (row_lane r) c \<noteq> None"
    unfolding first_segment_def option.map_disc_iff first_of_none by fastforce
qed

lemma candidate_ready:
  assumes "claim_ready aging s" "c \<in> set (lane_candidates s env queue)"
  shows "\<not> isl (candidate_order aging (s_now s) c)"
proof (cases "cn_target c")
  case None
  then show ?thesis by (simp add: candidate_order_def)
next
  case (Some t)
  then obtain slot generation run_at where t: "cn_target c = Some (slot, generation, run_at)" by (cases t) simp
  then obtain g where g: "(slot, generation, g) \<in> set (s_segments s)" "segment_lane g = cn_lane c" "run_at = sg_first_run_at g"
    using candidate_fields [OF assms(2)] unfolding first_segment_def by (fastforce dest!: first_of_sorted)
  have "\<not> isl (aged_priority aging (s_now s) run_at (sg_priority g))"
    using assms(1) g(1,3) by (auto simp: claim_ready_def list_all_iff)
  moreover have "fst (snd (cn_lane c)) = sg_priority g" using g(2) [symmetric] by (simp add: segment_lane_def)
  ultimately show ?thesis using t by (cases "aged_priority aging (s_now s) run_at (sg_priority g)") (simp_all add: candidate_order_def res_bind_def)
qed

lemma select_lane_target:
  assumes ready: "claim_ready aging s" and c: "c \<in> set (lane_candidates s env queue)" "cn_target c \<noteq> None"
    "cn_lane c \<notin> set (cv_locked env)"
  obtains d where "select_lane env queue aging s = (Inr (Some d), s)" "d \<in> set (lane_candidates s env queue)" "cn_target d \<noteq> None"
proof -
  let ?cs = "lane_candidates s env queue"
  obtain keys where keys: "res_map (candidate_order aging (s_now s)) ?cs = Inr keys"
    using res_map_total [where f = "candidate_order aging (s_now s)"] candidate_ready [OF ready] by blast
  have key: "candidate_order aging (s_now s) d = Inr k" if d: "(k, d) \<in> set (zip keys ?cs)" for k d
    using d res_map_Inr_nth [OF keys] by (auto simp: set_zip)
  let ?l = "filter (\<lambda>(_, c). cn_lane c \<notin> set (cv_locked env)) (sort_key fst (zip keys ?cs))"
  obtain k where k: "(k, c) \<in> set (zip keys ?cs)"
    using c(1) res_map_Inr_length [OF keys] by (metis in_set_impl_in_set_zip2)
  have kl: "(k, c) \<in> set ?l" using k c(3) by simp
  then obtain m d rest where l: "?l = (m, d) # rest" by (cases ?l) auto
  have "sorted (map fst ?l)" by (intro sorted_filter sorted_sort_key)
  then have le: "m \<le> k" using kl unfolding l by auto
  have "(m, d) \<in> set ?l" by (simp only: l list.set_intros)
  then have md: "(m, d) \<in> set (zip keys ?cs)" by simp
  have "cn_target d \<noteq> None"
  proof
    assume "cn_target d = None"
    then have "m = ((1, 0), (1, 0), fst (snd (cn_lane d)))" using key [OF md] by (simp add: candidate_order_def)
    moreover have "fst (fst k) = 0" using key [OF k] c(2) by (auto simp: candidate_order_def res_bind_def Let_def split: sum.splits)
    ultimately show False using le by (cases k) (auto simp: less_eq_prod_def)
  qed
  moreover have "select_lane env queue aging s = (Inr (Some d), s)"
    using keys by (simp add: select_lane_def tx_simps l first_of_def)
  ultimately show thesis using md by (intro that [of d]) (auto dest: set_zip_rightD)
qed

text \<open>A ready row that a scan of its queue can reach.\<close>

definition waiting :: "store \<Rightarrow> claim_env \<Rightarrow> string \<Rightarrow> ready_transition_row \<Rightarrow> bool" where
  "waiting s env queue r \<longleftrightarrow>
    r \<in> set (s_ready s) \<and> \<not> spent s r \<and> fst (row_lane r) = queue \<and> queue \<notin> set (s_paused s) \<and>
    row_lane r \<in> set (cv_scan env) \<and> row_lane r \<notin> set (cv_locked env) \<and> s_claim_heads s (row_lane r) \<noteq> None"

lemma waiting_candidate:
  assumes wf: "claim_wf s" and lanes: "lanes_wf s" and r: "waiting s env queue r"
  obtains c where "c \<in> set (lane_candidates s env queue)" "cn_target c \<noteq> None" "cn_lane c \<notin> set (cv_locked env)"
proof -
  obtain n where n: "s_claim_heads s (row_lane r) = Some n" using r by (auto simp: waiting_def)
  have r': "r \<in> set (s_ready s)" "\<not> spent s r" using r by (simp_all add: waiting_def)
  note target = ready_target [OF wf n r']
  obtain h where h: "s_heads s (row_lane r) = Some h" "rt_lane_seq r < h"
    using lanes r'(1) by (fastforce simp: lanes_wf_def list_all_iff lane_start_def)
  let ?c = "\<lparr> cn_lane = row_lane r, cn_claim_seq = n, cn_next_seq = h, cn_target = first_segment s (row_lane r) n \<rparr>"
  have "?c \<in> set (lane_candidates s env queue)"
    using n h target(2) r by (force simp: lane_candidates_def List.map_filter_def waiting_def)
  then show thesis using target(1) r by (intro that [of ?c]) (simp_all add: waiting_def)
qed

lemma claim_runtime_progress:
  assumes wf: "claim_wf s" and ready: "claim_ready aging s" and lanes: "lanes_wf s" and batch: "0 < max_batch"
    and r: "waiting s env queue r"
  obtains rows s' where "claim_ready_runtime env queue max_batch deadline aging s = (Inr rows, s')" "rows \<noteq> []"
  | lane c n h where "claim_ready_runtime env queue max_batch deadline aging s = (Inr [], moved_to s lane n)"
      "lane \<in> set (cv_scan env)" "s_claim_heads s lane = Some c" "s_heads s lane = Some h" "c < h" "c < n"
      "claim_wf (moved_to s lane n)"
proof -
  obtain c0 where "c0 \<in> set (lane_candidates s env queue)" "cn_target c0 \<noteq> None" "cn_lane c0 \<notin> set (cv_locked env)"
    using waiting_candidate [OF wf lanes r] .
  from select_lane_target [OF ready this] obtain d where sel: "select_lane env queue aging s = (Inr (Some d), s)"
    and d: "d \<in> set (lane_candidates s env queue)" "cn_target d \<noteq> None" .
  note f = candidate_fields [OF d(1)]
  let ?lane = "cn_lane d" and ?c = "cn_claim_seq d"
  obtain slot generation t where seg: "first_segment s ?lane ?c = Some (slot, generation, t)" using d(2) f by auto
  have head: "s_claim_heads s ?lane = Some ?c" using f by simp
  have run: "claim_ready_runtime env queue max_batch deadline aging s =
      tx_bind (catch_up ?lane ?c (slot, generation)) (\<lambda>route. case route of None \<Rightarrow> tx_ret []
        | Some ((slot, generation), claim_seq) \<Rightarrow>
            claim_from deadline aging max_batch (slot, generation, ?lane) claim_seq (cn_next_seq d)) s"
    using sel f seg by (simp add: claim_ready_runtime_def tx_bind_def tx_simps)
  show thesis
  proof (rule catch_up_cases [OF wf head seg])
    fix n assume n: "claim_wf (moved_to s ?lane n)" "?c < n"
      "catch_up ?lane ?c (slot, generation) s = (Inr None, moved_to s ?lane n)"
    have "claim_ready_runtime env queue max_batch deadline aging s = (Inr [], moved_to s ?lane n)"
      unfolding run tx_bind_def n(3) by (simp add: tx_simps)
    then show thesis using f n(1,2) by (intro that(2) [of ?lane n ?c "cn_next_seq d"]) simp_all
  next
    fix n sl gn t'
    assume n: "?c \<le> n" "claim_wf (moved_to s ?lane n)" "first_segment s ?lane n = Some (sl, gn, t')"
      "catch_up ?lane ?c (slot, generation) s = (Inr (Some ((sl, gn), n)), moved_to s ?lane n)"
    let ?s1 = "moved_to s ?lane n"
    have run1: "claim_ready_runtime env queue max_batch deadline aging s =
        claim_from deadline aging max_batch (sl, gn, ?lane) n (cn_next_seq d) ?s1"
      unfolding run tx_bind_def n(4) by simp
    have heads: "s_claim_heads ?s1 ?lane = Some n" "first_segment ?s1 ?lane n = Some (sl, gn, t')"
        "s_heads ?s1 ?lane = Some (cn_next_seq d)" "claim_ready aging ?s1" "lanes_wf ?s1"
      using n(3) f ready lanes by (simp_all add: lanes_wf_def lane_start_def)
    show thesis
    proof (rule claim_from_progress [OF n(2) heads(4,5) batch heads(1-3)])
      fix rows s' assume "claim_from deadline aging max_batch (sl, gn, ?lane) n (cn_next_seq d) ?s1 = (Inr rows, s')" "rows \<noteq> []"
      then show thesis using run1 by (intro that(1) [of rows s']) simp_all
    next
      fix m assume "claim_from deadline aging max_batch (sl, gn, ?lane) n (cn_next_seq d) ?s1 = (Inr [], moved_to ?s1 ?lane m)"
        "n < m" "claim_wf (moved_to ?s1 ?lane m)"
      then show thesis using run1 n(1) f by (intro that(2) [of ?lane m ?c "cn_next_seq d"]) simp_all
    qed
  qed
qed

text \<open>Claims repeated until one returns rows, and how far the cursors of some lanes lie behind their heads.\<close>

fun poll :: "claim_env list \<Rightarrow> string \<Rightarrow> int \<Rightarrow> millis \<Rightarrow> millis \<Rightarrow> ready_job_lease_row list tx" where
  "poll [] queue max_batch deadline aging = tx_ret []"
| "poll (env # envs) queue max_batch deadline aging =
    tx_bind (claim_ready_runtime env queue max_batch deadline aging) (\<lambda>rows.
      if rows = [] then poll envs queue max_batch deadline aging else tx_ret rows)"

definition lane_lag :: "store \<Rightarrow> lane \<Rightarrow> nat" where
  "lane_lag s lane = (case (s_claim_heads s lane, s_heads s lane) of (Some c, Some h) \<Rightarrow> nat (h - c) | _ \<Rightarrow> 0)"

definition lag :: "store \<Rightarrow> lane set \<Rightarrow> nat" where
  "lag s lanes = (\<Sum>lane \<in> lanes. lane_lag s lane)"

lemma lag_moved:
  assumes "finite lanes" "lane \<in> lanes" "s_claim_heads s lane = Some c" "s_heads s lane = Some h" "c < h" "c < n"
  shows "lag (moved_to s lane n) lanes < lag s lanes"
  unfolding lag_def by (rule sum_strict_mono_ex1) (use assms in \<open>auto simp: lane_lag_def split: option.splits intro!: bexI [of _ lane]\<close>)

text \<open>
  C8: A waiting job is reached.  While nothing else changes the store, claims of a queue that holds an unspent
  ready row return rows after finitely many attempts: each claim either returns rows or moves the cursor of a
  lane forward, so one more attempt than the distance between the cursors and the heads of the scanned lanes
  is enough, whichever lanes are locked at each attempt as long as the row's own lane is not.
\<close>

theorem waiting_job_is_reached:
  assumes "claim_wf s" "lanes_wf s" "claim_ready aging s" "0 < max_batch"
    and "\<And>env. env \<in> set envs \<Longrightarrow> set (cv_scan env) \<subseteq> set scanned \<and> waiting s env queue r"
    and "lag s (set scanned) < length envs"
  shows "\<exists>rows s'. poll envs queue max_batch deadline aging s = (Inr rows, s') \<and> rows \<noteq> []"
  using assms
proof (induction envs arbitrary: s)
  case (Cons env envs)
  have env: "set (cv_scan env) \<subseteq> set scanned" "waiting s env queue r" using Cons.prems(5) by simp_all
  show ?case
  proof (rule claim_runtime_progress [OF Cons.prems(1,3,2,4) env(2), where deadline = deadline])
    fix rows s' assume "claim_ready_runtime env queue max_batch deadline aging s = (Inr rows, s')" "rows \<noteq> []"
    then show ?thesis by (simp add: tx_bind_def tx_ret_def)
  next
    fix lane c n h
    assume run: "claim_ready_runtime env queue max_batch deadline aging s = (Inr [], moved_to s lane n)"
      and at_lane: "lane \<in> set (cv_scan env)" "s_claim_heads s lane = Some c" "s_heads s lane = Some h" "c < h" "c < n"
      and wf: "claim_wf (moved_to s lane n)"
    have less: "lag (moved_to s lane n) (set scanned) < lag s (set scanned)"
      using lag_moved [OF _ _ at_lane(2-5)] at_lane(1) env(1) by auto
    have "\<exists>rows s'. poll envs queue max_batch deadline aging (moved_to s lane n) = (Inr rows, s') \<and> rows \<noteq> []"
    proof (rule Cons.IH [OF wf _ _ Cons.prems(4)])
      fix env' assume "env' \<in> set envs"
      then show "set (cv_scan env') \<subseteq> set scanned \<and> waiting (moved_to s lane n) env' queue r"
        using Cons.prems(5) [of env'] by (simp add: waiting_def)
    qed (use Cons.prems less in \<open>simp_all add: lanes_wf_def lane_start_def\<close>)
    then show ?thesis using run by (simp add: tx_bind_def)
  qed
qed simp

text \<open>The cursor still stands at the removed job: the first claim steps over it, the second returns the other one.\<close>

definition stale_cursor_store :: store where
  "stale_cursor_store = moved_to lane_store (''q'', 2, 0) 1"

theorem waiting_job_is_reached_witness:
  "fst (poll [mail_scan] ''q'' 5 60000 60000 stale_cursor_store) = Inr [] \<and>
   (\<exists>rows s'. poll [mail_scan, mail_scan, mail_scan] ''q'' 5 60000 60000 stale_cursor_store = (Inr rows, s') \<and> rows \<noteq> [])"
proof (intro conjI)
  show "fst (poll [mail_scan] ''q'' 5 60000 60000 stale_cursor_store) = Inr []" by code_simp
  have "claim_wf stale_cursor_store"
    using lane_store_wf unfolding stale_cursor_store_def claim_wf_heads cursors_wf_heads
    by (auto simp: claim_wf_def lane_store_def lane_row_def ran_def row_lane_def)
  moreover have "lanes_wf stale_cursor_store" "claim_ready 60000 stale_cursor_store" by code_simp+
  moreover have "waiting stale_cursor_store mail_scan ''q'' (lane_row 8 2)" by code_simp
  moreover have "lag stale_cursor_store (set [(''q'', 2, 0)]) < 3" by code_simp
  moreover have "set (cv_scan mail_scan) \<subseteq> set [(''q'', 2, 0)]" by code_simp
  ultimately show "\<exists>rows s'. poll [mail_scan, mail_scan, mail_scan] ''q'' 5 60000 60000 stale_cursor_store = (Inr rows, s') \<and> rows \<noteq> []"
    by (intro waiting_job_is_reached [where scanned = "[(''q'', 2, 0)]" and r = "lane_row 8 2"]) auto
qed

subsection \<open>A job that is too old\<close>

lemma candidate_order_Inl: "candidate_order aging now c = Inl e \<Longrightarrow> e = smallint_out_of_range"
  by (auto simp: candidate_order_def aged_priority_def res_bind_def Let_def split: option.splits if_splits)

lemma select_lane_fails:
  assumes c: "c \<in> set (lane_candidates s env queue)" and bad: "isl (candidate_order aging (s_now s) c)"
  shows "select_lane env queue aging s = (Inl smallint_out_of_range, s)"
proof (cases "res_map (candidate_order aging (s_now s)) (lane_candidates s env queue)")
  case (Inl e)
  then show ?thesis
    using res_map_Inl [OF Inl] candidate_order_Inl by (auto simp: select_lane_def tx_simps)
next
  case (Inr keys)
  then show ?thesis using c bad res_map_Inr_nth [OF Inr] by (metis in_set_conv_nth sum.disc(2))
qed

text \<open>
  C27: One job whose time lies more than 32767 aging intervals back blocks its queue.  The age of the first
  segment of every scanned lane is cast to a smallint to order the lanes, so every claim of the queue fails
  with the numeric error of the cast and leaves the store as it was: no job of any lane is claimed.
\<close>

theorem ancient_job_blocks_queue:
  assumes "lane \<in> set (cv_scan env)" "fst lane = queue" "queue \<notin> set (s_paused s)"
    and "s_claim_heads s lane = Some c" "s_heads s lane = Some n" "c < n"
    and seg: "first_segment s lane c = Some (slot, generation, run_at)"
    and aging: "0 < aging" "32767 < (s_now s - run_at) div aging" and batch: "0 < max_batch"
  shows "claim_runtime_batch_with_aging_physical env fails queue max_batch deadline aging s = (Inl smallint_out_of_range, s)"
proof -
  let ?c = "\<lparr> cn_lane = lane, cn_claim_seq = c, cn_next_seq = n, cn_target = first_segment s lane c \<rparr>"
  have "?c \<in> set (lane_candidates s env queue)"
    using assms(1-6) by (force simp: lane_candidates_def List.map_filter_def)
  moreover have "isl (candidate_order aging (s_now s) ?c)"
    using aging seg by (simp add: candidate_order_def aged_priority_def in_smallint_def res_bind_def)
  ultimately have "select_lane env queue aging s = (Inl smallint_out_of_range, s)" by (rule select_lane_fails)
  then have "claim_transaction env queue max_batch deadline aging s = (Inl smallint_out_of_range, s)"
    by (simp add: claim_transaction_def claim_ready_rows_tx_def claim_ready_runtime_def tx_bind_def in_tx_def rollback_def)
  then show ?thesis
    using batch by (simp add: claim_runtime_batch_with_aging_physical_def tx_bind_def)
qed

text \<open>With aging every minute a job of twenty-three days ago is enough.\<close>

theorem ancient_job_blocks_queue_witness:
  "claim_runtime_batch_with_aging_physical mail_scan [] ''q'' 5 60000 60000 (lane_store\<lparr>s_now := 23 * 86400000\<rparr>) =
     (Inl smallint_out_of_range, lane_store\<lparr>s_now := 23 * 86400000\<rparr>)"
  by (rule ancient_job_blocks_queue [where lane = "(''q'', 2, 0)" and c = 2 and n = 3 and slot = 0 and generation = 0 and run_at = 0])
    (simp_all add: mail_scan_def lane_store_def fresh_store_def first_segment_def segment_lane_def first_of_def)

end
