(* ===== verification/Awa_Rescue.thy ===== *)
theory Awa_Rescue
  imports Awa_Completion
begin

section \<open>Rescue of lost attempts\<close>

text \<open>
  The maintenance operations of \<^verbatim>\<open>queue_storage.rs\<close> that find attempts whose worker is gone: stale
  heartbeats, expired deadlines and expired callbacks, over leases and over receipt claims.  Receipt claims are
  scanned per claim slot behind a cursor that wraps around; each scan takes advisory locks in one statement
  and decides and closes in a second one.

  The attempts whose advisory lock another process holds and those whose claim row it has locked are arguments of a
  scan, because a scan skips them instead of waiting.  The clock stands still during an operation.

  The theorems show that a scan closes exactly the open claims that it returns, whatever was committed between
  its two statements; that a stale claim is rescued after finitely many scans; and that an attempt returned by a rescue
  can no longer be taken by its worker.
\<close>


subsection \<open>Scanning behind a cursor\<close>

definition RECEIPT_RESCUE_BATCH_LIMIT :: nat where
  "RECEIPT_RESCUE_BATCH_LIMIT = 500"

definition RECEIPT_RESCUE_CURSOR_SCAN_LIMIT :: nat where
  "RECEIPT_RESCUE_CURSOR_SCAN_LIMIT = 10000"

definition RECEIPT_DEADLINE_RESCUE_CURSOR_SCAN_LIMIT :: nat where
  "RECEIPT_DEADLINE_RESCUE_CURSOR_SCAN_LIMIT = 10000"

text \<open>
  \<^verbatim>\<open>after_cursor\<close> and \<^verbatim>\<open>before_cursor\<close>: the next elements after the cursor and, when the limit allows, the
  first ones from the start.  The position in the list is the \<^verbatim>\<open>rn\<close> of the statement.
\<close>

definition scan_window :: "('a \<Rightarrow> 'k :: linorder) \<Rightarrow> 'k \<Rightarrow> nat \<Rightarrow> 'a list \<Rightarrow> 'a list" where
  "scan_window key cursor limit xs =
    (let after = take limit (sort_key key (filter (\<lambda>x. cursor < key x) xs)) in
     after @ take (limit - length after) (sort_key key (filter (\<lambda>x. key x \<le> cursor) xs)))"

text \<open>The last element before the first that may not be passed.\<close>

definition advance_target :: "('a \<Rightarrow> bool) \<Rightarrow> (nat \<times> 'a) list \<Rightarrow> 'a option" where
  "advance_target advanceable cands =
    (let blocked = map fst (filter (\<lambda>(_, x). \<not> advanceable x) cands);
         passed = filter (\<lambda>(rn, _). blocked = [] \<or> rn < Min (set blocked)) cands in
     if passed = [] then None else Some (snd (last passed)))"


subsection \<open>Receipt claims\<close>

fun target_pair :: "claim_target \<Rightarrow> job_id \<times> int" where
  "target_pair (RowTarget c) = (lc_job_id c, lc_run_lease c)"
| "target_pair (BatchTarget (b, i)) = (it_job_id i, it_run_lease i)"

fun target_claimed_at :: "claim_target \<Rightarrow> timestamp" where
  "target_claimed_at (RowTarget c) = lc_claimed_at c"
| "target_claimed_at (BatchTarget (b, i)) = lb_claimed_at b"

definition claim_source :: "store \<Rightarrow> int \<Rightarrow> claim_target list" where
  "claim_source s slot =
    map RowTarget (filter (\<lambda>c. lc_claim_slot c = slot) (s_lease_claims s)) @
    map BatchTarget (filter (\<lambda>(b, _). lb_claim_slot b = slot) (batch_items s))"

text \<open>The closing evidence of a claim of a slot, looked up in the partitions of the slot.\<close>

fun target_closed :: "store \<Rightarrow> int \<Rightarrow> claim_target \<Rightarrow> bool" where
  "target_closed s slot (RowTarget c) \<longleftrightarrow>
    lc_closed_at c \<noteq> None \<or> has_closure s slot (lc_job_id c) (lc_run_lease c) \<or> batch_closed s slot (lc_receipt_id c) \<or>
    moved_on s (lc_job_id c) (lc_run_lease c)"
| "target_closed s slot (BatchTarget (b, i)) \<longleftrightarrow>
    has_closure s slot (it_job_id i) (it_run_lease i) \<or> batch_closed s slot (it_receipt_id i) \<or>
    moved_on s (it_job_id i) (it_run_lease i)"

definition lease_managed :: "store \<Rightarrow> claim_target \<Rightarrow> bool" where
  "lease_managed s t \<longleftrightarrow> leased s (fst (target_pair t)) (snd (target_pair t))"

definition is_stale :: "store \<Rightarrow> timestamp \<Rightarrow> claim_target \<Rightarrow> bool" where
  "is_stale s cutoff t \<longleftrightarrow>
    or_default (Option.bind (find_attempt s (fst (target_pair t)) (snd (target_pair t))) as_heartbeat_at) (target_claimed_at t) < cutoff"

text \<open>
  The join of the window with its source: every claim of the attempt at that place of the window.
\<close>

definition joined :: "claim_target list \<Rightarrow> claim_target list \<Rightarrow> (nat \<times> claim_target) list" where
  "joined source window =
    concat (map (\<lambda>(rn, w). map (\<lambda>t. (rn, t)) (filter (\<lambda>t. target_pair t = target_pair w) source)) (enumerate 1 window))"

text \<open>
  What closing some claims writes: a closure for each row claim, marked on the row, and one closure batch for
  each ready segment of the batch items.
\<close>

definition row_closure :: "string \<Rightarrow> timestamp \<Rightarrow> lease_claim \<Rightarrow> claim_closure" where
  "row_closure outcome now c =
    \<lparr> cc_claim_slot = lc_claim_slot c, cc_job_id = lc_job_id c, cc_run_lease = lc_run_lease c, cc_outcome = outcome, cc_closed_at = now \<rparr>"

definition row_targets :: "claim_target list \<Rightarrow> lease_claim list" where
  "row_targets ts = List.map_filter (\<lambda>t. case t of RowTarget c \<Rightarrow> Some c | BatchTarget _ \<Rightarrow> None) ts"

definition batch_targets :: "claim_target list \<Rightarrow> (lease_claim_batch \<times> claim_item) list" where
  "batch_targets ts = List.map_filter (\<lambda>t. case t of RowTarget _ \<Rightarrow> None | BatchTarget bi \<Rightarrow> Some bi) ts"

definition close_targets :: "string \<Rightarrow> claim_target list \<Rightarrow> store \<Rightarrow> store" where
  "close_targets outcome ts s =
    (let rows = row_targets ts in
     s\<lparr>s_closures := s_closures s @ map (row_closure outcome (s_now s)) rows,
       s_lease_claims := map (\<lambda>c. if list_ex (\<lambda>r. lc_claim_slot r = lc_claim_slot c \<and> lc_job_id r = lc_job_id c \<and>
             lc_run_lease r = lc_run_lease c) rows
           then c\<lparr>lc_closed_at := Some (or_default (lc_closed_at c) (s_now s))\<rparr> else c) (s_lease_claims s),
       s_closure_batches := s_closure_batches s @ closure_batches outcome (s_now s) (batch_targets ts)\<rparr>)"

text \<open>
  A scan: its candidates in order, which of them need nothing (closed, managed by a lease, not due), the order
  and the limit in which it picks from the others, and how it moves its cursor.
\<close>

record rescue_scan =
  sc_outcome :: string
  sc_candidates :: "store \<Rightarrow> (nat \<times> claim_target) list"
  sc_skip :: "store \<Rightarrow> claim_target \<Rightarrow> bool"
  sc_order :: "(nat \<times> claim_target) list \<Rightarrow> (nat \<times> claim_target) list"
  sc_move :: "claim_target \<Rightarrow> store \<Rightarrow> store"

text \<open>The attempts locked by others, and those whose claim row is.\<close>

record rescue_env =
  rv_locked :: "(job_id \<times> int) list"
  rv_row_locked :: "(job_id \<times> int) list"

definition scan_picks :: "rescue_scan \<Rightarrow> nat \<Rightarrow> store \<Rightarrow> claim_target list" where
  "scan_picks sc limit s = map snd (take limit (sc_order sc (filter (\<lambda>(_, t). \<not> sc_skip sc s t) (sc_candidates sc s))))"

text \<open>The first statement takes the locks.\<close>

definition scan_locks :: "rescue_env \<Rightarrow> rescue_scan \<Rightarrow> nat \<Rightarrow> store \<Rightarrow> (job_id \<times> int) list" where
  "scan_locks env sc limit s = filter (\<lambda>p. p \<notin> set (rv_locked env)) (map target_pair (scan_picks sc limit s))"

text \<open>
  The second statement scans again and closes what it picks and has locked, row claims before batch items, and moves
  the cursor.  Its further anti-joins repeat the conditions of the pick on the same snapshot.
\<close>

definition scan_hits :: "rescue_env \<Rightarrow> rescue_scan \<Rightarrow> nat \<Rightarrow> (job_id \<times> int) list \<Rightarrow> store \<Rightarrow> claim_target list" where
  "scan_hits env sc limit locked s =
    (let hits = filter (\<lambda>t. target_pair t \<in> set locked \<and> target_pair t \<notin> set (rv_row_locked env)) (scan_picks sc limit s) in
     map RowTarget (row_targets hits) @ map BatchTarget (batch_targets hits))"

definition scan_close :: "rescue_env \<Rightarrow> rescue_scan \<Rightarrow> nat \<Rightarrow> (job_id \<times> int) list \<Rightarrow> store \<Rightarrow> claim_target list \<times> store" where
  "scan_close env sc limit locked s =
    (let hits = scan_hits env sc limit locked s;
         advanceable = \<lambda>t. sc_skip sc s t \<or> target_pair t \<in> set (map target_pair hits);
         closed = close_targets (sc_outcome sc) hits s in
     (hits, case advance_target advanceable (sc_candidates sc s) of None \<Rightarrow> closed | Some t \<Rightarrow> sc_move sc t closed))"

definition run_scan :: "rescue_env \<Rightarrow> rescue_scan \<Rightarrow> nat \<Rightarrow> claim_target list tx" where
  "run_scan env sc limit s = (let (hits, s') = scan_close env sc limit (scan_locks env sc limit s) s in (Inr hits, s'))"

subsection \<open>The three scans of a claim slot\<close>

definition with_cursor :: "int \<Rightarrow> (claim_slot_cursors \<Rightarrow> 'a list) \<Rightarrow> store \<Rightarrow> 'a list" where
  "with_cursor slot f s = (case s_claim_cursors s slot of None \<Rightarrow> [] | Some c \<Rightarrow> f c)"

definition move_cursor :: "int \<Rightarrow> (claim_slot_cursors \<Rightarrow> claim_slot_cursors) \<Rightarrow> store \<Rightarrow> store" where
  "move_cursor slot f s = s\<lparr>s_claim_cursors := (s_claim_cursors s)(slot := map_option f (s_claim_cursors s slot))\<rparr>"

definition stale_key :: "claim_target \<Rightarrow> timestamp option \<times> job_id \<times> int" where
  "stale_key t = (Some (target_claimed_at t), target_pair t)"

definition stale_scan :: "int \<Rightarrow> timestamp \<Rightarrow> rescue_scan" where
  "stale_scan slot cutoff =
    \<lparr> sc_outcome = ''rescued'',
      sc_candidates = (\<lambda>s. with_cursor slot (\<lambda>c.
        joined (claim_source s slot) (scan_window stale_key (rescue_cursor c) RECEIPT_RESCUE_CURSOR_SCAN_LIMIT
          (filter (\<lambda>t. target_claimed_at t < cutoff) (claim_source s slot)))) s),
      sc_skip = (\<lambda>s t. target_closed s slot t \<or> lease_managed s t \<or> \<not> is_stale s cutoff t),
      sc_order = id,
      sc_move = (\<lambda>t. move_cursor slot (\<lambda>c. c\<lparr>rescue_cursor := stale_key t\<rparr>)) \<rparr>"

fun row_deadline :: "claim_target \<Rightarrow> timestamp option" where
  "row_deadline (RowTarget c) = lc_deadline_at c"
| "row_deadline (BatchTarget (b, _)) = lb_deadline_at b"

definition past :: "timestamp \<Rightarrow> timestamp option \<Rightarrow> bool" where
  "past now t \<longleftrightarrow> (case t of None \<Rightarrow> False | Some d \<Rightarrow> d < now)"

text \<open>With a clock that stands still \<^verbatim>\<open>is_expired\<close> repeats the condition of the window.\<close>

definition row_deadline_scan :: "int \<Rightarrow> rescue_scan" where
  "row_deadline_scan slot =
    \<lparr> sc_outcome = ''deadline_expired'',
      sc_candidates = (\<lambda>s. with_cursor slot (\<lambda>c.
        (let rows = map RowTarget (filter (\<lambda>c. lc_claim_slot c = slot) (s_lease_claims s)) in
         joined rows (scan_window (\<lambda>t. (row_deadline t, target_pair t)) (deadline_cursor c)
           RECEIPT_DEADLINE_RESCUE_CURSOR_SCAN_LIMIT (filter (\<lambda>t. past (s_now s) (row_deadline t)) rows)))) s),
      sc_skip = (\<lambda>s t. target_closed s slot t \<or> lease_managed s t),
      sc_order = id,
      sc_move = (\<lambda>t. move_cursor slot (\<lambda>c. c\<lparr>deadline_cursor := (row_deadline t, target_pair t)\<rparr>)) \<rparr>"

fun target_batch_id :: "claim_target \<Rightarrow> int" where
  "target_batch_id (RowTarget c) = 0"
| "target_batch_id (BatchTarget (b, _)) = lb_batch_id b"

fun target_receipt :: "claim_target \<Rightarrow> int" where
  "target_receipt (RowTarget c) = lc_receipt_id c"
| "target_receipt (BatchTarget (_, i)) = it_receipt_id i"

text \<open>Batches share one deadline: the cursor walks over batches and the candidates are their members.\<close>

definition batch_deadline_scan :: "int \<Rightarrow> rescue_scan" where
  "batch_deadline_scan slot =
    \<lparr> sc_outcome = ''deadline_expired'',
      sc_candidates = (\<lambda>s. with_cursor slot (\<lambda>c.
        concat (map (\<lambda>(rn, b). map (\<lambda>i. (rn, BatchTarget (b, i))) (lb_items b))
          (enumerate 1 (scan_window (\<lambda>b. (lb_deadline_at b, lb_batch_id b)) (batch_deadline_cursor c)
            RECEIPT_DEADLINE_RESCUE_CURSOR_SCAN_LIMIT
            (filter (\<lambda>b. lb_claim_slot b = slot \<and> past (s_now s) (lb_deadline_at b)) (s_claim_batches s)))))) s),
      sc_skip = (\<lambda>s t. target_closed s slot t \<or> lease_managed s t),
      sc_order = sort_key (\<lambda>(rn, t). (rn, target_receipt t)),
      sc_move = (\<lambda>t. move_cursor slot (\<lambda>c. c\<lparr>batch_deadline_cursor := (row_deadline t, target_batch_id t)\<rparr>)) \<rparr>"

definition rescue_stale_receipt_claims_for_slot_tx :: "rescue_env \<Rightarrow> timestamp \<Rightarrow> int \<Rightarrow> nat \<Rightarrow> deleted_lease_row list tx" where
  "rescue_stale_receipt_claims_for_slot_tx env cutoff slot rescue_limit =
    tx_bind (run_scan env (stale_scan slot cutoff) rescue_limit) (\<lambda>hits. tx_ret (map deleted_of_target hits))"

definition rescue_expired_receipt_deadlines_for_slot_tx :: "rescue_env \<Rightarrow> int \<Rightarrow> nat \<Rightarrow> deleted_lease_row list tx" where
  "rescue_expired_receipt_deadlines_for_slot_tx env slot rescue_limit =
    (if rescue_limit = 0 then tx_ret []
     else tx_bind (run_scan env (row_deadline_scan slot) rescue_limit) (\<lambda>hits. tx_ret (map deleted_of_target hits)))"

definition rescue_expired_batch_deadlines_for_slot_tx :: "rescue_env \<Rightarrow> int \<Rightarrow> nat \<Rightarrow> deleted_lease_row list tx" where
  "rescue_expired_batch_deadlines_for_slot_tx env slot rescue_limit =
    (if rescue_limit = 0 then tx_ret []
     else tx_bind (run_scan env (batch_deadline_scan slot) rescue_limit) (\<lambda>hits. tx_ret (map deleted_of_target hits)))"

subsection \<open>All claim slots\<close>

definition oldest_initialized_claim_slot_tx :: "int option tx" where
  "oldest_initialized_claim_slot_tx =
    tx_get (\<lambda>s. case ledger_cursor (s_claim_ring s) of
        Inl _ \<Rightarrow> None
      | Inr (current_slot, generation) \<Rightarrow>
          (case oldest_initialized_ring_slot current_slot generation (rs_slot_count (s_claim_ring s)) of
             Some (slot, _) \<Rightarrow> if 0 \<le> slot \<and> slot < int (cfg_claim_slot_count (s_config s)) then Some slot else None
           | None \<Rightarrow> None))"

text \<open>The preferred slot first, then the others in order.\<close>

definition rescue_slot_order :: "int list tx" where
  "rescue_slot_order =
    tx_bind oldest_initialized_claim_slot_tx (\<lambda>preferred.
    tx_get (\<lambda>s. (case preferred of Some slot \<Rightarrow> [slot] | None \<Rightarrow> []) @
      filter (\<lambda>slot. Some slot \<noteq> preferred) (map int [0..<cfg_claim_slot_count (s_config s)])))"

fun rescue_slots :: "(int \<Rightarrow> nat \<Rightarrow> deleted_lease_row list tx) \<Rightarrow> nat \<Rightarrow> int list \<Rightarrow> deleted_lease_row list tx" where
  "rescue_slots f remaining [] = tx_ret []"
| "rescue_slots f remaining (slot # slots) =
    tx_bind (f slot remaining) (\<lambda>ds.
      if remaining - length ds = 0 then tx_ret ds
      else tx_bind (rescue_slots f (remaining - length ds) slots) (\<lambda>rest. tx_ret (ds @ rest)))"

definition rescue_stale_receipt_claims_tx :: "rescue_env \<Rightarrow> timestamp \<Rightarrow> deleted_lease_row list tx" where
  "rescue_stale_receipt_claims_tx env cutoff =
    tx_bind rescue_slot_order (rescue_slots (rescue_stale_receipt_claims_for_slot_tx env cutoff) RECEIPT_RESCUE_BATCH_LIMIT)"

definition rescue_deadlines_of_slot :: "rescue_env \<Rightarrow> int \<Rightarrow> nat \<Rightarrow> deleted_lease_row list tx" where
  "rescue_deadlines_of_slot env slot remaining =
    tx_bind (rescue_expired_batch_deadlines_for_slot_tx env slot remaining) (\<lambda>ds.
      if remaining - length ds = 0 then tx_ret ds
      else tx_bind (rescue_expired_receipt_deadlines_for_slot_tx env slot (remaining - length ds)) (\<lambda>rows. tx_ret (ds @ rows)))"

definition rescue_expired_receipt_deadlines_tx :: "rescue_env \<Rightarrow> deleted_lease_row list tx" where
  "rescue_expired_receipt_deadlines_tx env =
    tx_bind rescue_slot_order (rescue_slots (rescue_deadlines_of_slot env) RECEIPT_RESCUE_BATCH_LIMIT)"

subsection \<open>The rescue operations\<close>

text \<open>The selection locks rows, skipping locked ones, until the limit is reached.\<close>

definition LEASE_RESCUE_LIMIT :: nat where
  "LEASE_RESCUE_LIMIT = 500"

definition select_leases :: "rescue_env \<Rightarrow> (lease_entry \<Rightarrow> timestamp option) \<Rightarrow> (lease_entry \<Rightarrow> bool) \<Rightarrow> store \<Rightarrow> lease_entry list" where
  "select_leases env key due s =
    take LEASE_RESCUE_LIMIT (filter (\<lambda>l. lease_pair l \<notin> set (rv_row_locked env)) (sort_key key (filter due (s_leases s))))"

definition remove_leases :: "(lease_entry \<Rightarrow> bool) \<Rightarrow> deleted_lease_row list tx" where
  "remove_leases P =
    tx_bind (tx_get (\<lambda>s. filter P (s_leases s))) (\<lambda>deleted.
    tx_bind (tx_set (\<lambda>s. s\<lparr>s_leases := filter (\<lambda>l. \<not> P l) (s_leases s)\<rparr>)) (\<lambda>_. tx_ret (map deleted_of_lease deleted)))"

definition effective_heartbeat :: "store \<Rightarrow> lease_entry \<Rightarrow> timestamp option" where
  "effective_heartbeat s l =
    (case Option.bind (find_attempt s (ls_job_id l) (ls_run_lease l)) as_heartbeat_at of
       Some h \<Rightarrow> Some h | None \<Rightarrow> ls_heartbeat_at l)"

definition settle_all :: "life_env \<Rightarrow> (string \<Rightarrow> bool) \<Rightarrow> string \<Rightarrow> string \<Rightarrow> lease_transition_row list \<Rightarrow> job_row list tx" where
  "settle_all life dlq_enabled error reason =
    tx_for (\<lambda>row. settle_rescued_attempt_tx life row error (if dlq_enabled (r_queue row) then Some reason else None))"

definition rescue_stale_heartbeats_with_dlq ::
  "rescue_env \<Rightarrow> life_env \<Rightarrow> millis \<Rightarrow> (string \<Rightarrow> bool) \<Rightarrow> job_row list tx" where
  "rescue_stale_heartbeats_with_dlq env life staleness dlq_enabled =
    in_tx (
      tx_bind (tx_lift (time_delta ''staleness'' staleness)) (\<lambda>delta.
      tx_bind (tx_get (\<lambda>s. s_now s - delta)) (\<lambda>cutoff.
      tx_bind (tx_get (\<lambda>s. map lease_pair (select_leases env (effective_heartbeat s)
        (\<lambda>l. ls_state l = Running \<and> past cutoff (effective_heartbeat s l)) s))) (\<lambda>stale.
      tx_bind (remove_leases (\<lambda>l. lease_pair l \<in> set stale)) (\<lambda>deleted.
      tx_bind (tx_get (\<lambda>s. cfg_lease_claim_receipts (s_config s))) (\<lambda>receipts.
      tx_bind (if receipts then rescue_stale_receipt_claims_tx env cutoff else tx_ret []) (\<lambda>rescued_receipts.
        if deleted = [] \<and> rescued_receipts = [] then tx_ret []
        else
          tx_bind (hydrate_deleted_leases_tx deleted True) (\<lambda>moved_leases.
          tx_bind (hydrate_deleted_leases_tx rescued_receipts True) (\<lambda>moved_receipts.
          tx_bind (settle_all life dlq_enabled ''heartbeat stale: worker presumed dead'' ''heartbeat_stale'' moved_leases) (\<lambda>a.
          tx_bind (settle_all life dlq_enabled ''receipt claim stale: worker presumed dead'' ''heartbeat_stale'' moved_receipts) (\<lambda>b.
            tx_ret (a @ b))))))))))))"

definition rescue_stale_heartbeats :: "rescue_env \<Rightarrow> life_env \<Rightarrow> millis \<Rightarrow> job_row list tx" where
  "rescue_stale_heartbeats env life staleness = rescue_stale_heartbeats_with_dlq env life staleness (\<lambda>_. False)"

text \<open>Deadlines and callbacks delete by job: every lease of a job that has an expired one.\<close>

definition rescue_expired_deadlines_with_dlq :: "rescue_env \<Rightarrow> life_env \<Rightarrow> (string \<Rightarrow> bool) \<Rightarrow> job_row list tx" where
  "rescue_expired_deadlines_with_dlq env life dlq_enabled =
    in_tx (
      tx_bind (tx_get (\<lambda>s. map ls_job_id (select_leases env ls_deadline_at
        (\<lambda>l. ls_state l = Running \<and> past (s_now s) (ls_deadline_at l)) s))) (\<lambda>expired.
      tx_bind (remove_leases (\<lambda>l. ls_job_id l \<in> set expired)) (\<lambda>deleted.
      tx_bind (tx_get (\<lambda>s. cfg_lease_claim_receipts (s_config s))) (\<lambda>receipts.
      tx_bind (if receipts then rescue_expired_receipt_deadlines_tx env else tx_ret []) (\<lambda>receipt_deleted.
        if deleted = [] \<and> receipt_deleted = [] then tx_ret []
        else
          tx_bind (hydrate_deleted_leases_tx deleted True) (\<lambda>moved.
          tx_bind (hydrate_deleted_leases_tx receipt_deleted True) (\<lambda>more.
            settle_all life dlq_enabled ''hard deadline exceeded'' ''deadline_exceeded'' (moved @ more))))))))"

definition rescue_expired_deadlines :: "rescue_env \<Rightarrow> life_env \<Rightarrow> job_row list tx" where
  "rescue_expired_deadlines env life = rescue_expired_deadlines_with_dlq env life (\<lambda>_. False)"

definition rescue_expired_callbacks_with_dlq :: "rescue_env \<Rightarrow> life_env \<Rightarrow> (string \<Rightarrow> bool) \<Rightarrow> job_row list tx" where
  "rescue_expired_callbacks_with_dlq env life dlq_enabled =
    in_tx (
      tx_bind (tx_get (\<lambda>s. map ls_job_id (select_leases env ls_callback_timeout_at
        (\<lambda>l. ls_state l = WaitingExternal \<and> past (s_now s) (ls_callback_timeout_at l)) s))) (\<lambda>expired.
      tx_bind (remove_leases (\<lambda>l. ls_job_id l \<in> set expired)) (\<lambda>deleted.
        if deleted = [] then tx_ret []
        else
          tx_bind (hydrate_deleted_leases_tx deleted True) (\<lambda>moved.
            settle_all life dlq_enabled ''callback timed out'' ''callback_timeout'' moved))))"

definition rescue_expired_callbacks :: "rescue_env \<Rightarrow> life_env \<Rightarrow> job_row list tx" where
  "rescue_expired_callbacks env life = rescue_expired_callbacks_with_dlq env life (\<lambda>_. False)"

section \<open>Properties of rescues\<close>

subsection \<open>The window of a scan\<close>

lemma scan_window_subset: "set (scan_window key c n xs) \<subseteq> set xs"
proof -
  have "set (take m (sort_key key (filter P xs))) \<subseteq> set xs" for m P
    using set_take_subset [of m "sort_key key (filter P xs)"] by auto
  then show ?thesis unfolding scan_window_def Let_def by auto
qed

text \<open>The cyclic order of a scan from its cursor.\<close>

definition scanned_before :: "'k :: linorder \<Rightarrow> 'k \<Rightarrow> 'k \<Rightarrow> bool" where
  "scanned_before c a b \<longleftrightarrow> c < a \<and> a < b \<or> a < b \<and> b \<le> c \<or> b \<le> c \<and> c < a"

lemma sorted_take_less:
  assumes "inj_on key (set xs)" "y \<in> set (take n (sort_key key xs))" "t \<in> set xs" "t \<notin> set (take n (sort_key key xs))"
  shows "key y < key t \<and> n \<le> length xs"
proof -
  let ?l = "sort_key key xs"
  have "t \<in> set (take n ?l @ drop n ?l)" using assms(3) by simp
  then have t: "t \<in> set (drop n ?l)" using assms(4) unfolding set_append by blast
  have "sorted (map key (take n ?l @ drop n ?l))" by (simp only: append_take_drop_id sorted_sort_key)
  then have "key y \<le> key t" using assms(2) t unfolding map_append sorted_append by auto
  moreover have "y \<in> set xs" using in_set_takeD [OF assms(2)] by simp
  then have "key y \<noteq> key t" using assms(1-4) by (metis inj_onD)
  moreover have "n \<le> length xs"
  proof (rule ccontr)
    assume "\<not> n \<le> length xs"
    then have "drop n ?l = []" by simp
    with t show False by (metis empty_iff list.set(1))
  qed
  ultimately show ?thesis by simp
qed

lemma scan_window_before:
  assumes inj: "inj_on key (set xs)" and y: "y \<in> set (scan_window key c n xs)" and t: "t \<in> set xs" "t \<notin> set (scan_window key c n xs)"
  shows "scanned_before c (key y) (key t)"
proof -
  let ?A = "filter (\<lambda>x. c < key x) xs" and ?B = "filter (\<lambda>x. key x \<le> c) xs"
  let ?a = "take n (sort_key key ?A)"
  let ?b = "take (n - length ?a) (sort_key key ?B)"
  have w: "scan_window key c n xs = ?a @ ?b" by (simp add: scan_window_def Let_def)
  have injA: "inj_on key (set ?A)" and injB: "inj_on key (set ?B)" using inj by (auto intro: inj_on_subset)
  have not_in: "t \<notin> set ?a" "t \<notin> set ?b" using t(2) unfolding w by simp_all
  have ya: "c < key y" if "y \<in> set ?a" using in_set_takeD [OF that] by simp
  have yb: "key y \<le> c" if "y \<in> set ?b" using in_set_takeD [OF that] by simp
  show ?thesis
  proof (cases "c < key t")
    case True
    then have tA: "t \<in> set ?A" using t(1) by simp
    have "n \<le> length ?A"
    proof (rule ccontr)
      assume "\<not> n \<le> length ?A"
      then have "?a = sort_key key ?A" by simp
      then have "set ?a = set ?A" by simp
      with tA not_in(1) show False by simp
    qed
    then have "length ?a = n" by simp
    then have b: "?b = []" by simp
    have "y \<in> set ?a" using y unfolding w b append_Nil2 .
    then show ?thesis using sorted_take_less [OF injA _ tA not_in(1)] ya by (auto simp: scanned_before_def)
  next
    case False
    then have tB: "t \<in> set ?B" using t(1) by simp
    from y consider "y \<in> set ?a" | "y \<in> set ?b" unfolding w by auto
    then show ?thesis
    proof cases
      case 1
      then show ?thesis using ya False by (auto simp: scanned_before_def)
    next
      case 2
      then show ?thesis using sorted_take_less [OF injB 2 tB not_in(2)] yb False by (auto simp: scanned_before_def)
    qed
  qed
qed

lemma scan_window_nonempty: "xs \<noteq> [] \<Longrightarrow> 0 < n \<Longrightarrow> scan_window key c n xs \<noteq> []"
proof
  assume xs: "xs \<noteq> []" "0 < n" and w: "scan_window key c n xs = []"
  let ?A = "filter (\<lambda>x. c < key x) xs" and ?B = "filter (\<lambda>x. key x \<le> c) xs"
  have "take n (sort_key key ?A) = []" "take (n - length (take n (sort_key key ?A))) (sort_key key ?B) = []"
    using w by (simp_all add: scan_window_def Let_def)
  then have "sort_key key ?A = []" "sort_key key ?B = []" using xs(2) by auto
  then have "?A = []" "?B = []" by (metis length_0_conv length_sort)+
  then have "\<forall>x \<in> set xs. \<not> c < key x \<and> \<not> key x \<le> c" by (auto simp: filter_empty_conv)
  with xs(1) show False by (metis last_in_set leI)
qed

text \<open>How many elements a scan meets before one of them; it falls when the cursor moves to one of these.\<close>

definition scan_rank :: "('a \<Rightarrow> 'k :: linorder) \<Rightarrow> 'a list \<Rightarrow> 'k \<Rightarrow> 'k \<Rightarrow> nat" where
  "scan_rank key xs c b = card {a \<in> key ` set xs. scanned_before c a b}"

lemma scan_rank_less:
  assumes "x \<in> set xs" "scanned_before c (key x) b"
  shows "scan_rank key xs (key x) b < scan_rank key xs c b"
  unfolding scan_rank_def
proof (rule psubset_card_mono)
  show "finite {a \<in> key ` set xs. scanned_before c a b}" by simp
  have "scanned_before (key x) a b \<Longrightarrow> scanned_before c a b" for a using assms(2) by (auto simp: scanned_before_def)
  moreover have "\<not> scanned_before (key x) (key x) b" using assms(2) by (auto simp: scanned_before_def)
  ultimately show "{a \<in> key ` set xs. scanned_before (key x) a b} \<subset> {a \<in> key ` set xs. scanned_before c a b}"
    using assms by blast
qed

lemma scan_rank_bound: "scan_rank key xs c b \<le> length xs"
proof -
  have "scan_rank key xs c b \<le> card (key ` set xs)" unfolding scan_rank_def by (intro card_mono) auto
  also have "\<dots> \<le> card (set xs)" by (rule card_image_le) simp
  also have "\<dots> \<le> length xs" by (rule card_length)
  finally show ?thesis .
qed

subsection \<open>What a scan closes\<close>

lemma joined_mem: "(rn, t) \<in> set (joined source window) \<Longrightarrow> t \<in> set source"
  by (auto simp: joined_def)

lemma filter_same_key: "distinct (map f xs) \<Longrightarrow> w \<in> set xs \<Longrightarrow> filter (\<lambda>t. f t = f w) xs = [w]"
  by (induction xs) (auto simp: filter_empty_conv image_iff)

lemma joined_window:
  assumes "distinct (map target_pair source)" "set window \<subseteq> set source"
  shows "joined source window = enumerate 1 window"
proof -
  have "concat (map (\<lambda>(rn, w). map (\<lambda>t. (rn, t)) (filter (\<lambda>t. target_pair t = target_pair w) source)) (enumerate n window)) =
      enumerate n window" for n
    using assms(2)
    by (induction window arbitrary: n) (simp_all add: filter_same_key [OF assms(1)])
  then show ?thesis by (simp add: joined_def)
qed

lemma targets_split:
  "set (map RowTarget (row_targets ts) @ map BatchTarget (batch_targets ts)) = set ts"
  by (induction ts) (auto simp: row_targets_def batch_targets_def List.map_filter_def split: claim_target.splits)

lemma row_targets_mem: "c \<in> set (row_targets ts) \<longleftrightarrow> RowTarget c \<in> set ts"
  by (force simp: row_targets_def List.map_filter_def split: claim_target.splits)

lemma batch_targets_mem: "bi \<in> set (batch_targets ts) \<longleftrightarrow> BatchTarget bi \<in> set ts"
  by (force simp: batch_targets_def List.map_filter_def split: claim_target.splits)

definition order_ok :: "rescue_scan \<Rightarrow> bool" where
  "order_ok sc \<longleftrightarrow> (\<forall>xs. set (sc_order sc xs) = set xs)"

lemma scans_order_ok [simp]: "order_ok (stale_scan slot cutoff)" "order_ok (row_deadline_scan slot)" "order_ok (batch_deadline_scan slot)"
  by (simp_all add: order_ok_def stale_scan_def row_deadline_scan_def batch_deadline_scan_def)

lemma picks_facts:
  assumes "order_ok sc" "t \<in> set (scan_picks sc limit s)"
  shows "\<exists>rn. (rn, t) \<in> set (sc_candidates sc s)" "\<not> sc_skip sc s t"
proof -
  obtain rn where "(rn, t) \<in> set (take limit (sc_order sc (filter (\<lambda>(_, t). \<not> sc_skip sc s t) (sc_candidates sc s))))"
    using assms(2) by (auto simp: scan_picks_def)
  from in_set_takeD [OF this] show "\<exists>rn. (rn, t) \<in> set (sc_candidates sc s)" "\<not> sc_skip sc s t"
    using assms(1) by (auto simp: order_ok_def)
qed

lemma hits_facts:
  assumes "order_ok sc" "t \<in> set (scan_hits env sc limit locked s)"
  shows "\<exists>rn. (rn, t) \<in> set (sc_candidates sc s)" "\<not> sc_skip sc s t" "target_pair t \<in> set locked" "t \<in> set (scan_picks sc limit s)"
proof -
  have "t \<in> set (filter (\<lambda>t. target_pair t \<in> set locked \<and> target_pair t \<notin> set (rv_row_locked env)) (scan_picks sc limit s))"
    using assms(2) unfolding scan_hits_def Let_def targets_split .
  then show "\<exists>rn. (rn, t) \<in> set (sc_candidates sc s)" "\<not> sc_skip sc s t" "target_pair t \<in> set locked" "t \<in> set (scan_picks sc limit s)"
    using picks_facts [OF assms(1)] by auto
qed

fun target_slot :: "claim_target \<Rightarrow> int" where
  "target_slot (RowTarget c) = lc_claim_slot c"
| "target_slot (BatchTarget (b, _)) = lb_claim_slot b"

lemma source_slot: "t \<in> set (claim_source s slot) \<Longrightarrow> target_slot t = slot"
  by (auto simp: claim_source_def)

lemma close_targets_closes:
  assumes "t \<in> set ts" "target_slot t = slot"
  shows "target_closed (close_targets outcome ts s) slot t"
proof (cases t)
  case (RowTarget c)
  then have "c \<in> set (row_targets ts)" using assms(1) by (simp add: row_targets_mem)
  then have "row_closure outcome (s_now s) c \<in> set (s_closures (close_targets outcome ts s))"
    by (simp add: close_targets_def Let_def)
  then have "has_closure (close_targets outcome ts s) slot (lc_job_id c) (lc_run_lease c)"
    using assms(2) RowTarget unfolding has_closure_def by (intro bexI) (auto simp: row_closure_def)
  then show ?thesis by (simp add: RowTarget)
next
  case (BatchTarget bi)
  obtain b i where bi: "bi = (b, i)" by (cases bi)
  then have "(b, i) \<in> set (batch_targets ts)" using assms(1) BatchTarget by (simp add: batch_targets_mem)
  from closure_batches_cover [OF this, of outcome "s_now s"]
  have "batch_closed (close_targets outcome ts s) slot (it_receipt_id i)"
    using assms(2) by (auto simp: batch_closed_def close_targets_def Let_def BatchTarget bi)
  then show ?thesis by (simp add: BatchTarget bi)
qed

lemma closure_batches_only:
  assumes "x \<in> set (closure_batches outcome now hits)" "r \<in> set (xb_receipt_ids x)"
  shows "\<exists>(b, i) \<in> set hits. it_receipt_id i = r \<and> lb_claim_slot b = xb_claim_slot x"
  using assms by (force simp: closure_batches_def item_group_def)

text \<open>Closing some claims of a slot, whose receipts are distinct, closes no other claim of the slot.\<close>

lemma close_targets_only:
  assumes r: "distinct (map target_receipt (claim_source s slot))" and ts: "set ts \<subseteq> set (claim_source s slot)"
    and t: "t \<in> set (claim_source s slot)" "target_closed (close_targets outcome ts s) slot t"
  shows "target_closed s slot t \<or> target_pair t \<in> target_pair ` set ts"
proof -
  let ?s = "close_targets outcome ts s"
  have moved: "moved_on ?s j l = moved_on s j l" for j l
    by (simp add: close_targets_def Let_def moved_on_def done_attempt_def deferred_attempt_def dlq_attempt_def)
  have row: "has_closure s slot j l \<or> (j, l) \<in> target_pair ` set ts" if "has_closure ?s slot j l" for j l
  proof -
    from that consider "has_closure s slot j l" | c where "c \<in> set (row_targets ts)" "lc_job_id c = j" "lc_run_lease c = l"
      by (auto simp: has_closure_def close_targets_def Let_def row_closure_def)
    then show ?thesis by cases (force simp: row_targets_mem image_iff)+
  qed
  have receipt: "batch_closed s slot (target_receipt t) \<or> target_pair t \<in> target_pair ` set ts"
    if b: "batch_closed ?s slot (target_receipt t)"
  proof -
    from b consider "batch_closed s slot (target_receipt t)"
      | x where "x \<in> set (closure_batches outcome (s_now s) (batch_targets ts))" "target_receipt t \<in> set (xb_receipt_ids x)"
      by (auto simp: batch_closed_def close_targets_def Let_def)
    then show ?thesis
    proof cases
      case 2
      then obtain b i where bi: "BatchTarget (b, i) \<in> set ts" "it_receipt_id i = target_receipt t"
        using closure_batches_only batch_targets_mem by fastforce
      then have "BatchTarget (b, i) = t"
        using r t(1) ts by (intro inj_onD [of target_receipt "set (claim_source s slot)"]) (auto simp: distinct_map)
      then show ?thesis using bi(1) by (auto simp: image_iff)
    qed simp
  qed
  show ?thesis
  proof (cases t)
    case (RowTarget c)
    then show ?thesis using t(2) row [of "lc_job_id c" "lc_run_lease c"] receipt moved by auto
  next
    case (BatchTarget bi)
    then show ?thesis using t(2) row receipt moved by (cases bi) auto
  qed
qed

lemma advance_target_passed:
  assumes "advance_target ok cands = Some t"
  shows "\<exists>rn. (rn, t) \<in> set cands \<and> (\<forall>rn' u. (rn', u) \<in> set cands \<and> rn' \<le> rn \<longrightarrow> ok u)"
proof -
  let ?blocked = "map fst (filter (\<lambda>(_, x). \<not> ok x) cands)"
  let ?passed = "filter (\<lambda>(rn, _). ?blocked = [] \<or> rn < Min (set ?blocked)) cands"
  have ne: "?passed \<noteq> []" "t = snd (last ?passed)" using assms by (auto simp: advance_target_def Let_def split: if_splits)
  obtain rn where rn: "last ?passed = (rn, t)" using ne(2) by (metis prod.collapse)
  have "(rn, t) \<in> set ?passed" using last_in_set [OF ne(1)] rn by simp
  then have mem: "(rn, t) \<in> set cands" "?blocked = [] \<or> rn < Min (set ?blocked)" by auto
  have "ok u" if u: "(rn', u) \<in> set cands" "rn' \<le> rn" for rn' u
  proof (rule ccontr)
    assume "\<not> ok u"
    then have b: "rn' \<in> set ?blocked" using u(1) by force
    then have "Min (set ?blocked) \<le> rn'" by (intro Min_le) simp_all
    moreover have "?blocked \<noteq> []" using b by (metis empty_iff list.set(1))
    ultimately show False using mem(2) u(2) by simp
  qed
  then show ?thesis using mem(1) by blast
qed

lemma stale_cursor_moves:
  assumes s': "s' = (case advance_target ok (sc_candidates (stale_scan slot cutoff) s) of
      None \<Rightarrow> close_targets outcome ts s | Some t \<Rightarrow> sc_move (stale_scan slot cutoff) t (close_targets outcome ts s))"
  shows "s_claim_cursors s' = s_claim_cursors s \<or> (\<exists>rn t. (rn, t) \<in> set (sc_candidates (stale_scan slot cutoff) s) \<and>
    s_claim_cursors s' = (s_claim_cursors s)(slot := map_option (\<lambda>c. c\<lparr>rescue_cursor := stale_key t\<rparr>) (s_claim_cursors s slot)) \<and>
    (\<forall>rn' u. (rn', u) \<in> set (sc_candidates (stale_scan slot cutoff) s) \<and> rn' \<le> rn \<longrightarrow> ok u))"
proof (cases "advance_target ok (sc_candidates (stale_scan slot cutoff) s)")
  case None
  then show ?thesis unfolding s' by (simp add: close_targets_def Let_def)
next
  case (Some t)
  then have "s_claim_cursors s' = (s_claim_cursors s)(slot := map_option (\<lambda>c. c\<lparr>rescue_cursor := stale_key t\<rparr>) (s_claim_cursors s slot))"
    unfolding s' by (simp add: stale_scan_def move_cursor_def close_targets_def Let_def)
  then show ?thesis using advance_target_passed [OF Some] by blast
qed

text \<open>
  C14: A scan for stale receipt claims closes exactly what it returns.  Whatever was committed since it took its
  locks, each claim it returns is a claim of the slot that it locked and that was open, not managed by a
  lease and stale, and the claim is closed afterwards; no other claim of the slot is closed; and when the cursor moves, every
  claim of the window up to the new cursor was closed, managed by a lease or fresh, or is among those returned.
\<close>

theorem rescue_scan_exact:
  assumes receipts: "distinct (map target_receipt (claim_source s slot))"
    and run: "scan_close env (stale_scan slot cutoff) limit locked s = (hits, s')"
  shows "(\<forall>t \<in> set hits. t \<in> set (claim_source s slot) \<and> \<not> target_closed s slot t \<and> \<not> lease_managed s t \<and>
      is_stale s cutoff t \<and> target_pair t \<in> set locked \<and> target_closed s' slot t) \<and>
    (\<forall>t \<in> set (claim_source s slot). target_closed s' slot t \<longrightarrow> target_closed s slot t \<or> target_pair t \<in> target_pair ` set hits) \<and>
    (s_claim_cursors s' = s_claim_cursors s \<or>
     (\<exists>rn t. (rn, t) \<in> set (sc_candidates (stale_scan slot cutoff) s) \<and>
       s_claim_cursors s' = (s_claim_cursors s)(slot := map_option (\<lambda>c. c\<lparr>rescue_cursor := stale_key t\<rparr>) (s_claim_cursors s slot)) \<and>
       (\<forall>rn' u. (rn', u) \<in> set (sc_candidates (stale_scan slot cutoff) s) \<and> rn' \<le> rn \<longrightarrow>
         target_closed s slot u \<or> lease_managed s u \<or> \<not> is_stale s cutoff u \<or> target_pair u \<in> target_pair ` set hits)))"
proof -
  let ?sc = "stale_scan slot cutoff"
  let ?ok = "\<lambda>t. sc_skip ?sc s t \<or> target_pair t \<in> set (map target_pair hits)"
  let ?closed = "close_targets ''rescued'' hits s"
  have outcome: "sc_outcome ?sc = ''rescued''" by (simp add: stale_scan_def)
  note run' = run [unfolded scan_close_def Let_def prod.inject outcome]
  note hits = conjunct1 [OF run', symmetric]
  have s': "s' = (case advance_target ?ok (sc_candidates ?sc s) of None \<Rightarrow> ?closed | Some t \<Rightarrow> sc_move ?sc t ?closed)"
    using conjunct2 [OF run', symmetric] unfolding conjunct1 [OF run'] .
  have cand: "t \<in> set (claim_source s slot)" if "(rn, t) \<in> set (sc_candidates ?sc s)" for rn t
    using that joined_mem by (auto simp: stale_scan_def with_cursor_def split: option.splits)
  have closed: "target_closed s' slot t = target_closed ?closed slot t" for t
  proof -
    have same: "s_closures s' = s_closures ?closed \<and> s_closure_batches s' = s_closure_batches ?closed \<and> s_done s' = s_done ?closed \<and>
      s_deferred s' = s_deferred ?closed \<and> s_dlq s' = s_dlq ?closed"
      unfolding s' by (simp add: stale_scan_def move_cursor_def split: option.split)
    then show ?thesis
      by (cases "(s', slot, t)" rule: target_closed.cases)
        (simp_all add: has_closure_def batch_closed_def moved_on_def done_attempt_def deferred_attempt_def dlq_attempt_def)
  qed
  have skip: "sc_skip ?sc s u \<longleftrightarrow> target_closed s slot u \<or> lease_managed s u \<or> \<not> is_stale s cutoff u" for u
    by (simp add: stale_scan_def)
  have sub: "set hits \<subseteq> set (claim_source s slot)" using hits_facts(1) [of ?sc] cand unfolding hits by fastforce
  have first: "t \<in> set (claim_source s slot) \<and> \<not> target_closed s slot t \<and> \<not> lease_managed s t \<and>
      is_stale s cutoff t \<and> target_pair t \<in> set locked \<and> target_closed s' slot t" if t: "t \<in> set hits" for t
  proof -
    have hit: "t \<in> set (scan_hits env ?sc limit locked s)" using t hits by simp
    have source: "t \<in> set (claim_source s slot)" using sub t by blast
    then have "target_closed s' slot t" using close_targets_closes [OF t source_slot [OF source]] closed by simp
    then show ?thesis using source hits_facts(2,3) [OF scans_order_ok(1) hit] skip by simp
  qed
  have second: "target_closed s slot t \<or> target_pair t \<in> target_pair ` set hits"
    if "t \<in> set (claim_source s slot)" "target_closed s' slot t" for t
    using close_targets_only [OF receipts sub that(1)] that(2) closed by blast
  show ?thesis using first second stale_cursor_moves [OF s'] unfolding skip set_map by (intro conjI ballI impI) (assumption | blast)+
qed

subsection \<open>A stale claim is rescued\<close>

text \<open>Scans of one slot repeated until one closes a claim.\<close>

fun scan_until :: "nat \<Rightarrow> rescue_env \<Rightarrow> rescue_scan \<Rightarrow> nat \<Rightarrow> claim_target list tx" where
  "scan_until 0 env sc limit = tx_ret []"
| "scan_until (Suc n) env sc limit =
    tx_bind (run_scan env sc limit) (\<lambda>hits. if hits = [] then scan_until n env sc limit else tx_ret hits)"

text \<open>A claim that a scan for stale claims has to close.\<close>

definition overdue :: "store \<Rightarrow> int \<Rightarrow> timestamp \<Rightarrow> claim_target \<Rightarrow> bool" where
  "overdue s slot cutoff t \<longleftrightarrow>
    t \<in> set (claim_source s slot) \<and> target_claimed_at t < cutoff \<and> \<not> target_closed s slot t \<and> \<not> lease_managed s t \<and> is_stale s cutoff t"

lemma advance_target_all: "(\<And>rn t. (rn, t) \<in> set cands \<Longrightarrow> ok t) \<Longrightarrow> cands \<noteq> [] \<Longrightarrow> advance_target ok cands = Some (snd (last cands))"
proof -
  assume ok: "\<And>rn t. (rn, t) \<in> set cands \<Longrightarrow> ok t" and ne: "cands \<noteq> []"
  have "filter (\<lambda>(_, x). \<not> ok x) cands = []" using ok by (auto simp: filter_empty_conv)
  then show ?thesis using ne by (simp add: advance_target_def)
qed

lemma close_nothing: "close_targets outcome [] s = s"
  by (simp add: close_targets_def row_targets_def batch_targets_def closure_batches_def List.map_filter_def)

text \<open>With nothing locked a scan closes a claim, or its window holds only claims that need nothing and the cursor moves to its end.\<close>

lemma scan_step:
  assumes pairs: "distinct (map target_pair (claim_source s slot))" and c: "s_claim_cursors s slot = Some c"
    and t: "overdue s slot cutoff t" and limit: "0 < limit" and free: "rv_locked env = []" "rv_row_locked env = []"
  obtains hits s' where "run_scan env (stale_scan slot cutoff) limit s = (Inr hits, s')" "hits \<noteq> []"
  | u where "u \<in> set (claim_source s slot)" "target_claimed_at u < cutoff" "scanned_before (rescue_cursor c) (stale_key u) (stale_key t)"
      "run_scan env (stale_scan slot cutoff) limit s = (Inr [], move_cursor slot (\<lambda>c. c\<lparr>rescue_cursor := stale_key u\<rparr>) s)"
proof -
  let ?sc = "stale_scan slot cutoff"
  let ?due = "filter (\<lambda>t. target_claimed_at t < cutoff) (claim_source s slot)"
  define w where "w = scan_window stale_key (rescue_cursor c) RECEIPT_RESCUE_CURSOR_SCAN_LIMIT ?due"
  have sub: "set w \<subseteq> set ?due" unfolding w_def by (rule scan_window_subset)
  have cands: "sc_candidates ?sc s = enumerate 1 w"
    using joined_window [OF pairs, of w] sub c by (auto simp: stale_scan_def with_cursor_def w_def)
  have skip: "sc_skip ?sc s u \<longleftrightarrow> target_closed s slot u \<or> lease_managed s u \<or> \<not> is_stale s cutoff u" for u
    by (simp add: stale_scan_def)
  let ?open = "filter (\<lambda>(_, t). \<not> sc_skip ?sc s t) (enumerate 1 w)"
  have picks: "scan_picks ?sc limit s = map snd (take limit ?open)" by (simp add: scan_picks_def cands) (simp add: stale_scan_def)
  have run: "run_scan env ?sc limit s = (Inr (fst (scan_close env ?sc limit (scan_locks env ?sc limit s) s)),
      snd (scan_close env ?sc limit (scan_locks env ?sc limit s) s))" by (simp add: run_scan_def Let_def split: prod.split)
  let ?hits = "scan_hits env ?sc limit (scan_locks env ?sc limit s) s"
  have hits: "set ?hits = set (scan_picks ?sc limit s)"
    unfolding scan_hits_def Let_def targets_split using free by (auto simp: scan_locks_def)
  have fst_hits: "fst (scan_close env ?sc limit (scan_locks env ?sc limit s) s) = ?hits" by (simp add: scan_close_def Let_def)
  show thesis
  proof (cases "?open = []")
    case False
    then have "scan_picks ?sc limit s \<noteq> []" unfolding picks using limit by simp
    then have "?hits \<noteq> []" using hits by (metis set_empty)
    then show thesis using run fst_hits by (intro that(1)) simp_all
  next
    case True
    then have none: "scan_picks ?sc limit s = []" by (simp add: picks)
    then have h: "?hits = []" using hits by simp
    have all: "sc_skip ?sc s u" if "(rn, u) \<in> set (enumerate 1 w)" for rn u using True that by (auto simp: filter_empty_conv)
    have t_due: "t \<in> set ?due" "\<not> sc_skip ?sc s t" using t skip by (auto simp: overdue_def)
    have t_out: "t \<notin> set w"
    proof
      assume "t \<in> set w"
      then obtain i where "i < length w" "w ! i = t" by (auto simp: in_set_conv_nth)
      then have "(1 + i, t) \<in> set (enumerate 1 w)" by (auto simp: in_set_enumerate_eq)
      with all t_due(2) show False by blast
    qed
    have "?due \<noteq> []" using t_due(1) by (metis empty_iff list.set(1))
    then have ne: "w \<noteq> []" unfolding w_def by (intro scan_window_nonempty) (simp_all add: RECEIPT_RESCUE_CURSOR_SCAN_LIMIT_def)
    define u where "u = last w"
    have u: "u \<in> set w" using ne by (simp add: u_def)
    have inj: "inj_on stale_key (set ?due)"
      using pairs by (auto simp: inj_on_def distinct_map stale_key_def)
    have before: "scanned_before (rescue_cursor c) (stale_key u) (stale_key t)"
      by (rule scan_window_before [OF inj u [unfolded w_def] t_due(1) t_out [unfolded w_def]])
    have ne': "enumerate 1 w \<noteq> []" using ne by (metis length_0_conv length_enumerate)
    have last_u: "snd (last (enumerate 1 w)) = u" using last_map [OF ne', of snd] by (simp add: u_def)
    have "advance_target (\<lambda>t. sc_skip ?sc s t \<or> target_pair t \<in> set (map target_pair [])) (enumerate 1 w) = Some u"
      using advance_target_all [of "enumerate 1 w"] all ne' last_u by simp
    then have "snd (scan_close env ?sc limit (scan_locks env ?sc limit s) s) = sc_move ?sc u s"
      unfolding scan_close_def Let_def h cands snd_conv close_nothing by simp
    moreover have "sc_move ?sc u s = move_cursor slot (\<lambda>c. c\<lparr>rescue_cursor := stale_key u\<rparr>) s" by (simp add: stale_scan_def)
    ultimately show thesis using u sub before run fst_hits h by (intro that(2) [of u]) auto
  qed
qed

lemma move_cursor_fields [simp]:
  "claim_source (move_cursor slot' f s) slot = claim_source s slot"
  "overdue (move_cursor slot' f s) slot cutoff t = overdue s slot cutoff t"
  "s_claim_cursors (move_cursor slot f s) slot = map_option f (s_claim_cursors s slot)"
proof -
  show source: "claim_source (move_cursor slot' f s) slot = claim_source s slot"
    by (simp add: claim_source_def move_cursor_def batch_items_def)
  have "target_closed (move_cursor slot' f s) slot t = target_closed s slot t"
    by (cases "(s, slot, t)" rule: target_closed.cases)
      (simp_all add: move_cursor_def has_closure_def batch_closed_def moved_on_def done_attempt_def deferred_attempt_def dlq_attempt_def)
  then show "overdue (move_cursor slot' f s) slot cutoff t = overdue s slot cutoff t"
    unfolding overdue_def source by (simp add: lease_managed_def leased_def is_stale_def find_attempt_def move_cursor_def)
  show "s_claim_cursors (move_cursor slot f s) slot = map_option f (s_claim_cursors s slot)" by (simp add: move_cursor_def)
qed

text \<open>
  C9: A stale claim does not starve behind the cursor.  While nothing else changes the store and nothing is locked,
  scans of a slot that holds an overdue claim close a claim after at most as many scans as the slot has claims,
  plus one, wherever the cursor stands: a scan that closes nothing moves the cursor forward in the cyclic
  order towards the overdue claim.
\<close>

theorem stale_claim_is_rescued:
  assumes "distinct (map target_pair (claim_source s slot))" "s_claim_cursors s slot \<noteq> None" "overdue s slot cutoff t"
    and "0 < limit" "rv_locked env = []" "rv_row_locked env = []" and "length (claim_source s slot) < n"
  shows "\<exists>hits s'. scan_until n env (stale_scan slot cutoff) limit s = (Inr hits, s') \<and> hits \<noteq> []"
proof -
  let ?due = "\<lambda>s. filter (\<lambda>t. target_claimed_at t < cutoff) (claim_source s slot)"
  have "\<exists>hits s'. scan_until n env (stale_scan slot cutoff) limit s = (Inr hits, s') \<and> hits \<noteq> []"
    if "s_claim_cursors s slot = Some c" "scan_rank stale_key (?due s) (rescue_cursor c) (stale_key t) < n"
      "overdue s slot cutoff t" "distinct (map target_pair (claim_source s slot))" for n c s
    using that
  proof (induction n arbitrary: s c)
    case (Suc n)
    show ?case
    proof (rule scan_step [OF Suc.prems(4,1,3) assms(4-6)])
      fix hits s' assume "run_scan env (stale_scan slot cutoff) limit s = (Inr hits, s')" "hits \<noteq> []"
      then show ?thesis by (simp add: tx_simps)
    next
      fix u let ?s = "move_cursor slot (\<lambda>c. c\<lparr>rescue_cursor := stale_key u\<rparr>) s"
      assume u: "u \<in> set (claim_source s slot)" "target_claimed_at u < cutoff" "scanned_before (rescue_cursor c) (stale_key u) (stale_key t)"
        and run: "run_scan env (stale_scan slot cutoff) limit s = (Inr [], ?s)"
      have "scan_rank stale_key (?due s) (stale_key u) (stale_key t) < scan_rank stale_key (?due s) (rescue_cursor c) (stale_key t)"
        using u by (intro scan_rank_less) simp_all
      then have "\<exists>hits s'. scan_until n env (stale_scan slot cutoff) limit ?s = (Inr hits, s') \<and> hits \<noteq> []"
        using Suc.prems by (intro Suc.IH [of ?s "c\<lparr>rescue_cursor := stale_key u\<rparr>"]) simp_all
      then show ?thesis using run by (simp add: tx_simps)
    qed
  qed simp
  moreover obtain c where c: "s_claim_cursors s slot = Some c" using assms(2) by blast
  moreover have "scan_rank stale_key (?due s) (rescue_cursor c) (stale_key t) < n"
    using scan_rank_bound [of stale_key "?due s" "rescue_cursor c" "stale_key t"] length_filter_le [of _ "claim_source s slot"] assms(7)
    by (meson le_less_trans order_trans)
  ultimately show ?thesis using assms(1,3) by blast
qed

subsection \<open>Settling keeps the evidence\<close>

text \<open>Claims, leases and closures stay as they are, and outcomes are only added.\<close>

definition evidence_kept :: "store \<Rightarrow> store \<Rightarrow> bool" where
  "evidence_kept s s' \<longleftrightarrow>
    s_leases s' = s_leases s \<and> s_lease_claims s' = s_lease_claims s \<and> s_claim_batches s' = s_claim_batches s \<and>
    s_closures s' = s_closures s \<and> s_closure_batches s' = s_closure_batches s \<and>
    set (s_done s) \<subseteq> set (s_done s') \<and> set (s_deferred s) \<subseteq> set (s_deferred s') \<and> set (s_dlq s) \<subseteq> set (s_dlq s')"

interpretation settle_rel: tx_relation evidence_kept
  by unfold_locales (auto simp: evidence_kept_def)

lemma evidence_kept_claims: "claims_only s s' \<Longrightarrow> evidence_kept s s'"
  by (auto simp: claims_only_iff evidence_kept_def)

lemma evidence_kept_rollback: "evidence_kept s (rollback s s')"
  by (simp add: evidence_kept_def rollback_def)

lemma sync_rows_evidence: "tx_keeps evidence_kept (sync_rows f old rows)"
  using sync_rows_claims_only [of f old rows] unfolding tx_keeps_def by (auto intro: evidence_kept_claims)

lemma insert_entries_evidence:
  "tx_keeps evidence_kept (insert_done_entry e)" "tx_keeps evidence_kept (insert_dlq_entry d)"
  "tx_keeps evidence_kept (execute_deferred_inserts_tx rows)" "tx_keeps evidence_kept (increment_live_terminal_counters_tx rows')"
  by (auto simp: tx_keeps_def insert_done_entry_def insert_dlq_entry_def execute_deferred_inserts_tx_def evidence_kept_def
      increment_live_terminal_counters_tx_def append_terminal_count_deltas_tx_def tx_simps Let_def)

lemma insert_rows_evidence:
  "tx_keeps evidence_kept (insert_done_rows_tx rows old)"
  "tx_keeps evidence_kept (insert_dlq_rows_tx dlq old)"
  "tx_keeps evidence_kept (insert_deferred_rows_tx deferred (Some st))"
  unfolding insert_done_rows_tx_def insert_dlq_rows_tx_def insert_deferred_rows_tx_def Let_def
  by (auto intro!: settle_rel.keeps_bind settle_rel.keeps_basic settle_rel.keeps_for sync_rows_evidence insert_entries_evidence)

lemma or_on_conflict_evidence:
  assumes "tx_keeps evidence_kept m" "\<And>a. tx_keeps evidence_kept (k a)" "tx_keeps evidence_kept fallback"
  shows "tx_keeps evidence_kept (or_on_conflict m k fallback)"
  unfolding tx_keeps_def
proof
  fix s
  obtain r s' where m: "m s = (r, s')" by fastforce
  have s': "evidence_kept s s'" by (rule settle_rel.keepsD [OF assms(1) m])
  show "evidence_kept s (snd (or_on_conflict m k fallback s))"
  proof (cases r)
    case (Inr a)
    have "evidence_kept s' (snd (k a s'))" using assms(2) by (simp add: tx_keeps_def)
    then show ?thesis using settle_rel.trans [OF s'] m Inr by (simp add: or_on_conflict_def)
  next
    case (Inl e)
    have "evidence_kept s (snd (fallback (rollback s s')))"
      by (rule settle_rel.trans [OF evidence_kept_rollback [where s' = s']]) (use assms(3) in \<open>simp add: tx_keeps_def\<close>)
    then show ?thesis using s' m Inl by (cases e) (simp_all add: or_on_conflict_def)
  qed
qed

lemma settle_evidence: "tx_keeps evidence_kept (settle_rescued_attempt_tx life row err reason)"
proof -
  have cancel: "tx_keeps evidence_kept (cancel_rescued_duplicate_tx life row base dup)" for base dup
    unfolding cancel_rescued_duplicate_tx_def Let_def
    by (intro settle_rel.keeps_bind settle_rel.keeps_basic or_on_conflict_evidence insert_rows_evidence)
  show ?thesis
    unfolding settle_rescued_attempt_tx_def Let_def insert_rescued_dlq_or_cancel_tx_def insert_rescued_done_or_cancel_tx_def
      insert_rescued_deferred_or_cancel_tx_def backoff_at_tx_def
    by (intro settle_rel.keeps_bind settle_rel.keeps_basic settle_rel.keeps_if settle_rel.keeps_option or_on_conflict_evidence
        insert_rows_evidence cancel)
qed

text \<open>An attempt that a rescue settles without an error has an outcome on record.\<close>

lemma or_on_conflict_Inr:
  assumes "or_on_conflict m k fallback s = (Inr b, s')"
  obtains a s1 where "m s = (Inr a, s1)" "k a s1 = (Inr b, s')" | s1 where "fallback (rollback s s1) = (Inr b, s')"
  using assms by (auto simp: or_on_conflict_def split: prod.splits sum.splits awa_error.splits)

definition has_outcome :: "lease_transition_row \<Rightarrow> job_row \<Rightarrow> store \<Rightarrow> bool" where
  "has_outcome row job s \<longleftrightarrow>
    jr_id job = r_job_id row \<and> jr_run_lease job = r_run_lease row \<and> moved_on s (r_job_id row) (r_run_lease row)"

lemma done_outcome:
  assumes "insert_done_rows_tx [d] old s = (Inr n, s1)" "tx_lift (done_into_job_row d) s1 = (Inr job, s')"
    "r_job_id d = r_job_id row" "r_run_lease d = r_run_lease row"
  shows "has_outcome row job s'"
proof -
  obtain m e ds where e: "s1 = s\<lparr>s_claims := m, s_done := s_done s @ [e], s_count_deltas := s_count_deltas s @ ds\<rparr>"
    "de_job_id e = r_job_id d" "de_run_lease e = r_run_lease d"
    using insert_one_done [OF assms(1)] by blast
  then show ?thesis
    using assms(2-4) by (auto simp: has_outcome_def tx_simps done_into_job_row_def res_bind_def base_job_row_def moved_on_def
        done_attempt_def split: sum.splits)
qed

lemma cancel_outcome:
  assumes "cancel_rescued_duplicate_tx life row base dup s = (Inr job, s')"
  shows "has_outcome row job s'"
proof -
  obtain payload where "or_on_conflict (insert_done_rows_tx [lease_into_done_row row Cancelled (s_now s) payload] (Some (lt_state row)))
      (\<lambda>_. tx_lift (done_into_job_row (lease_into_done_row row Cancelled (s_now s) payload)))
      (tx_bind (insert_done_rows_tx [strip_unique (lease_into_done_row row Cancelled (s_now s) payload)] (Some (lt_state row))) (\<lambda>_.
         tx_lift (done_into_job_row (strip_unique (lease_into_done_row row Cancelled (s_now s) payload))))) s = (Inr job, s')"
    using assms by (auto simp: cancel_rescued_duplicate_tx_def tx_bind_Inr tx_simps Let_def)
  then show ?thesis
  proof (rule or_on_conflict_Inr)
    fix a s1
    assume "insert_done_rows_tx [lease_into_done_row row Cancelled (s_now s) payload] (Some (lt_state row)) s = (Inr a, s1)"
      "tx_lift (done_into_job_row (lease_into_done_row row Cancelled (s_now s) payload)) s1 = (Inr job, s')"
    then show ?thesis by (rule done_outcome) (simp_all add: row_defs)
  next
    fix s1
    assume "tx_bind (insert_done_rows_tx [strip_unique (lease_into_done_row row Cancelled (s_now s) payload)] (Some (lt_state row)))
      (\<lambda>_. tx_lift (done_into_job_row (strip_unique (lease_into_done_row row Cancelled (s_now s) payload)))) (rollback s s1) = (Inr job, s')"
    then obtain n s2 where "insert_done_rows_tx [strip_unique (lease_into_done_row row Cancelled (s_now s) payload)] (Some (lt_state row))
        (rollback s s1) = (Inr n, s2)"
      "tx_lift (done_into_job_row (strip_unique (lease_into_done_row row Cancelled (s_now s) payload))) s2 = (Inr job, s')"
      by (auto simp: tx_bind_Inr)
    then show ?thesis by (rule done_outcome) (simp_all add: row_defs strip_unique_def)
  qed
qed

lemma insert_rescued_outcome:
  "insert_rescued_done_or_cancel_tx life row (lease_into_done_row row st now payload) dup s = (Inr job, s') \<Longrightarrow> has_outcome row job s'"
  "insert_rescued_dlq_or_cancel_tx life row (lease_into_dlq_row row now payload reason now') dup s = (Inr job, s') \<Longrightarrow> has_outcome row job s'"
  "insert_rescued_deferred_or_cancel_tx life row (lease_into_deferred_row row st run_at fin payload) dup s = (Inr job, s') \<Longrightarrow>
     has_outcome row job s'"
proof -
  show "has_outcome row job s'"
    if "insert_rescued_done_or_cancel_tx life row (lease_into_done_row row st now payload) dup s = (Inr job, s')"
    using that unfolding insert_rescued_done_or_cancel_tx_def
  proof (rule or_on_conflict_Inr)
    fix a s1
    assume "insert_done_rows_tx [lease_into_done_row row st now payload] (Some (lt_state row)) s = (Inr a, s1)"
      "tx_lift (done_into_job_row (lease_into_done_row row st now payload)) s1 = (Inr job, s')"
    then show ?thesis by (rule done_outcome) (simp_all add: row_defs)
  qed (rule cancel_outcome)
  show "has_outcome row job s'"
    if "insert_rescued_dlq_or_cancel_tx life row (lease_into_dlq_row row now payload reason now') dup s = (Inr job, s')"
    using that unfolding insert_rescued_dlq_or_cancel_tx_def
  proof (rule or_on_conflict_Inr)
    fix a s1
    assume ins: "insert_dlq_rows_tx [lease_into_dlq_row row now payload reason now'] (Some (lt_state row)) s = (Inr a, s1)"
      and job: "tx_lift (dlq_into_job_row (lease_into_dlq_row row now payload reason now')) s1 = (Inr job, s')"
    obtain m where "s1 = s\<lparr>s_claims := m, s_dlq := s_dlq s @ [dlq_entry (lease_into_dlq_row row now payload reason now')]\<rparr>"
      using insert_dlq_one_cases [OF ins] by blast
    then show ?thesis using job
      by (auto simp: has_outcome_def tx_simps dlq_into_job_row_def res_bind_def base_job_row_def moved_on_def
          dlq_attempt_def row_defs dlq_entry_def split: sum.splits)
  qed (rule cancel_outcome)
  show "has_outcome row job s'"
    if "insert_rescued_deferred_or_cancel_tx life row (lease_into_deferred_row row st run_at fin payload) dup s = (Inr job, s')"
    using that unfolding insert_rescued_deferred_or_cancel_tx_def
  proof (rule or_on_conflict_Inr)
    fix a s1
    assume ins: "insert_deferred_rows_tx [lease_into_deferred_row row st run_at fin payload] (Some (lt_state row)) s = (Inr a, s1)"
      and job: "tx_lift (deferred_into_job_row (lease_into_deferred_row row st run_at fin payload)) s1 = (Inr job, s')"
    obtain m where "s1 = s\<lparr>s_claims := m, s_deferred := s_deferred s @ [deferred_entry (lease_into_deferred_row row st run_at fin payload)]\<rparr>"
      using insert_one_deferred [OF ins] by blast
    then show ?thesis using job
      by (auto simp: has_outcome_def tx_simps deferred_into_job_row_def res_bind_def base_job_row_def moved_on_def
          deferred_attempt_def row_defs deferred_entry_def split: sum.splits)
  qed (rule cancel_outcome)
qed

lemma settle_outcome:
  assumes "settle_rescued_attempt_tx life row err reason s = (Inr job, s')"
  shows "has_outcome row job s'"
  using assms
  by (auto simp: settle_rescued_attempt_tx_def tx_bind_Inr tx_simps Let_def backoff_at_tx_def split: if_splits option.splits
      intro: insert_rescued_outcome)

lemma moved_on_evidence: "evidence_kept s s' \<Longrightarrow> moved_on s j l \<Longrightarrow> moved_on s' j l"
  by (auto simp: evidence_kept_def moved_on_def done_attempt_def deferred_attempt_def dlq_attempt_def)

lemma settle_all_outcome:
  assumes "settle_all life dlq err reason rows s = (Inr jobs, s')"
  shows "evidence_kept s s' \<and> 
    map (\<lambda>job. (jr_id job, jr_run_lease job)) jobs = map (\<lambda>row. (r_job_id row, r_run_lease row)) rows \<and>
    (\<forall>row \<in> set rows. moved_on s' (r_job_id row) (r_run_lease row))"
  using assms
proof (induction rows arbitrary: s jobs)
  case Nil
  then show ?case by (simp add: settle_all_def tx_simps settle_rel.refl)
next
  case (Cons row rows)
  let ?m = "settle_rescued_attempt_tx life row err (if dlq (r_queue row) then Some reason else None)"
  obtain job s1 js where r: "?m s = (Inr job, s1)" "settle_all life dlq err reason rows s1 = (Inr js, s')" "jobs = job # js"
    using Cons.prems by (auto simp: settle_all_def tx_bind_Inr tx_simps)
  have one: "evidence_kept s s1" by (rule settle_rel.keepsD [OF settle_evidence r(1)])
  note ih = Cons.IH [OF r(2)]
  have "moved_on s' (r_job_id row) (r_run_lease row)"
    using settle_outcome [OF r(1)] ih moved_on_evidence [of s1 s'] by (simp add: has_outcome_def)
  then show ?case
    using settle_rel.trans [OF one] ih settle_outcome [OF r(1)] r(3) by (simp add: has_outcome_def)
qed

lemma taken_evidence: "evidence_kept s s' \<Longrightarrow> taken j l s \<Longrightarrow> taken j l s'"
  unfolding evidence_kept_def taken_def item_closed_def has_closure_def batch_closed_def batch_items_def by simp

lemma rescue_closures_later: "taken j l s \<Longrightarrow> taken j l (rescue_closures refs (delete_attempts refs' s))"
proof -
  let ?s = "rescue_closures refs (delete_attempts refs' s)"
  have "no_new_claims j l s ?s"
    by (auto simp: no_new_claims_def rescue_closures_def Let_def close_row_claims_def tx_simps batch_items_def delete_attempts_def)
  then show "taken j l s \<Longrightarrow> taken j l ?s" by (rule taken_later [rotated])
qed

text \<open>Hydrating attempts that have no running lease fences them.\<close>

lemma hydrate_fences:
  assumes h: "hydrate_deleted_leases_tx ds True s = (Inr moved, s')"
    and gone: "\<And>d x. d \<in> set ds \<Longrightarrow> x \<in> set (s_leases s) \<Longrightarrow> \<not> running_lease (dl_job_id d) (dl_run_lease d) x"
  shows "map (\<lambda>m. (r_job_id m, r_run_lease m)) moved = map (\<lambda>d. (dl_job_id d, dl_run_lease d)) ds \<and> s_leases s' = s_leases s \<and>
    (\<forall>d \<in> set ds. taken (dl_job_id d) (dl_run_lease d) s') \<and> (\<forall>j l. taken j l s \<longrightarrow> taken j l s')"
proof (cases "ds = []")
  case True
  then show ?thesis using h by (simp add: hydrate_deleted_leases_tx_def tx_simps)
next
  case False
  let ?refs = "map (\<lambda>d. (dl_job_id d, dl_run_lease d)) ds"
  have s': "s' = rescue_closures ?refs (delete_attempts ?refs s)" and all: "list_all2 (\<lambda>d y. hydrate_one s d = Inr y) ds moved"
    using hydrate_result [OF h False] by simp_all
  have "map (\<lambda>m. (r_job_id m, r_run_lease m)) moved = ?refs"
    using all by (induction rule: list_all2_induct) (auto dest: hydrated_identity)
  moreover have "taken (dl_job_id d) (dl_run_lease d) s'" if d: "d \<in> set ds" for d
    unfolding s' by (rule rescue_taken) (use d gone in \<open>auto simp: delete_attempts_def\<close>)
  moreover have "s_leases s' = s_leases s" unfolding s' by (simp add: rescue_closures_fields)
  ultimately show ?thesis using rescue_closures_later unfolding s' by blast
qed

subsection \<open>Scans and leases\<close>

lemma run_scan_unleased:
  assumes "order_ok sc" "\<And>s t. \<not> sc_skip sc s t \<Longrightarrow> \<not> lease_managed s t" "\<And>t s. s_leases (sc_move sc t s) = s_leases s"
    and run: "run_scan env sc limit s = (r, s')"
  shows "s_leases s' = s_leases s \<and> (\<exists>hits. r = Inr hits \<and> (\<forall>t \<in> set hits. \<not> lease_managed s t))"
proof -
  let ?hits = "scan_hits env sc limit (scan_locks env sc limit s) s"
  have "r = Inr ?hits" using run by (simp add: run_scan_def scan_close_def Let_def)
  moreover have "s_leases s' = s_leases s"
    using run assms(3) by (auto simp: run_scan_def scan_close_def Let_def close_targets_def split: option.splits)
  moreover have "\<not> lease_managed s t" if "t \<in> set ?hits" for t
    using hits_facts(2) [OF assms(1) that] assms(2) by blast
  ultimately show ?thesis by blast
qed

definition unleased :: "store \<Rightarrow> deleted_lease_row list \<Rightarrow> bool" where
  "unleased s ds \<longleftrightarrow> (\<forall>d \<in> set ds. \<not> leased s (dl_job_id d) (dl_run_lease d))"

text \<open>Steps that leave the leases alone and return only attempts without a lease.\<close>

definition rescues_unleased :: "deleted_lease_row list tx \<Rightarrow> bool" where
  "rescues_unleased m \<longleftrightarrow> (\<forall>s r s'. m s = (r, s') \<longrightarrow> s_leases s' = s_leases s \<and> (\<forall>ds. r = Inr ds \<longrightarrow> unleased s ds))"

lemma unleased_leases: "s_leases s' = s_leases s \<Longrightarrow> unleased s' ds = unleased s ds"
  by (simp add: unleased_def leased_def)

lemma deleted_target_pair: "(dl_job_id (deleted_of_target t), dl_run_lease (deleted_of_target t)) = target_pair t"
  by (cases t rule: target_pair.cases) (simp_all add: deleted_of_claim_def deleted_of_item_def)

lemma scan_rescues_unleased:
  assumes "order_ok sc" "\<And>s t. \<not> sc_skip sc s t \<Longrightarrow> \<not> lease_managed s t" "\<And>t s. s_leases (sc_move sc t s) = s_leases s"
  shows "rescues_unleased (tx_bind (run_scan env sc limit) (\<lambda>hits. tx_ret (map deleted_of_target hits)))"
  unfolding rescues_unleased_def
proof (intro allI impI)
  fix s r s' assume run: "tx_bind (run_scan env sc limit) (\<lambda>hits. tx_ret (map deleted_of_target hits)) s = (r, s')"
  obtain x s1 where x: "run_scan env sc limit s = (x, s1)" by fastforce
  from run_scan_unleased [OF assms x] obtain hits where h: "x = Inr hits" "\<forall>t \<in> set hits. \<not> lease_managed s t" "s_leases s1 = s_leases s"
    by blast
  have "r = Inr (map deleted_of_target hits)" "s' = s1" using run x h(1) by (simp_all add: tx_simps)
  moreover have "\<not> leased s (dl_job_id (deleted_of_target t)) (dl_run_lease (deleted_of_target t))" if "t \<in> set hits" for t
    using h(2) that deleted_target_pair [of t] by (metis fst_conv lease_managed_def snd_conv)
  ultimately show "s_leases s' = s_leases s \<and> (\<forall>ds. r = Inr ds \<longrightarrow> unleased s ds)"
    using h(3) by (simp add: unleased_def)
qed

lemma rescues_unleased_seq:
  assumes m: "rescues_unleased m" and f: "\<And>ds. rescues_unleased (f ds)"
  shows "rescues_unleased (tx_bind m (\<lambda>ds. if stop ds then tx_ret ds else tx_bind (f ds) (\<lambda>rest. tx_ret (ds @ rest))))"
  unfolding rescues_unleased_def
proof (intro allI impI)
  fix s r s'
  assume run: "tx_bind m (\<lambda>ds. if stop ds then tx_ret ds else tx_bind (f ds) (\<lambda>rest. tx_ret (ds @ rest))) s = (r, s')"
  obtain x s1 where x: "m s = (x, s1)" by fastforce
  have one: "s_leases s1 = s_leases s" "\<And>ds. x = Inr ds \<Longrightarrow> unleased s ds" using m x unfolding rescues_unleased_def by blast+
  show "s_leases s' = s_leases s \<and> (\<forall>ds. r = Inr ds \<longrightarrow> unleased s ds)"
  proof (cases x)
    case (Inl e)
    then show ?thesis using run x one(1) by (auto simp: tx_simps)
  next
    case (Inr ds)
    show ?thesis
    proof (cases "stop ds")
      case True
      then show ?thesis using run x one Inr by (simp add: tx_simps)
    next
      case False
      obtain y s2 where y: "f ds s1 = (y, s2)" by fastforce
      have two: "s_leases s2 = s_leases s1" "\<And>ds'. y = Inr ds' \<Longrightarrow> unleased s1 ds'" using f y unfolding rescues_unleased_def by blast+
      show ?thesis
        using run x y one two False Inr unleased_leases [OF one(1)]
        by (cases y) (auto simp: tx_simps unleased_def)
    qed
  qed
qed

lemma rescues_unleased_basic: "rescues_unleased (tx_ret [])"
  by (simp add: rescues_unleased_def tx_simps unleased_def)

lemma rescue_slots_unleased: "(\<And>slot n. rescues_unleased (f slot n)) \<Longrightarrow> rescues_unleased (rescue_slots f remaining slots)"
  by (induction slots arbitrary: remaining) (simp_all add: rescues_unleased_basic rescues_unleased_seq)

lemma slot_order_keeps: "rescue_slot_order s = (r, s') \<Longrightarrow> s' = s \<and> (\<exists>slots. r = Inr slots)"
  by (auto simp: rescue_slot_order_def oldest_initialized_claim_slot_tx_def tx_simps)

lemma slot_order_unleased:
  assumes "\<And>slots. rescues_unleased (f slots)"
  shows "rescues_unleased (tx_bind rescue_slot_order f)"
  unfolding rescues_unleased_def
proof (intro allI impI)
  fix s r s' assume run: "tx_bind rescue_slot_order f s = (r, s')"
  obtain x s1 where x: "rescue_slot_order s = (x, s1)" by fastforce
  then obtain slots where "x = Inr slots" "s1 = s" using slot_order_keeps by blast
  then have "f slots s = (r, s')" using run x by (simp add: tx_simps)
  then show "s_leases s' = s_leases s \<and> (\<forall>ds. r = Inr ds \<longrightarrow> unleased s ds)" using assms unfolding rescues_unleased_def by blast
qed

lemma receipt_rescues_unleased:
  "rescues_unleased (rescue_stale_receipt_claims_tx env cutoff)" "rescues_unleased (rescue_expired_receipt_deadlines_tx env)"
proof -
  have stale: "rescues_unleased (rescue_stale_receipt_claims_for_slot_tx env cutoff slot n)" for slot n
    unfolding rescue_stale_receipt_claims_for_slot_tx_def
    by (rule scan_rescues_unleased) (simp_all add: stale_scan_def move_cursor_def order_ok_def)
  have rows: "rescues_unleased (rescue_expired_receipt_deadlines_for_slot_tx env slot n)" for slot n
    unfolding rescue_expired_receipt_deadlines_for_slot_tx_def
    by (auto intro!: scan_rescues_unleased rescues_unleased_basic) (simp_all add: row_deadline_scan_def move_cursor_def)
  have batches: "rescues_unleased (rescue_expired_batch_deadlines_for_slot_tx env slot n)" for slot n
    unfolding rescue_expired_batch_deadlines_for_slot_tx_def
    by (auto intro!: scan_rescues_unleased rescues_unleased_basic) (simp_all add: batch_deadline_scan_def move_cursor_def)
  show "rescues_unleased (rescue_stale_receipt_claims_tx env cutoff)"
    unfolding rescue_stale_receipt_claims_tx_def by (intro slot_order_unleased rescue_slots_unleased stale)
  show "rescues_unleased (rescue_expired_receipt_deadlines_tx env)"
    unfolding rescue_expired_receipt_deadlines_tx_def rescue_deadlines_of_slot_def
    by (intro slot_order_unleased rescue_slots_unleased rescues_unleased_seq batches rows)
qed

subsection \<open>A rescue fences its attempts\<close>

lemma remove_leases_result:
  "remove_leases P s = (Inr (map deleted_of_lease (filter P (s_leases s))), s\<lparr>s_leases := filter (\<lambda>l. \<not> P l) (s_leases s)\<rparr>)"
  by (simp add: remove_leases_def tx_simps)

definition fenced_rows :: "store \<Rightarrow> lease_transition_row list \<Rightarrow> bool" where
  "fenced_rows s rows \<longleftrightarrow> (\<forall>row \<in> set rows. taken (r_job_id row) (r_run_lease row) s)"

lemma fenced_rows_kept: "fenced_rows s rows \<Longrightarrow> evidence_kept s s' \<Longrightarrow> fenced_rows s' rows"
  by (auto simp: fenced_rows_def intro: taken_evidence)

text \<open>
  Both populations of a rescue are fenced once they are hydrated: the leases that match are gone, all of an
  attempt with them, and the receipt claims had no lease.
\<close>

lemma rescue_fences:
  assumes P: "\<And>x y. P x \<Longrightarrow> lease_pair x = lease_pair y \<Longrightarrow> P y"
    and del: "remove_leases P s = (Inr deleted, s1)" and rec: "m s1 = (Inr receipts, s2)" "rescues_unleased m"
    and h: "hydrate_deleted_leases_tx deleted True s2 = (Inr leases, s3)" "hydrate_deleted_leases_tx receipts True s3 = (Inr claims, s4)"
  shows "fenced_rows s4 (leases @ claims)"
proof -
  have deleted: "deleted = map deleted_of_lease (filter P (s_leases s))" and s1: "s_leases s1 = filter (\<lambda>l. \<not> P l) (s_leases s)"
    using del by (auto simp: remove_leases_result)
  have s2: "s_leases s2 = s_leases s1" "unleased s1 receipts" using rec unfolding rescues_unleased_def by blast+
  have gone: "\<not> running_lease (dl_job_id d) (dl_run_lease d) x" if "d \<in> set deleted" "x \<in> set (s_leases s2)" for d x
    using that P unfolding deleted s2 s1 by (fastforce simp: deleted_of_lease_def running_lease_def lease_pair_def)
  note h1 = hydrate_fences [OF h(1) gone]
  have free: "\<not> running_lease (dl_job_id d) (dl_run_lease d) x" if "d \<in> set receipts" "x \<in> set (s_leases s3)" for d x
    using that s2 h1 by (auto simp: unleased_def leased_def running_lease_def)
  note h2 = hydrate_fences [OF h(2) free]
  have pair: "\<exists>d \<in> set ds. (dl_job_id d, dl_run_lease d) = (r_job_id row, r_run_lease row)"
    if "map (\<lambda>m. (r_job_id m, r_run_lease m)) rows = map (\<lambda>d. (dl_job_id d, dl_run_lease d)) ds" "row \<in> set rows"
    for rows :: "lease_transition_row list" and ds row
  proof -
    have "(r_job_id row, r_run_lease row) \<in> set (map (\<lambda>m. (r_job_id m, r_run_lease m)) rows)" using that(2) by auto
    then show ?thesis unfolding that(1) by auto
  qed
  have "taken (r_job_id row) (r_run_lease row) s4" if "row \<in> set leases" for row
    using pair [of leases deleted row] h1 h2 that by auto
  moreover have "taken (r_job_id row) (r_run_lease row) s4" if "row \<in> set claims" for row
    using pair [of claims receipts row] h2 that by auto
  ultimately show ?thesis by (auto simp: fenced_rows_def)
qed

definition fenced_jobs :: "job_row list \<Rightarrow> store \<Rightarrow> bool" where
  "fenced_jobs jobs s \<longleftrightarrow>
    (\<forall>job \<in> set jobs. taken (jr_id job) (jr_run_lease job) s \<and> moved_on s (jr_id job) (jr_run_lease job))"

lemma fenced_jobsI:
  assumes "map (\<lambda>job. (jr_id job, jr_run_lease job)) jobs = map (\<lambda>row. (r_job_id row, r_run_lease row)) rows"
    and "fenced_rows s rows" "\<forall>row \<in> set rows. moved_on s (r_job_id row) (r_run_lease row)"
  shows "fenced_jobs jobs s"
  unfolding fenced_jobs_def
proof
  fix job assume "job \<in> set jobs"
  then have "(jr_id job, jr_run_lease job) \<in> set (map (\<lambda>job. (jr_id job, jr_run_lease job)) jobs)" by auto
  then obtain row where "row \<in> set rows" "jr_id job = r_job_id row" "jr_run_lease job = r_run_lease row"
    unfolding assms(1) by auto
  then show "taken (jr_id job) (jr_run_lease job) s \<and> moved_on s (jr_id job) (jr_run_lease job)"
    using assms(2,3) by (simp add: fenced_rows_def)
qed

lemma fenced_jobs_none: "fenced_jobs [] s"
  by (simp add: fenced_jobs_def)

lemma settled_fenced:
  assumes "fenced_rows s rows" "settle_all life dlq err reason rows s = (Inr jobs, s')"
  shows "fenced_jobs jobs s'"
  using settle_all_outcome [OF assms(2)] fenced_rows_kept [OF assms(1)] by (intro fenced_jobsI [of jobs rows]) auto

text \<open>The body the lease rescues share: delete, scan the receipts, hydrate both, settle.\<close>

lemma populations_fenced:
  assumes P: "\<And>x y. P x \<Longrightarrow> lease_pair x = lease_pair y \<Longrightarrow> P y"
    and m: "\<And>c. rescues_unleased (m c)"
    and k: "\<And>a b s s'. fenced_rows s (a @ b) \<Longrightarrow> k a b s = (Inr jobs, s') \<Longrightarrow> fenced_jobs jobs s'"
    and run: "tx_bind (remove_leases P) (\<lambda>deleted. tx_bind (tx_get g) (\<lambda>c. tx_bind (m c) (\<lambda>receipts.
      if deleted = [] \<and> receipts = [] then tx_ret [] else
      tx_bind (hydrate_deleted_leases_tx deleted True) (\<lambda>a. tx_bind (hydrate_deleted_leases_tx receipts True) (\<lambda>b. k a b))))) s
      = (Inr jobs, s')"
  shows "fenced_jobs jobs s'"
proof -
  from run obtain deleted s1 where del: "remove_leases P s = (Inr deleted, s1)"
    and r1: "tx_bind (tx_get g) (\<lambda>c. tx_bind (m c) (\<lambda>receipts.
      if deleted = [] \<and> receipts = [] then tx_ret [] else
      tx_bind (hydrate_deleted_leases_tx deleted True) (\<lambda>a. tx_bind (hydrate_deleted_leases_tx receipts True) (\<lambda>b. k a b)))) s1
      = (Inr jobs, s')"
    by (rule tx_bindE)
  from r1 obtain c s1' where "tx_get g s1 = (Inr c, s1')"
    and r2: "tx_bind (m c) (\<lambda>receipts.
      if deleted = [] \<and> receipts = [] then tx_ret [] else
      tx_bind (hydrate_deleted_leases_tx deleted True) (\<lambda>a. tx_bind (hydrate_deleted_leases_tx receipts True) (\<lambda>b. k a b))) s1'
      = (Inr jobs, s')"
    by (rule tx_bindE)
  then have s1': "s1' = s1" by (simp add: tx_simps)
  from r2 [unfolded s1'] obtain receipts s2 where rec: "m c s1 = (Inr receipts, s2)"
    and r3: "(if deleted = [] \<and> receipts = [] then tx_ret [] else
      tx_bind (hydrate_deleted_leases_tx deleted True) (\<lambda>a. tx_bind (hydrate_deleted_leases_tx receipts True) (\<lambda>b. k a b))) s2
      = (Inr jobs, s')"
    by (rule tx_bindE)
  show ?thesis
  proof (cases "deleted = [] \<and> receipts = []")
    case True
    then show ?thesis using r3 by (simp add: tx_simps fenced_jobs_none)
  next
    case False
    with r3 have "tx_bind (hydrate_deleted_leases_tx deleted True) (\<lambda>a. tx_bind (hydrate_deleted_leases_tx receipts True) (k a)) s2
        = (Inr jobs, s')"
      by (simp only: if_False)
    then obtain a s3 where h1: "hydrate_deleted_leases_tx deleted True s2 = (Inr a, s3)"
      and r4: "tx_bind (hydrate_deleted_leases_tx receipts True) (k a) s3 = (Inr jobs, s')"
      by (rule tx_bindE)
    from r4 obtain b s4 where h2: "hydrate_deleted_leases_tx receipts True s3 = (Inr b, s4)" and r5: "k a b s4 = (Inr jobs, s')"
      by (rule tx_bindE)
    show ?thesis by (rule k [OF rescue_fences [OF P del rec m h1 h2] r5])
  qed
qed

lemma settled_twice_fenced:
  assumes f: "fenced_rows s (a @ b)"
    and run: "tx_bind (settle_all life dlq err reason a) (\<lambda>x. tx_bind (settle_all life dlq err' reason' b) (\<lambda>y. tx_ret (x @ y))) s
      = (Inr jobs, s')"
  shows "fenced_jobs jobs s'"
proof -
  from run obtain x s1 where sa: "settle_all life dlq err reason a s = (Inr x, s1)"
    and r1: "tx_bind (settle_all life dlq err' reason' b) (\<lambda>y. tx_ret (x @ y)) s1 = (Inr jobs, s')"
    by (rule tx_bindE)
  from r1 obtain y s2 where sb: "settle_all life dlq err' reason' b s1 = (Inr y, s2)" and "tx_ret (x @ y) s2 = (Inr jobs, s')"
    by (rule tx_bindE)
  then have jobs: "jobs = x @ y" "s2 = s'" by (simp_all add: tx_simps)
  note sa = settle_all_outcome [OF sa] and sb = settle_all_outcome [OF sb [unfolded jobs(2)]]
  have "fenced_rows s' (a @ b)" using fenced_rows_kept [OF fenced_rows_kept [OF f]] sa sb by blast
  moreover have "\<forall>row \<in> set (a @ b). moved_on s' (r_job_id row) (r_run_lease row)"
    using sa sb moved_on_evidence [of s1 s'] by auto
  ultimately show ?thesis using sa sb jobs(1) by (intro fenced_jobsI [of jobs "a @ b"]) simp_all
qed

lemma stale_heartbeats_fenced:
  "rescue_stale_heartbeats_with_dlq env life staleness dlq s = (Inr jobs, s') \<Longrightarrow> fenced_jobs jobs s'"
  unfolding rescue_stale_heartbeats_with_dlq_def in_tx_Inr
  by (elim tx_bindE [of "tx_lift r" for r] tx_bindE [of "tx_get g" for g] populations_fenced [rotated 3])
    (simp, simp add: receipt_rescues_unleased rescues_unleased_basic, rule settled_twice_fenced)

lemma expired_deadlines_fenced:
  "rescue_expired_deadlines_with_dlq env life dlq s = (Inr jobs, s') \<Longrightarrow> fenced_jobs jobs s'"
  unfolding rescue_expired_deadlines_with_dlq_def in_tx_Inr
  by (elim tx_bindE [of "tx_get g" for g] populations_fenced [rotated 3])
    (simp add: lease_pair_def, simp add: receipt_rescues_unleased rescues_unleased_basic, rule settled_fenced)

lemma expired_callbacks_fenced:
  assumes "rescue_expired_callbacks_with_dlq env life dlq s = (Inr jobs, s')"
  shows "fenced_jobs jobs s'"
proof -
  obtain expired deleted s1 where del: "remove_leases (\<lambda>l. ls_job_id l \<in> set expired) s = (Inr deleted, s1)"
    and r: "(if deleted = [] then tx_ret [] else tx_bind (hydrate_deleted_leases_tx deleted True)
      (settle_all life dlq ''callback timed out'' ''callback_timeout'')) s1 = (Inr jobs, s')"
    using assms unfolding rescue_expired_callbacks_with_dlq_def in_tx_Inr tx_bind_step
    by (rule tx_bindE)
  show ?thesis
  proof (cases "deleted = []")
    case True
    then show ?thesis using r by (simp add: tx_simps fenced_jobs_none)
  next
    case False
    then have "tx_bind (hydrate_deleted_leases_tx deleted True) (settle_all life dlq ''callback timed out'' ''callback_timeout'') s1
        = (Inr jobs, s')"
      using r by simp
    then obtain rows s2 where h: "hydrate_deleted_leases_tx deleted True s1 = (Inr rows, s2)"
      and k: "settle_all life dlq ''callback timed out'' ''callback_timeout'' rows s2 = (Inr jobs, s')"
      by (rule tx_bindE)
    have "fenced_rows s2 (rows @ [])"
      by (rule rescue_fences [where receipts = "[]" and m = "tx_ret []", OF _ del _ rescues_unleased_basic h])
        (simp_all add: lease_pair_def tx_simps hydrate_deleted_leases_tx_def)
    then show ?thesis using settled_fenced [OF _ k] by simp
  qed
qed


subsection \<open>Sample runs\<close>

text \<open>The store with one claimed job, whose worker was last seen long ago.\<close>

definition lost_store :: store where
  "lost_store = claimed_store\<lparr>s_claim_cursors := [0 \<mapsto> initial_claim_slot_cursors]\<rparr>"

definition quiet :: rescue_env where
  "quiet = \<lparr> rv_locked = [], rv_row_locked = [] \<rparr>"

theorem rescue_scan_exact_witness:
  "\<exists>s'. scan_close quiet (stale_scan 0 950) 500 [(7, 1)] lost_store = ([BatchTarget (mail_batch, mail_item)], s') \<and>
     \<not> target_closed lost_store 0 (BatchTarget (mail_batch, mail_item)) \<and> target_closed s' 0 (BatchTarget (mail_batch, mail_item))"
proof -
  have "fst (scan_close quiet (stale_scan 0 950) 500 [(7, 1)] lost_store) = [BatchTarget (mail_batch, mail_item)]" by code_simp
  then obtain s' where s': "scan_close quiet (stale_scan 0 950) 500 [(7, 1)] lost_store = ([BatchTarget (mail_batch, mail_item)], s')"
    by (metis prod.collapse)
  have "distinct (map target_receipt (claim_source lost_store 0))" by code_simp
  from bspec [OF conjunct1 [OF rescue_scan_exact [OF this s']], of "BatchTarget (mail_batch, mail_item)"] s'
  show ?thesis by (metis list.set_intros(1))
qed

theorem stale_claim_is_rescued_witness:
  "\<exists>hits s'. scan_until 2 quiet (stale_scan 0 950) 500 lost_store = (Inr hits, s') \<and> hits \<noteq> []"
proof (rule stale_claim_is_rescued)
  show "distinct (map target_pair (claim_source lost_store 0))" by code_simp
  show "s_claim_cursors lost_store 0 \<noteq> None" by (simp add: lost_store_def)
  show "overdue lost_store 0 950 (BatchTarget (mail_batch, mail_item))" by code_simp
  show "length (claim_source lost_store 0) < 2" by code_simp
qed (simp_all add: quiet_def)


end
