(* ===== verification/Awa_Storage.thy ===== *)
theory Awa_Storage
  imports Awa_Ring Awa_Routing
begin

section \<open>The storage transition\<close>

text \<open>
  The move of a database from the canonical job tables to queue storage: the singleton row
  \<^verbatim>\<open>awa.storage_transition_state\<close>, the SQL functions that step it
  (\<^verbatim>\<open>storage_prepare\<close>, \<^verbatim>\<open>storage_abort\<close>, \<^verbatim>\<open>storage_enter_mixed_transition\<close>,
  \<^verbatim>\<open>storage_finalize\<close>, \<^verbatim>\<open>storage_auto_finalize_if_fresh\<close>, each in the version the last
  migration leaves), the routing functions that read it, and their callers in
  \<^verbatim>\<open>awa-model/src/storage.rs\<close>, \<^verbatim>\<open>queue_storage.rs\<close> and \<^verbatim>\<open>awa-worker/src/client.rs\<close>:
  the quiesced entry, the status report with its blockers, the activation of a backend and the choice
  a worker makes between the two storages.  The last part is the cutover of the ring cursors: the
  gate over the versions of the live runtimes, the bounded retry after a deadlock and the automatic
  flip.

  A function of the database returns its result with the database it leaves; an error leaves the
  database as it was, because every function is one transaction.  Times are in milliseconds.  The
  text that \<^verbatim>\<open>->>\<close> gives for a JSON value that is neither a string nor null is the parameter \<open>jt\<close>.
\<close>

subsection \<open>Rows\<close>

datatype storage_state = InCanonical | InPrepared | InMixedTransition | InActive

fun storage_state_str :: "storage_state \<Rightarrow> string" where
  "storage_state_str InCanonical = ''canonical''"
| "storage_state_str InPrepared = ''prepared''"
| "storage_state_str InMixedTransition = ''mixed_transition''"
| "storage_state_str InActive = ''active''"

datatype storage_capability = CapCanonical | CapCanonicalDrainOnly | CapQueueStorage

fun capability_str :: "storage_capability \<Rightarrow> string" where
  "capability_str CapCanonical = ''canonical''"
| "capability_str CapCanonicalDrainOnly = ''canonical_drain_only''"
| "capability_str CapQueueStorage = ''queue_storage''"

datatype transition_role = RoleAuto | RoleCanonicalDrain | RoleQueueStorageTarget

record transition_row =
  ts_current_engine :: string
  ts_prepared_engine :: "string option"
  ts_state :: storage_state
  ts_epoch :: int
  ts_details :: json
  ts_entered_at :: timestamp
  ts_updated_at :: timestamp
  ts_finalized_at :: "timestamp option"

record runtime_instance =
  ri_capability :: storage_capability
  ri_role :: transition_role
  ri_last_seen :: timestamp
  ri_interval :: int
  ri_binary_version :: "string option"

text \<open>
  What the functions read of the database: the singleton row, the registered backend, the runtime
  snapshots, the states of the rows of \<^verbatim>\<open>jobs_hot\<close>, the number of rows of
  \<^verbatim>\<open>scheduled_jobs\<close>, and the catalog: the number of rows of a table (\<open>None\<close> when
  \<^verbatim>\<open>to_regclass\<close> finds none; a sequence counts as a table), the columns of a table, the result
  type of the function \<^verbatim>\<open>claim_ready_runtime\<close> with the signature the runtime calls, and the
  versions recorded in \<^verbatim>\<open>awa.schema_version\<close> (\<open>None\<close> without that table).
\<close>

record storage_db =
  sd_transition :: "transition_row option"
  sd_backend :: "(string \<times> timestamp) option"
  sd_instances :: "runtime_instance list"
  sd_jobs_hot :: "job_state list"
  sd_scheduled :: nat
  sd_table :: "string \<Rightarrow> string \<Rightarrow> nat option"
  sd_columns :: "string \<Rightarrow> string \<Rightarrow> string list"
  sd_claim_result :: "string \<Rightarrow> string option"
  sd_schema_versions :: "int list option"

definition initial_transition :: "timestamp \<Rightarrow> transition_row" where
  "initial_transition now =
    \<lparr>ts_current_engine = ''canonical'', ts_prepared_engine = None, ts_state = InCanonical,
     ts_epoch = 0, ts_details = JObject [], ts_entered_at = now, ts_updated_at = now,
     ts_finalized_at = None\<rparr>"

definition sqlstate :: "string \<Rightarrow> awa_error" where
  "sqlstate code = Database (DbError (Some code) None)"


subsection \<open>Status and routing\<close>

definition engine_of :: "transition_row \<Rightarrow> string" where
  "engine_of r =
    (if ts_state r \<in> set [InMixedTransition, InActive]
     then (case ts_prepared_engine r of Some e \<Rightarrow> e | None \<Rightarrow> ts_current_engine r)
     else ts_current_engine r)"

definition active_storage_engine :: "storage_db \<Rightarrow> string option" where
  "active_storage_engine db = map_option engine_of (sd_transition db)"

record storage_status_row =
  ss_row :: transition_row
  ss_active_engine :: string

definition storage_status :: "storage_db \<Rightarrow> awa_error + storage_status_row" where
  "storage_status db =
    (case sd_transition db of
       None \<Rightarrow> Inl (Database RowNotFound)
     | Some r \<Rightarrow> Inr \<lparr>ss_row = r, ss_active_engine = engine_of r\<rparr>)"

fun json_arrow_text :: "(json \<Rightarrow> string) \<Rightarrow> string \<Rightarrow> json \<Rightarrow> string option" where
  "json_arrow_text jt k d =
    (case json_get k d of
       None \<Rightarrow> None
     | Some JNull \<Rightarrow> None
     | Some (JString s) \<Rightarrow> Some s
     | Some v \<Rightarrow> Some (jt v))"

definition details_schema :: "(json \<Rightarrow> string) \<Rightarrow> json \<Rightarrow> string option" where
  "details_schema jt d =
    (case json_arrow_text jt ''schema'' d of
       Some s \<Rightarrow> (if s = [] then None else Some s)
     | None \<Rightarrow> None)"

definition or_schema :: "string \<Rightarrow> string option \<Rightarrow> string" where
  "or_schema d s = (case s of Some x \<Rightarrow> x | None \<Rightarrow> d)"

text \<open>\<^verbatim>\<open>details.get("schema").and_then(Value::as_str)\<close>.\<close>

definition details_schema_str :: "json \<Rightarrow> string option" where
  "details_schema_str d = (case json_get ''schema'' d of Some (JString s) \<Rightarrow> Some s | _ \<Rightarrow> None)"

definition active_queue_storage_schema :: "(json \<Rightarrow> string) \<Rightarrow> storage_db \<Rightarrow> string option" where
  "active_queue_storage_schema jt db =
    (case sd_transition db of
       None \<Rightarrow> None
     | Some r \<Rightarrow>
         (if engine_of r = ''queue_storage''
          then (case details_schema jt (ts_details r) of
                  Some s \<Rightarrow> Some s
                | None \<Rightarrow> Some (or_schema ''awa'' (map_option fst (sd_backend db))))
          else None))"

text \<open>
  \<^verbatim>\<open>QueueStorage::active_schema\<close> reads the registered backend only.  The Debug rendering of a name
  escapes quotes, backslashes and the named control characters; \<open>u\<close> renders the other control
  characters.
\<close>

fun debug_char :: "(char \<Rightarrow> string) \<Rightarrow> char \<Rightarrow> string" where
  "debug_char u c =
    (if c = CHR 0x22 then [CHR 0x5C, CHR 0x22]
     else if c = CHR 0x5C then [CHR 0x5C, CHR 0x5C]
     else if c = CHR 0x09 then [CHR 0x5C, CHR ''t'']
     else if c = CHR 0x0A then [CHR 0x5C, CHR ''n'']
     else if c = CHR 0x0D then [CHR 0x5C, CHR ''r'']
     else if c = CHR 0x00 then [CHR 0x5C, CHR ''0'']
     else if (of_char c :: nat) < 32 \<or> c = CHR 0x7F then u c
     else [c])"

definition debug_str :: "(char \<Rightarrow> string) \<Rightarrow> string \<Rightarrow> string" where
  "debug_str u s = [CHR 0x22] @ concat (map (debug_char u) s) @ [CHR 0x22]"

definition validate_active_schema :: "(char \<Rightarrow> string) \<Rightarrow> string \<Rightarrow> awa_error + string" where
  "validate_active_schema u schema =
    (case validate_ident schema of
       Inl _ \<Rightarrow>
         Inl (Validation (''active queue-storage schema name is not a valid SQL identifier: '' @
           debug_str u schema))
     | Inr _ \<Rightarrow> Inr schema)"

definition active_schema :: "(char \<Rightarrow> string) \<Rightarrow> storage_db \<Rightarrow> awa_error + string option" where
  "active_schema u db =
    (case sd_backend db of
       None \<Rightarrow> Inr None
     | Some (schema, _) \<Rightarrow> res_bind (validate_active_schema u schema) (\<lambda>s. Inr (Some s)))"

subsection \<open>The steps of the transition\<close>

text \<open>The windows in which a snapshot counts as live: in SQL (whole seconds) and in the quiesced check.\<close>

definition sql_window :: "int \<Rightarrow> millis" where
  "sql_window interval_ms = 1000 * max ((max interval_ms 1000 div 1000) * 3) 30"

definition quiesced_window :: "int \<Rightarrow> millis" where
  "quiesced_window interval_ms = max (interval_ms * 3) 30000"

definition sql_live :: "timestamp \<Rightarrow> runtime_instance \<Rightarrow> bool" where
  "sql_live now r \<longleftrightarrow> ri_last_seen r + sql_window (ri_interval r) \<ge> now"

definition live_count :: "timestamp \<Rightarrow> (runtime_instance \<Rightarrow> bool) \<Rightarrow> storage_db \<Rightarrow> nat" where
  "live_count now p db = length (filter (\<lambda>r. p r \<and> sql_live now r) (sd_instances db))"

fun is_terminal_state :: "job_state \<Rightarrow> bool" where
  "is_terminal_state s = (s \<in> set [Completed, Failed, Cancelled])"

definition canonical_live_backlog :: "storage_db \<Rightarrow> nat" where
  "canonical_live_backlog db =
    length (filter (\<lambda>s. \<not> is_terminal_state s) (sd_jobs_hot db)) + sd_scheduled db"

definition btrim :: "string \<Rightarrow> string" where
  "btrim s = rev (dropWhile (\<lambda>c. c = CHR '' '') (rev (dropWhile (\<lambda>c. c = CHR '' '') s)))"

definition with_status :: "storage_db \<Rightarrow> (awa_error + storage_status_row) \<times> storage_db" where
  "with_status db = (storage_status db, db)"

definition same_preparation :: "string \<Rightarrow> json \<Rightarrow> transition_row \<Rightarrow> bool" where
  "same_preparation target details r \<longleftrightarrow>
    ts_state r = InPrepared \<and> ts_prepared_engine r = Some target \<and> ts_details r = details"

definition storage_prepare ::
  "timestamp \<Rightarrow> string \<Rightarrow> json option \<Rightarrow> storage_db \<Rightarrow> (awa_error + storage_status_row) \<times> storage_db" where
  "storage_prepare now engine p_details db =
    (let target = btrim engine; details = (case p_details of Some d \<Rightarrow> d | None \<Rightarrow> JObject []) in
     if target = [] then (Inl (sqlstate ''22023''), db)
     else
       case sd_transition db of
         None \<Rightarrow> (Inl (sqlstate ''55000''), db)
       | Some r \<Rightarrow>
           (if ts_current_engine r = target then (Inl (sqlstate ''22023''), db)
            else if ts_state r \<notin> set [InCanonical, InPrepared] then (Inl (sqlstate ''55000''), db)
            else
              with_status (db\<lparr>sd_transition := Some (r\<lparr>
                ts_prepared_engine := Some target,
                ts_state := InPrepared,
                ts_epoch := (if same_preparation target details r then ts_epoch r else ts_epoch r + 1),
                ts_details := details,
                ts_entered_at := (if same_preparation target details r then ts_entered_at r else now),
                ts_updated_at := now,
                ts_finalized_at := None\<rparr>)\<rparr>)))"

definition abort_tables :: "string list" where
  "abort_tables =
    [''ready_entries'', ''ready_claim_attempt_batches'', ''ready_tombstones'', ''ready_segments'',
     ''deferred_jobs'', ''leases'', ''lease_claims'', ''lease_claim_closures'',
     ''lease_claim_closure_batches'', ''attempt_state'', ''done_entries'',
     ''receipt_completion_batches'', ''receipt_completion_tombstones'', ''dlq_entries'']"

definition queue_storage_rows :: "string \<Rightarrow> storage_db \<Rightarrow> awa_error + nat" where
  "queue_storage_rows schema db =
    (if sd_table db schema ''ready_entries'' = None then Inr 0
     else
       res_bind
         (res_map (\<lambda>t. case sd_table db schema t of None \<Rightarrow> Inl (sqlstate ''42P01'') | Some n \<Rightarrow> Inr n)
           abort_tables)
         (\<lambda>ns. Inr (sum_list ns)))"

text \<open>The gate of an abort; outside \<^verbatim>\<open>mixed_transition\<close> it lets everything pass.\<close>

definition abort_gate :: "(json \<Rightarrow> string) \<Rightarrow> timestamp \<Rightarrow> transition_row \<Rightarrow> storage_db \<Rightarrow> awa_error + unit" where
  "abort_gate jt now r db =
    (if ts_state r = InMixedTransition then
       (if live_count now (\<lambda>i. ri_capability i = CapQueueStorage) db > 0 then Inl (sqlstate ''55000'')
        else
          res_bind (queue_storage_rows (or_schema ''awa_exp'' (details_schema jt (ts_details r))) db)
            (\<lambda>n. if n > 0 then Inl (sqlstate ''55000'') else Inr ()))
     else Inr ())"

definition abort_row :: "timestamp \<Rightarrow> transition_row \<Rightarrow> transition_row" where
  "abort_row now r =
    (if ts_state r \<in> set [InCanonical, InPrepared, InMixedTransition] then
       r\<lparr>ts_prepared_engine := None,
         ts_state := InCanonical,
         ts_epoch := (if ts_state r \<in> set [InPrepared, InMixedTransition] then ts_epoch r + 1 else ts_epoch r),
         ts_details := JObject [],
         ts_entered_at := (if ts_state r = InCanonical then ts_entered_at r else now),
         ts_updated_at := now,
         ts_finalized_at := None\<rparr>
     else r)"

definition storage_abort ::
  "(json \<Rightarrow> string) \<Rightarrow> timestamp \<Rightarrow> storage_db \<Rightarrow> (awa_error + storage_status_row) \<times> storage_db" where
  "storage_abort jt now db =
    (case sd_transition db of
       None \<Rightarrow> (Inl (sqlstate ''55000''), db)
     | Some r \<Rightarrow>
         (case abort_gate jt now r db of
            Inl e \<Rightarrow> (Inl e, db)
          | Inr _ \<Rightarrow> with_status (db\<lparr>sd_backend := None, sd_transition := Some (abort_row now r)\<rparr>)))"

definition mixed_row :: "timestamp \<Rightarrow> transition_row \<Rightarrow> transition_row" where
  "mixed_row now r =
    r\<lparr>ts_state := InMixedTransition, ts_epoch := ts_epoch r + 1, ts_entered_at := now,
      ts_updated_at := now, ts_finalized_at := None\<rparr>"

definition storage_enter_mixed_transition ::
  "(json \<Rightarrow> string) \<Rightarrow> timestamp \<Rightarrow> storage_db \<Rightarrow> (awa_error + storage_status_row) \<times> storage_db" where
  "storage_enter_mixed_transition jt now db =
    (case sd_transition db of
       None \<Rightarrow> (Inl (sqlstate ''55000''), db)
     | Some r \<Rightarrow>
         (let schema = or_schema ''awa'' (details_schema jt (ts_details r)) in
          if ts_state r \<noteq> InPrepared then (Inl (sqlstate ''55000''), db)
          else if ts_prepared_engine r \<noteq> Some ''queue_storage'' then (Inl (sqlstate ''22023''), db)
          else if sd_table db schema ''queue_ring_state'' = None \<or> sd_table db schema ''ready_entries'' = None
              \<or> sd_table db schema ''leases'' = None
          then (Inl (sqlstate ''55000''), db)
          else if live_count now (\<lambda>i. ri_capability i = CapCanonical) db > 0 then (Inl (sqlstate ''55000''), db)
          else if live_count now (\<lambda>i. ri_role i = RoleQueueStorageTarget \<and> ri_capability i = CapQueueStorage) db = 0
          then (Inl (sqlstate ''55000''), db)
          else
            with_status (db\<lparr>sd_backend := Some (schema, now), sd_transition := Some (mixed_row now r)\<rparr>)))"

definition storage_finalize :: "timestamp \<Rightarrow> storage_db \<Rightarrow> (awa_error + storage_status_row) \<times> storage_db" where
  "storage_finalize now db =
    (case sd_transition db of
       None \<Rightarrow> (Inl (sqlstate ''55000''), db)
     | Some r \<Rightarrow>
         (if ts_state r \<noteq> InMixedTransition then (Inl (sqlstate ''55000''), db)
          else
            case ts_prepared_engine r of
              None \<Rightarrow> (Inl (sqlstate ''22023''), db)
            | Some engine \<Rightarrow>
                (if engine \<noteq> ''queue_storage'' then (Inl (sqlstate ''22023''), db)
                 else if canonical_live_backlog db > 0 then (Inl (sqlstate ''55000''), db)
                 else if live_count now (\<lambda>i. ri_capability i = CapCanonical) db > 0
                 then (Inl (sqlstate ''55000''), db)
                 else
                   with_status (db\<lparr>sd_transition := Some (r\<lparr>
                     ts_current_engine := engine, ts_prepared_engine := None, ts_state := InActive,
                     ts_epoch := ts_epoch r + 1, ts_entered_at := now, ts_updated_at := now,
                     ts_finalized_at := Some now\<rparr>)\<rparr>))))"

text \<open>
  The view \<^verbatim>\<open>awa.jobs\<close> shows the canonical tables whenever routing is canonical, which the first
  guard of the automatic promotion makes sure of.
\<close>

definition storage_auto_finalize_if_fresh ::
  "timestamp \<Rightarrow> string \<Rightarrow> storage_db \<Rightarrow> (awa_error + bool) \<times> storage_db" where
  "storage_auto_finalize_if_fresh now p_schema db =
    (let schema = (if btrim p_schema = [] then ''awa'' else btrim p_schema) in
     case sd_transition db of
       None \<Rightarrow> (Inl (sqlstate ''55000''), db)
     | Some r \<Rightarrow>
         (if ts_state r \<noteq> InCanonical then (Inr False, db)
          else if ts_prepared_engine r \<noteq> None then (Inr False, db)
          else if length (sd_jobs_hot db) + sd_scheduled db > 0 then (Inr False, db)
          else if filter (\<lambda>i. ri_last_seen i + 90000 \<ge> now) (sd_instances db) \<noteq> [] then (Inr False, db)
          else
            (Inr True, db\<lparr>sd_transition := Some (r\<lparr>
               ts_state := InActive, ts_current_engine := ''queue_storage'', ts_prepared_engine := None,
               ts_details := JObject [(''auto_finalized'', JBool True), (''schema'', JString schema)],
               ts_epoch := ts_epoch r + 1, ts_entered_at := now, ts_updated_at := now,
               ts_finalized_at := Some now\<rparr>), sd_backend := Some (schema, now)\<rparr>)))"

definition is_active_with :: "json \<Rightarrow> transition_row \<Rightarrow> bool" where
  "is_active_with details r \<longleftrightarrow>
    ts_current_engine r = ''queue_storage'' \<and> ts_prepared_engine r = None \<and> ts_state r = InActive \<and>
    ts_details r = details"

definition activate_backend :: "timestamp \<Rightarrow> string \<Rightarrow> storage_db \<Rightarrow> (awa_error + unit) \<times> storage_db" where
  "activate_backend now schema db =
    (let details = JObject [(''schema'', JString schema)] in
     case sd_transition db of
       None \<Rightarrow>
         (Inl (Validation ''queue storage activation requires the storage transition state row''), db)
     | Some r \<Rightarrow>
         (Inr (), db\<lparr>sd_backend := Some (schema, now), sd_transition := Some (r\<lparr>
            ts_current_engine := ''queue_storage'', ts_prepared_engine := None, ts_state := InActive,
            ts_epoch := (if is_active_with details r then ts_epoch r else ts_epoch r + 1),
            ts_details := details,
            ts_entered_at := (if is_active_with details r then ts_entered_at r else now),
            ts_updated_at := now,
            ts_finalized_at :=
              (if is_active_with details r
               then Some (case ts_finalized_at r of Some t \<Rightarrow> t | None \<Rightarrow> now) else Some now)\<rparr>)\<rparr>))"

text \<open>The objects a runtime requires of a queue-storage schema.\<close>

definition required_tables :: "string list" where
  "required_tables =
    [''job_id_seq'', ''lease_claim_receipt_id_seq'', ''lease_claim_batch_id_seq'', ''queue_ring_state'',
     ''queue_ring_rotations'', ''lease_ring_rotations'', ''claim_ring_rotations'',
     ''queue_terminal_rollup_deltas'', ''ready_entries'', ''ready_claim_attempt_batches'',
     ''ready_tombstones'', ''ready_segments'', ''done_entries'', ''receipt_completion_batches'',
     ''receipt_completion_tombstones'', ''queue_terminal_count_deltas'', ''leases'', ''deferred_jobs'',
     ''lease_claims'', ''lease_claim_batches'', ''lease_claim_closures'', ''lease_claim_closure_batches'']"

fun contains_text :: "string \<Rightarrow> string \<Rightarrow> bool" where
  "contains_text p [] = (p = [])"
| "contains_text p (c # cs) = (take (length p) (c # cs) = p \<or> contains_text p cs)"

definition queue_storage_schema_ready :: "string \<Rightarrow> storage_db \<Rightarrow> bool" where
  "queue_storage_schema_ready schema db \<longleftrightarrow>
    list_all (\<lambda>t. sd_table db schema t \<noteq> None) required_tables \<and>
    ''receipt_ranges'' \<in> set (sd_columns db schema ''lease_claim_closure_batches'') \<and>
    length (filter (\<lambda>c. c \<in> set [''ready_segment_slot'', ''ready_segment_generation'', ''ready_segment_next_lane_seq''])
      (sd_columns db schema ''queue_claim_heads'')) = 3 \<and>
    (case sd_claim_result db schema of
       None \<Rightarrow> False
     | Some res \<Rightarrow>
         contains_text ''receipt_id'' res \<and> contains_text ''claim_batch_id'' res \<and>
         contains_text ''claim_batch_index'' res)"

definition enter_mixed_transition_quiesced ::
  "(char \<Rightarrow> string) \<Rightarrow> timestamp \<Rightarrow> timestamp \<Rightarrow> storage_db \<Rightarrow> (awa_error + storage_status_row) \<times> storage_db" where
  "enter_mixed_transition_quiesced u now clock db =
    (case sd_transition db of
       None \<Rightarrow> (Inl (Database RowNotFound), db)
     | Some r \<Rightarrow>
         (if ts_state r \<noteq> InPrepared \<or> ts_prepared_engine r \<noteq> Some ''queue_storage''
          then (Inl (Validation ''quiesced transition requires prepared queue storage''), db)
          else
            let schema = (case details_schema_str (ts_details r) of
                            Some s \<Rightarrow> (if s = [] then ''awa'' else s) | None \<Rightarrow> ''awa'');
                live = length (filter (\<lambda>i. ri_last_seen i + quiesced_window (ri_interval i) \<ge> clock)
                         (sd_instances db)) in
            if \<not> queue_storage_schema_ready schema db
            then (Inl (Validation (''queue storage schema '' @ debug_str u schema @ '' is not prepared'')), db)
            else if live \<noteq> 0
            then (Inl (Validation (''cannot enter quiesced transition while '' @ string_of_nat live @
                '' fresh runtime snapshot(s) exist; stop all workers and wait for their heartbeats to expire'')), db)
            else
              with_status (db\<lparr>sd_backend := Some (schema, now), sd_transition := Some (mixed_row now r)\<rparr>)))"


subsection \<open>The status report\<close>

definition queue_storage_schema_from_status :: "storage_status_row \<Rightarrow> string option" where
  "queue_storage_schema_from_status st =
    (if ts_prepared_engine (ss_row st) = Some ''queue_storage'' \<or> ss_active_engine st = ''queue_storage''
     then Some (or_schema ''awa'' (details_schema_str (ts_details (ss_row st)))) else None)"

text \<open>The window of \<^verbatim>\<open>RuntimeInstance::stale_cutoff\<close>, with its saturating 64-bit product.\<close>

definition stale_cutoff :: "int \<Rightarrow> millis" where
  "stale_cutoff interval_ms = max (min (max interval_ms 1000 * 3) (2 ^ 63 - 1)) 30000"

definition stale :: "timestamp \<Rightarrow> runtime_instance \<Rightarrow> bool" where
  "stale now r \<longleftrightarrow> ri_last_seen r + stale_cutoff (ri_interval r) < now"

text \<open>A blocker has one constructor per message of the report, with the values the message shows.\<close>

datatype transition_blocker =
    StateIs storage_state
  | PreparedEngineIs "string option"
  | SchemaMissingTables
  | CanonicalRuntimesLive nat
  | NoQueueStorageTarget
  | CanonicalBacklog nat

record storage_status_report =
  sr_status :: storage_status_row
  sr_canonical_live_backlog :: nat
  sr_prepared_schema :: "string option"
  sr_prepared_schema_ready :: bool
  sr_capability_counts :: "(string, nat) omap"
  sr_enter_blockers :: "transition_blocker list"
  sr_can_enter_mixed_transition :: bool
  sr_finalize_blockers :: "transition_blocker list"
  sr_can_finalize :: bool

fun count_capabilities :: "runtime_instance list \<Rightarrow> (string, nat) omap \<Rightarrow> (string, nat) omap" where
  "count_capabilities [] m = m"
| "count_capabilities (r # rs) m =
     count_capabilities rs (omap_update (capability_str (ri_capability r)) 0 Suc m)"

definition status_report :: "timestamp \<Rightarrow> storage_db \<Rightarrow> awa_error + storage_status_report" where
  "status_report now db =
    res_bind (storage_status db) (\<lambda>status.
      let backlog = canonical_live_backlog db;
          schema = queue_storage_schema_from_status status;
          ready = (case schema of Some s \<Rightarrow> queue_storage_schema_ready s db | None \<Rightarrow> False);
          live = filter (\<lambda>r. \<not> stale now r) (sd_instances db);
          counts = count_capabilities live [];
          targets = length (filter (\<lambda>r. ri_role r = RoleQueueStorageTarget \<and> ri_capability r = CapQueueStorage) live);
          canonical = (case map_of counts ''canonical'' of Some n \<Rightarrow> n | None \<Rightarrow> 0);
          state = ts_state (ss_row status);
          engine = ts_prepared_engine (ss_row status);
          enter =
            (if state \<noteq> InPrepared then [StateIs state] else []) @
            (if engine \<noteq> Some ''queue_storage'' then [PreparedEngineIs engine] else []) @
            (if schema \<noteq> None \<and> \<not> ready then [SchemaMissingTables] else []) @
            (if canonical > 0 then [CanonicalRuntimesLive canonical] else []) @
            (if targets = 0 then [NoQueueStorageTarget] else []);
          final =
            (if state \<noteq> InMixedTransition then [StateIs state] else []) @
            (if engine \<noteq> Some ''queue_storage'' then [PreparedEngineIs engine] else []) @
            (if backlog > 0 then [CanonicalBacklog backlog] else []) @
            (if canonical > 0 then [CanonicalRuntimesLive canonical] else [])
      in Inr \<lparr>sr_status = status, sr_canonical_live_backlog = backlog, sr_prepared_schema = schema,
              sr_prepared_schema_ready = ready, sr_capability_counts = counts,
              sr_enter_blockers = enter, sr_can_enter_mixed_transition = (enter = []),
              sr_finalize_blockers = final, sr_can_finalize = (final = [])\<rparr>)"

subsection \<open>The storage a worker runs on\<close>

datatype runtime_storage = CanonicalRuntime | QueueStorageRuntime string

definition CURRENT_VERSION :: int where
  "CURRENT_VERSION = 52"

definition current_version_readonly :: "storage_db \<Rightarrow> int" where
  "current_version_readonly db =
    (case sd_schema_versions db of None \<Rightarrow> 0 | Some [] \<Rightarrow> 0 | Some (v # vs) \<Rightarrow> foldl max v vs)"

definition expected_queue_storage_schema :: "storage_status_row \<Rightarrow> awa_error + string option" where
  "expected_queue_storage_schema st =
    (let prepared_schema = or_schema ''awa'' (details_schema_str (ts_details (ss_row st)));
         prepared = (ts_prepared_engine (ss_row st) = Some ''queue_storage'') in
     case ts_state (ss_row st) of
       InPrepared \<Rightarrow> Inr (if prepared then Some prepared_schema else None)
     | InCanonical \<Rightarrow> Inr (if prepared then Some prepared_schema else None)
     | _ \<Rightarrow>
         (if ss_active_engine st = ''queue_storage'' then Inr (Some prepared_schema)
          else Inl (Validation (''unsupported active storage engine '' @ [CHR 0x27] @ ss_active_engine st @ [CHR 0x27]))))"

definition queue_storage_not_ready_error :: "string \<Rightarrow> string \<Rightarrow> int \<Rightarrow> awa_error" where
  "queue_storage_not_ready_error schema role_hint schema_version =
    (if schema_version > 0 \<and> schema_version < CURRENT_VERSION then
       Validation (''queue storage schema '' @ [CHR 0x27] @ schema @ [CHR 0x27] @
         '' is missing relations this runtime requires: schema version '' @ string_of_int schema_version @
         '' is older than this binary'' @ [CHR 0x27] @ ''s version '' @ string_of_int CURRENT_VERSION @
         ''; run `awa migrate` before starting this runtime'')
     else
       Validation (''queue storage schema '' @ [CHR 0x27] @ schema @ [CHR 0x27] @
         '' is not prepared; run schema preparation before starting '' @ role_hint @ '' runtimes''))"

text \<open>
  What happens around the decision of a starting worker: other sessions may commit a migration
  between its two probes of the schema, the installation of the schema it is configured for
  (\<^verbatim>\<open>QueueStorage::prepare_schema\<close>, pure DDL), and what others commit until the promotion gate runs.
\<close>

record resolve_env =
  rv_now :: timestamp
  rv_migrated :: "storage_db \<Rightarrow> storage_db"
  rv_prepare_schema :: "string \<Rightarrow> storage_db \<Rightarrow> (awa_error + unit) \<times> storage_db"
  rv_others :: "storage_db \<Rightarrow> storage_db"

definition routed_to_queue_storage :: "storage_status_row \<Rightarrow> bool" where
  "routed_to_queue_storage st \<longleftrightarrow>
    ts_state (ss_row st) \<in> set [InMixedTransition, InActive] \<and> ss_active_engine st = ''queue_storage''"

text \<open>The probe: whether the expected schema is ready, and the version seen when it was not.\<close>

definition probe_schema :: "resolve_env \<Rightarrow> string option \<Rightarrow> storage_db \<Rightarrow> bool \<times> int \<times> storage_db" where
  "probe_schema env expected db =
    (case expected of
       None \<Rightarrow> (False, 0, db)
     | Some schema \<Rightarrow>
         (if queue_storage_schema_ready schema db then (True, 0, db)
          else
            let db = rv_migrated env db; version = current_version_readonly db in
            (version = CURRENT_VERSION \<and> queue_storage_schema_ready schema db, version, db)))"

definition auto_promote ::
  "resolve_env \<Rightarrow> string \<Rightarrow> storage_db \<Rightarrow> (awa_error + bool) \<times> storage_db" where
  "auto_promote env configured db =
    (let (installed, db) =
       (if queue_storage_schema_ready configured db then (Inr (), db) else rv_prepare_schema env configured db) in
     case installed of
       Inl e \<Rightarrow> (Inl e, db)
     | Inr _ \<Rightarrow>
         (case storage_auto_finalize_if_fresh (rv_now env) configured (rv_others env db) of
            (Inl e, db) \<Rightarrow> (Inl e, db)
          | (Inr True, db) \<Rightarrow> (Inr True, db)
          | (Inr False, db) \<Rightarrow> (map_sum id routed_to_queue_storage (storage_status db), db)))"

definition resolve_effective_storage ::
  "resolve_env \<Rightarrow> transition_role \<Rightarrow> runtime_storage \<Rightarrow> storage_db \<Rightarrow> (awa_error + runtime_storage) \<times> storage_db" where
  "resolve_effective_storage env role storage db =
    (case storage of
       CanonicalRuntime \<Rightarrow> (Inr CanonicalRuntime, db)
     | QueueStorageRuntime configured \<Rightarrow>
         (case res_bind (storage_status db) (\<lambda>st. res_bind (expected_queue_storage_schema st) (\<lambda>ex. Inr (st, ex))) of
            Inl e \<Rightarrow> (Inl e, db)
          | Inr (status, expected) \<Rightarrow>
              (if expected \<noteq> None \<and> expected \<noteq> Some configured
               then (Inl (Validation (''queue storage runtime configured for schema '' @ [CHR 0x27] @ configured @
                  [CHR 0x27] @ '' but transition state requires '' @ [CHR 0x27] @ or_schema [] expected @ [CHR 0x27])), db)
               else
                 let (ready, version, db) = probe_schema env expected db in
                 case role of
                   RoleCanonicalDrain \<Rightarrow> (Inr CanonicalRuntime, db)
                 | RoleQueueStorageTarget \<Rightarrow>
                     (case expected of
                        None \<Rightarrow> (Inl (Validation ''queue_storage_target requires a prepared queue-storage schema''), db)
                      | Some schema \<Rightarrow>
                          (if ready then (Inr storage, db)
                           else (Inl (queue_storage_not_ready_error schema ''queue-storage-target'' version), db)))
                 | RoleAuto \<Rightarrow>
                     (if expected \<noteq> None \<and> \<not> ready
                      then (Inl (queue_storage_not_ready_error (or_schema [] expected) ''0.6'' version), db)
                      else if ts_state (ss_row status) = InCanonical \<and> ts_prepared_engine (ss_row status) = None
                      then
                        (case auto_promote env configured db of
                           (Inl e, db) \<Rightarrow> (Inl e, db)
                         | (Inr promoted, db) \<Rightarrow>
                             (Inr (if promoted \<or> routed_to_queue_storage status then storage else CanonicalRuntime), db))
                      else (Inr (if routed_to_queue_storage status then storage else CanonicalRuntime), db)))))"

text \<open>What a runtime reports of itself; \<open>status\<close> is the outcome of reading the status at snapshot time.\<close>

definition runtime_storage_capability :: "bool \<Rightarrow> runtime_storage \<Rightarrow> awa_error + storage_status_row \<Rightarrow> storage_capability" where
  "runtime_storage_capability capable effective status =
    (if \<not> capable then CapCanonical
     else
       case effective of
         QueueStorageRuntime _ \<Rightarrow> CapQueueStorage
       | CanonicalRuntime \<Rightarrow>
           (case status of
              Inr st \<Rightarrow> (if routed_to_queue_storage st then CapCanonicalDrainOnly else CapQueueStorage)
            | Inl _ \<Rightarrow> CapQueueStorage))"


subsection \<open>The cutover of the ring cursors\<close>

definition ring_authority_min_flip_version :: string where
  "ring_authority_min_flip_version = ''0.7.0''"

definition bigint :: "nat \<Rightarrow> awa_error + int" where
  "bigint n = (if int n < 2 ^ 63 then Inr (int n) else Inl (sqlstate ''22003''))"

definition digits_value :: "string \<Rightarrow> nat" where
  "digits_value ds = (case parse_digits 0 ds of Some n \<Rightarrow> n | None \<Rightarrow> 0)"

text \<open>An optional group of a dot and digits: what it captures and what is left.\<close>

fun dotted_group :: "string \<Rightarrow> string option \<times> string" where
  "dotted_group [] = (None, [])"
| "dotted_group (c # s) =
     (if c = CHR ''.'' \<and> takeWhile is_digit s \<noteq> [] then (Some (takeWhile is_digit s), dropWhile is_digit s)
      else (None, c # s))"

definition semver_rank :: "string option \<Rightarrow> awa_error + int option" where
  "semver_rank p_version =
    (let v = or_schema [] p_version;
         major = takeWhile is_digit v;
         (minor, rest) = dotted_group (dropWhile is_digit v);
         (patch, _) = dotted_group rest in
     if major = [] then Inr None
     else
       res_bind (bigint (digits_value major)) (\<lambda>a.
       res_bind (bigint (digits_value (or_schema ''0'' minor))) (\<lambda>b.
       res_bind (bigint (digits_value (or_schema ''0'' patch))) (\<lambda>c.
       res_bind (bigint (nat (a * 1000000))) (\<lambda>x.
       res_bind (bigint (nat (b * 1000))) (\<lambda>y.
       res_bind (bigint (nat (x + y))) (\<lambda>xy.
       res_bind (bigint (nat (xy + c))) (\<lambda>r. Inr (Some r)))))))))"

text \<open>
  \<open>binary_version IS NOT NULL AND semver_rank(binary_version) >= min\<close> in three-valued logic:
  \<open>None\<close> is \<^verbatim>\<open>NULL\<close>.
\<close>

definition flip_aware :: "runtime_instance \<Rightarrow> awa_error + bool option" where
  "flip_aware r =
    (case ri_binary_version r of
       None \<Rightarrow> Inr (Some False)
     | Some v \<Rightarrow>
         res_bind (semver_rank (Some v)) (\<lambda>rank.
         res_bind (semver_rank (Some ring_authority_min_flip_version)) (\<lambda>least.
         Inr (case (rank, least) of (Some a, Some b) \<Rightarrow> Some (a \<ge> b) | _ \<Rightarrow> None))))"

record ring_authority_report =
  ra_authority :: string
  ra_live_instances :: nat
  ra_flip_aware_instances :: nat
  ra_blocking_instances :: nat

definition fresh :: "timestamp \<Rightarrow> millis \<Rightarrow> runtime_instance \<Rightarrow> bool" where
  "fresh now window r \<longleftrightarrow> ri_last_seen r \<ge> now - window"

definition ring_authority_status ::
  "timestamp \<Rightarrow> millis \<Rightarrow> runtime_instance list \<Rightarrow> ring_db \<Rightarrow> awa_error + ring_authority_report" where
  "ring_authority_status now window instances db =
    res_bind (res_map (\<lambda>r. res_bind (flip_aware r) (\<lambda>a. Inr (fresh now window r, a))) instances)
      (\<lambda>classified. Inr
        \<lparr>ra_authority = db_authority db,
         ra_live_instances = length (filter fst classified),
         ra_flip_aware_instances = length (filter (\<lambda>(f, a). f \<and> a = Some True) classified),
         ra_blocking_instances = length (filter (\<lambda>(f, a). f \<and> a = Some False) classified)\<rparr>)"

text \<open>
  One call of \<^verbatim>\<open>awa.flip_ring_authority\<close>, which counts the blocking runtimes itself.  A schema
  without \<^verbatim>\<open>ring_cursor_authority\<close> is \<open>None\<close>.
\<close>

definition flip_call ::
  "timestamp \<Rightarrow> bool \<Rightarrow> millis \<Rightarrow> runtime_instance list \<Rightarrow> ring_db option
    \<Rightarrow> (awa_error + string) \<times> ring_db option" where
  "flip_call now force window instances rings =
    (case rings of
       None \<Rightarrow> (Inl (sqlstate ''22023''), None)
     | Some db \<Rightarrow>
         (let blocking = (if db_authority db = ''ledger'' \<or> force then Inr 0
                          else map_sum id ra_blocking_instances (ring_authority_status now window instances db)) in
          case blocking of
            Inl e \<Rightarrow> (Inl e, Some db)
          | Inr n \<Rightarrow> map_prod id Some (flip_ring_authority now force n db)))"

text \<open>
  The world the retries run in: before the \<open>k\<close>-th call other sessions change the rings
  (\<open>fl_traffic\<close>); the call may fail for a reason outside the function, a deadlock or a lost
  connection (\<open>fl_failure\<close>), and then changes nothing.
\<close>

record flip_env =
  fl_now :: "nat \<Rightarrow> timestamp"
  fl_instances :: "nat \<Rightarrow> runtime_instance list"
  fl_traffic :: "nat \<Rightarrow> ring_db option \<Rightarrow> ring_db option"
  fl_failure :: "nat \<Rightarrow> sqlx_error option"

definition flip_attempt ::
  "flip_env \<Rightarrow> bool \<Rightarrow> nat \<Rightarrow> ring_db option \<Rightarrow> (awa_error + string) \<times> ring_db option" where
  "flip_attempt env force k rings =
    (case fl_failure env k of
       Some e \<Rightarrow> (Inl (Database e), fl_traffic env k rings)
     | None \<Rightarrow> flip_call (fl_now env k) force 90000 (fl_instances env k) (fl_traffic env k rings))"

definition FLIP_DEADLOCK_RETRIES :: nat where
  "FLIP_DEADLOCK_RETRIES = 5"

text \<open>The loop of \<^verbatim>\<open>storage::flip_ring_authority\<close>, with the delays it sleeps.\<close>

function flip_retrying ::
  "flip_env \<Rightarrow> bool \<Rightarrow> nat \<Rightarrow> ring_db option \<Rightarrow> (awa_error + string) \<times> millis list \<times> ring_db option" where
  "flip_retrying env force retry rings =
    (case flip_attempt env force retry rings of
       (Inr authority, rings) \<Rightarrow> (Inr authority, [], rings)
     | (Inl e, rings) \<Rightarrow>
         (if is_deadlock e \<and> retry < FLIP_DEADLOCK_RETRIES
          then
            let (res, delays, rings) = flip_retrying env force (retry + 1) rings in
            (res, 50 * 2 ^ (retry + 1 - 1) # delays, rings)
          else (Inl e, [], rings)))"
  by pat_completeness auto
termination
  by (relation "measure (\<lambda>(_, _, retry, _). FLIP_DEADLOCK_RETRIES - retry)") auto

declare flip_retrying.simps [simp del]

text \<open>
  One tick of the automatic flip; \<open>since\<close> is the instant since which the fleet has been clean, and
  \<open>t'\<close> the instant at which the window is read, not before \<open>t\<close>.
\<close>

definition maybe_auto_flip_ring_authority ::
  "bool \<Rightarrow> millis \<Rightarrow> flip_env \<Rightarrow> (awa_error + ring_authority_report) \<Rightarrow> millis \<Rightarrow> millis \<Rightarrow> millis option \<Rightarrow> ring_db option
    \<Rightarrow> millis option \<times> ring_db option" where
  "maybe_auto_flip_ring_authority enabled stable_period env status t t' since rings =
    (if \<not> enabled then (since, rings)
     else
       case status of
         Inl _ \<Rightarrow> (since, rings)
       | Inr st \<Rightarrow>
           (if ra_authority st = ''ledger'' then (since, rings)
            else if ra_blocking_instances st > 0 \<or> ra_live_instances st = 0 then (None, rings)
            else
              let ready_since = (case since of Some s \<Rightarrow> s | None \<Rightarrow> t) in
              if t' - ready_since < stable_period then (Some ready_since, rings)
              else
                case flip_retrying env False 0 rings of
                  (Inr _, _, rings) \<Rightarrow> (Some ready_since, rings)
                | (Inl _, _, rings) \<Rightarrow> (None, rings)))"

section \<open>Properties of the transition\<close>

subsection \<open>Machines with an epoch\<close>

text \<open>
  A system whose steps keep an invariant, never lower an epoch and leave the configuration alone
  unless they raise it: whole runs then have these properties.
\<close>

locale epoch_machine =
  fixes step :: "'s \<Rightarrow> 's \<Rightarrow> bool"
    and inv :: "'s \<Rightarrow> bool"
    and epoch :: "'s \<Rightarrow> int"
    and config :: "'s \<Rightarrow> 'c"
  assumes step_inv: "inv s \<Longrightarrow> step s s' \<Longrightarrow> inv s'"
    and step_mono: "inv s \<Longrightarrow> step s s' \<Longrightarrow> epoch s \<le> epoch s'"
    and step_same: "inv s \<Longrightarrow> step s s' \<Longrightarrow> epoch s' = epoch s \<Longrightarrow> config s' = config s"
begin

lemma run_inv: "rtranclp step s s' \<Longrightarrow> inv s \<Longrightarrow> inv s'"
  by (induction rule: rtranclp_induct) (auto intro: step_inv)

lemma run_epoch:
  assumes "rtranclp step s s'" "inv s"
  shows "epoch s \<le> epoch s' \<and> (epoch s' = epoch s \<longrightarrow> config s' = config s)"
  using assms(1)
proof (induction rule: rtranclp_induct)
  case (step y z)
  have "inv y" using run_inv step.hyps(1) assms(2) .
  then have "epoch y \<le> epoch z" "epoch z = epoch y \<Longrightarrow> config z = config y"
    using step_mono step_same step.hyps(2) by blast+
  with step.IH show ?case by auto
qed simp

end


subsection \<open>The transition as a machine\<close>

definition schema_is_text :: "json \<Rightarrow> bool" where
  "schema_is_text d \<longleftrightarrow> (case json_get ''schema'' d of None \<Rightarrow> True | Some v \<Rightarrow> (\<exists>s. v = JString s))"

text \<open>
  Every step of the transition, and every step that leaves the transition row and the registered
  backend alone: heartbeats, jobs, migrations.  Operators give the schema as a string, and a store is
  constructed with a valid schema name.
\<close>

inductive storage_step :: "(json \<Rightarrow> string) \<Rightarrow> (char \<Rightarrow> string) \<Rightarrow> storage_db \<Rightarrow> storage_db \<Rightarrow> bool"
  for jt u where
  st_prepare:
    "(case d of None \<Rightarrow> True | Some v \<Rightarrow> schema_is_text v) \<Longrightarrow> storage_prepare now engine d db = (res, db') \<Longrightarrow>
      storage_step jt u db db'"
| st_abort: "storage_abort jt now db = (res, db') \<Longrightarrow> storage_step jt u db db'"
| st_enter: "storage_enter_mixed_transition jt now db = (res, db') \<Longrightarrow> storage_step jt u db db'"
| st_quiesced: "enter_mixed_transition_quiesced u now clock db = (res, db') \<Longrightarrow> storage_step jt u db db'"
| st_finalize: "storage_finalize now db = (res, db') \<Longrightarrow> storage_step jt u db db'"
| st_auto: "storage_auto_finalize_if_fresh now schema db = (promoted, db') \<Longrightarrow> storage_step jt u db db'"
| st_activate:
    "validate_ident schema = Inr () \<Longrightarrow> activate_backend now schema db = (done', db') \<Longrightarrow> storage_step jt u db db'"
| st_outside:
    "sd_transition db' = sd_transition db \<Longrightarrow> sd_backend db' = sd_backend db \<Longrightarrow> storage_step jt u db db'"

text \<open>What each state says of the row.\<close>

fun row_wf :: "transition_row \<Rightarrow> bool" where
  "row_wf r =
    (schema_is_text (ts_details r) \<and> 0 \<le> ts_epoch r \<and>
     (case ts_state r of
        InCanonical \<Rightarrow>
          ts_current_engine r = ''canonical'' \<and> ts_prepared_engine r = None \<and> ts_details r = JObject [] \<and>
          ts_finalized_at r = None
      | InPrepared \<Rightarrow>
          ts_current_engine r = ''canonical'' \<and>
          (case ts_prepared_engine r of None \<Rightarrow> False | Some e \<Rightarrow> e \<noteq> [] \<and> e \<noteq> ''canonical'') \<and>
          ts_finalized_at r = None
      | InMixedTransition \<Rightarrow>
          ts_current_engine r = ''canonical'' \<and> ts_prepared_engine r = Some ''queue_storage'' \<and>
          ts_finalized_at r = None
      | InActive \<Rightarrow>
          ts_current_engine r = ''queue_storage'' \<and> ts_prepared_engine r = None \<and>
          ts_finalized_at r \<noteq> None))"

definition backend_wf :: "(json \<Rightarrow> string) \<Rightarrow> transition_row \<Rightarrow> (string \<times> timestamp) option \<Rightarrow> bool" where
  "backend_wf jt r b \<longleftrightarrow>
    (ts_state r \<in> {InCanonical, InPrepared} \<longrightarrow> b = None) \<and>
    (ts_state r = InMixedTransition \<longrightarrow> b \<noteq> None) \<and>
    (\<forall>s t. b = Some (s, t) \<longrightarrow> s = or_schema ''awa'' (details_schema jt (ts_details r)))"

definition storage_inv :: "(json \<Rightarrow> string) \<Rightarrow> storage_db \<Rightarrow> bool" where
  "storage_inv jt db \<longleftrightarrow>
    (\<exists>r. sd_transition db = Some r \<and> row_wf r \<and> backend_wf jt r (sd_backend db))"

definition epoch_of :: "storage_db \<Rightarrow> int" where
  "epoch_of db = (case sd_transition db of None \<Rightarrow> 0 | Some r \<Rightarrow> ts_epoch r)"

definition configuration :: "storage_db \<Rightarrow> (storage_state \<times> string \<times> string option \<times> json) option" where
  "configuration db =
    map_option (\<lambda>r. (ts_state r, ts_current_engine r, ts_prepared_engine r, ts_details r)) (sd_transition db)"

lemma schema_is_text_empty [simp]: "schema_is_text (JObject [])"
  by (simp add: schema_is_text_def)

lemma details_schema_text:
  assumes "schema_is_text d"
  shows "details_schema jt d =
    (case details_schema_str d of Some s \<Rightarrow> if s = [] then None else Some s | None \<Rightarrow> None)"
  using assms by (auto simp: schema_is_text_def details_schema_def details_schema_str_def
      split: option.splits json.splits)

lemma validate_ident_nonempty: "validate_ident s = Inr () \<Longrightarrow> s \<noteq> []"
  by (auto simp: validate_ident_def)

lemma storage_invI:
  "sd_transition db = Some r \<Longrightarrow> row_wf r \<Longrightarrow> backend_wf jt r (sd_backend db) \<Longrightarrow> storage_inv jt db"
  by (auto simp: storage_inv_def)

text \<open>What a step does to the invariant, the epoch and the configuration, in one relation.\<close>

definition good_step :: "(json \<Rightarrow> string) \<Rightarrow> storage_db \<Rightarrow> storage_db \<Rightarrow> bool" where
  "good_step jt db db' \<longleftrightarrow>
    storage_inv jt db' \<and> epoch_of db \<le> epoch_of db' \<and>
    (epoch_of db' = epoch_of db \<longrightarrow> configuration db' = configuration db) \<and>
    (\<forall>r. sd_transition db = Some r \<longrightarrow> ts_state r = InActive \<longrightarrow>
      (\<exists>r'. sd_transition db' = Some r' \<and> ts_state r' = InActive))"

lemma good_step_refl: "storage_inv jt db \<Longrightarrow> good_step jt db db"
  by (auto simp: good_step_def)

lemmas good_step_defs = good_step_def storage_inv_def epoch_of_def configuration_def backend_wf_def

lemma prepare_good:
  assumes inv: "storage_inv jt db" and d: "case d of None \<Rightarrow> True | Some v \<Rightarrow> schema_is_text v"
    and eq: "storage_prepare now engine d db = (res, db')"
  shows "good_step jt db db'"
proof -
  from inv obtain r where r: "sd_transition db = Some r" "row_wf r" "backend_wf jt r (sd_backend db)"
    by (auto simp: storage_inv_def)
  show ?thesis
  proof (cases "btrim engine = [] \<or> ts_current_engine r = btrim engine \<or> ts_state r \<notin> {InCanonical, InPrepared}")
    case True
    then have "db' = db" using eq r(1) by (auto simp: storage_prepare_def Let_def split: if_splits)
    then show ?thesis using good_step_refl [OF inv] by simp
  next
    case False
    have "schema_is_text (case d of Some d \<Rightarrow> d | None \<Rightarrow> JObject [])" using d by (cases d) auto
    with False eq r show ?thesis
      by (auto simp: storage_prepare_def Let_def with_status_def good_step_defs same_preparation_def
          split: if_splits)
  qed
qed

lemma abort_good:
  assumes inv: "storage_inv jt db" and eq: "storage_abort jt now db = (res, db')"
  shows "good_step jt db db'"
proof -
  from inv obtain r where r: "sd_transition db = Some r" "row_wf r" "backend_wf jt r (sd_backend db)"
    by (auto simp: storage_inv_def)
  show ?thesis
  proof (cases "abort_gate jt now r db")
    case (Inl e)
    then show ?thesis using eq r(1) good_step_refl [OF inv] by (simp add: storage_abort_def)
  next
    case (Inr x)
    then have "db' = db\<lparr>sd_backend := None, sd_transition := Some (abort_row now r)\<rparr>"
      using eq r(1) by (simp add: storage_abort_def with_status_def)
    then show ?thesis using r by (cases "ts_state r") (auto simp: good_step_defs abort_row_def)
  qed
qed

lemma mixed_good:
  assumes "sd_transition db = Some r" "row_wf r" "ts_state r = InPrepared"
    "ts_prepared_engine r = Some ''queue_storage''"
    and "s = or_schema ''awa'' (details_schema jt (ts_details r))"
  shows "good_step jt db (db\<lparr>sd_backend := Some (s, now), sd_transition := Some (mixed_row now r)\<rparr>)"
  using assms by (auto simp: good_step_defs mixed_row_def)

lemma enter_good:
  assumes inv: "storage_inv jt db" and eq: "storage_enter_mixed_transition jt now db = (res, db')"
  shows "good_step jt db db'"
proof -
  from inv obtain r where r: "sd_transition db = Some r" "row_wf r"
    by (auto simp: storage_inv_def)
  let ?s = "or_schema ''awa'' (details_schema jt (ts_details r))"
  have "db' = db \<or> ts_state r = InPrepared \<and> ts_prepared_engine r = Some ''queue_storage'' \<and>
      db' = db\<lparr>sd_backend := Some (?s, now), sd_transition := Some (mixed_row now r)\<rparr>"
    using eq r(1) by (auto simp: storage_enter_mixed_transition_def Let_def with_status_def split: if_splits)
  then show ?thesis using good_step_refl [OF inv] mixed_good [OF r] by auto
qed

lemma quiesced_good:
  assumes inv: "storage_inv jt db" and eq: "enter_mixed_transition_quiesced u now clock db = (res, db')"
  shows "good_step jt db db'"
proof -
  from inv obtain r where r: "sd_transition db = Some r" "row_wf r"
    by (auto simp: storage_inv_def)
  define s where "s = (case details_schema_str (ts_details r) of
      Some s \<Rightarrow> (if s = [] then ''awa'' else s) | None \<Rightarrow> ''awa'')"
  have "s = or_schema ''awa'' (details_schema jt (ts_details r))"
    using r(2) by (simp add: s_def details_schema_text or_schema_def split: option.split)
  moreover have "db' = db \<or> ts_state r = InPrepared \<and> ts_prepared_engine r = Some ''queue_storage'' \<and>
      db' = db\<lparr>sd_backend := Some (s, now), sd_transition := Some (mixed_row now r)\<rparr>"
    using eq r(1) unfolding s_def
    by (simp add: enter_mixed_transition_quiesced_def Let_def with_status_def split: if_splits)
  ultimately show ?thesis using good_step_refl [OF inv] mixed_good [OF r] by auto
qed

lemma finalize_good:
  assumes inv: "storage_inv jt db" and eq: "storage_finalize now db = (res, db')"
  shows "good_step jt db db'"
proof -
  from inv obtain r where r: "sd_transition db = Some r" "row_wf r" "backend_wf jt r (sd_backend db)"
    by (auto simp: storage_inv_def)
  have "db' = db \<or> ts_state r = InMixedTransition \<and> db' = db\<lparr>sd_transition := Some (r\<lparr>
      ts_current_engine := ''queue_storage'', ts_prepared_engine := None, ts_state := InActive,
      ts_epoch := ts_epoch r + 1, ts_entered_at := now, ts_updated_at := now, ts_finalized_at := Some now\<rparr>)\<rparr>"
    using eq r(1) by (auto simp: storage_finalize_def with_status_def split: if_splits option.splits)
  then show ?thesis using good_step_refl [OF inv] r by (auto simp: good_step_defs)
qed

lemma auto_good:
  assumes inv: "storage_inv jt db" and eq: "storage_auto_finalize_if_fresh now schema db = (res, db')"
  shows "good_step jt db db'"
proof -
  from inv obtain r where r: "sd_transition db = Some r" "row_wf r" "backend_wf jt r (sd_backend db)"
    by (auto simp: storage_inv_def)
  define s where "s = (if btrim schema = [] then ''awa'' else btrim schema)"
  have ne: "s \<noteq> []" by (simp add: s_def)
  have "db' = db \<or> ts_state r = InCanonical \<and> db' = db\<lparr>sd_transition := Some (r\<lparr>
      ts_state := InActive, ts_current_engine := ''queue_storage'', ts_prepared_engine := None,
      ts_details := JObject [(''auto_finalized'', JBool True), (''schema'', JString s)],
      ts_epoch := ts_epoch r + 1, ts_entered_at := now, ts_updated_at := now,
      ts_finalized_at := Some now\<rparr>), sd_backend := Some (s, now)\<rparr>"
    using eq r(1) unfolding s_def
    by (simp add: storage_auto_finalize_if_fresh_def Let_def split: if_splits)
  then show ?thesis using good_step_refl [OF inv] r ne
    by (auto simp: good_step_defs schema_is_text_def details_schema_def or_schema_def)
qed

lemma activate_good:
  assumes inv: "storage_inv jt db" and s: "validate_ident s = Inr ()"
    and eq: "activate_backend now s db = (res, db')"
  shows "good_step jt db db'"
proof -
  from inv obtain r where r: "sd_transition db = Some r" "row_wf r"
    by (auto simp: storage_inv_def)
  then show ?thesis using eq validate_ident_nonempty [OF s]
    by (auto simp: activate_backend_def Let_def good_step_defs is_active_with_def schema_is_text_def
        details_schema_def or_schema_def split: if_splits)
qed

lemma storage_step_good: "storage_step jt u db db' \<Longrightarrow> storage_inv jt db \<Longrightarrow> good_step jt db db'"
proof (induction rule: storage_step.induct)
  case (st_outside db' db)
  then show ?case by (auto simp: good_step_defs)
qed (erule (2) prepare_good activate_good | erule (1) abort_good enter_good quiesced_good finalize_good auto_good |
    rule prepare_good abort_good enter_good quiesced_good finalize_good auto_good activate_good; assumption)+

interpretation transition: epoch_machine "storage_step jt u" "storage_inv jt" epoch_of configuration for jt u
  by unfold_locales (auto dest: storage_step_good simp: good_step_def)

text \<open>
  C18: from a freshly migrated database, whatever sequence of prepare, abort, enter, quiesced enter,
  finalize, automatic promotion, activation and unrelated changes runs, routing is consistent: jobs
  go to queue storage exactly in the states \<^verbatim>\<open>mixed_transition\<close> and \<^verbatim>\<open>active\<close> and to
  the canonical tables otherwise, a mixed transition has a registered backend, a registered backend
  names the schema that SQL routing uses, and the row carries a finalization time exactly when it is
  active.
\<close>

theorem routing_consistent:
  assumes "sd_transition db0 = Some (initial_transition t0)" "sd_backend db0 = None"
    and "rtranclp (storage_step jt u) db0 db"
  shows "\<exists>r. sd_transition db = Some r \<and>
    engine_of r = (if ts_state r \<in> {InMixedTransition, InActive} then ''queue_storage'' else ''canonical'') \<and>
    (ts_state r = InMixedTransition \<longrightarrow> sd_backend db \<noteq> None) \<and>
    (\<forall>s t. sd_backend db = Some (s, t) \<longrightarrow> active_queue_storage_schema jt db = Some s) \<and>
    (ts_finalized_at r \<noteq> None \<longleftrightarrow> ts_state r = InActive)"
proof -
  have "storage_inv jt db0"
    by (rule storage_invI [OF assms(1)]) (simp_all add: initial_transition_def backend_wf_def assms(2))
  then have "storage_inv jt db" by (rule transition.run_inv [OF assms(3)])
  then obtain r where r: "sd_transition db = Some r" "row_wf r" "backend_wf jt r (sd_backend db)"
    by (auto simp: storage_inv_def)
  have backend: "active_queue_storage_schema jt db = Some s" if "sd_backend db = Some (s, t)" for s t
    using r that by (cases "ts_state r")
      (auto simp: backend_wf_def active_queue_storage_schema_def engine_of_def or_schema_def split: option.splits)
  show ?thesis using r backend
    by (intro exI [of _ r]) (cases "ts_state r"; auto simp: backend_wf_def engine_of_def)
qed

text \<open>
  C22: the epoch of the transition identifies its configuration: along every run it never decreases,
  while it stays the same so do the state, both engines and the details, and no step leaves the
  state \<^verbatim>\<open>active\<close>.
\<close>

theorem epoch_identifies_configuration:
  assumes "sd_transition db0 = Some (initial_transition t0)" "sd_backend db0 = None"
    and "rtranclp (storage_step jt u) db0 db1" "rtranclp (storage_step jt u) db1 db2"
  shows "epoch_of db1 \<le> epoch_of db2 \<and>
    (epoch_of db2 = epoch_of db1 \<longrightarrow> configuration db2 = configuration db1) \<and>
    (map_option ts_state (sd_transition db1) = Some InActive \<longrightarrow>
      map_option ts_state (sd_transition db2) = Some InActive)"
proof -
  have "storage_inv jt db0"
    by (rule storage_invI [OF assms(1)]) (simp_all add: initial_transition_def backend_wf_def assms(2))
  then have inv: "storage_inv jt db1" by (rule transition.run_inv [OF assms(3)])
  have "map_option ts_state (sd_transition db1) = Some InActive \<longrightarrow>
      map_option ts_state (sd_transition db2) = Some InActive"
    using assms(4)
  proof (induction rule: rtranclp_induct)
    case (step y z)
    have "storage_inv jt y" by (rule transition.run_inv [OF step.hyps(1) inv])
    from storage_step_good [OF step.hyps(2) this] step.IH show ?case by (auto simp: good_step_def)
  qed simp
  with transition.run_epoch [OF assms(4) inv] show ?thesis by blast
qed

subsection \<open>The report and the gates\<close>

lemma map_of_count_capabilities:
  "map_of (count_capabilities rs m) k =
    (let n = length (filter (\<lambda>r. capability_str (ri_capability r) = k) rs) in
     if n = 0 then map_of m k else Some ((case map_of m k of None \<Rightarrow> 0 | Some v \<Rightarrow> v) + n))"
  by (induction rs m rule: count_capabilities.induct)
    (auto simp: Let_def map_of_omap_update split: option.splits)

lemma if_singleton_Nil [simp]: "(if b then [x] else []) = [] \<longleftrightarrow> \<not> b"
  by simp

lemma capability_str_canonical [simp]: "capability_str c = ''canonical'' \<longleftrightarrow> c = CapCanonical"
  by (cases c) auto

text \<open>The interval is a whole number of seconds, or so small that the lower bounds apply, and not astronomical.\<close>

definition whole_interval :: "int \<Rightarrow> bool" where
  "whole_interval i \<longleftrightarrow> (i \<le> 1000 \<or> 1000 dvd i) \<and> i * 3 < 2 ^ 63"

lemma window_le: "i * 3 < 2 ^ 63 \<Longrightarrow> sql_window i \<le> stale_cutoff i"
  by (simp add: sql_window_def stale_cutoff_def)

lemma window_eq:
  assumes "whole_interval i"
  shows "stale_cutoff i = sql_window i"
proof -
  have "1000 * (max i 1000 div 1000) = max i 1000"
    using assms by (cases "i \<le> 1000") (auto simp: whole_interval_def max_def)
  moreover have "max i 1000 * 3 < 2 ^ 63" using assms by (auto simp: whole_interval_def max_def)
  ultimately show ?thesis by (simp add: sql_window_def stale_cutoff_def)
qed

lemma live_count_stale:
  assumes "list_all (\<lambda>i. whole_interval (ri_interval i)) (sd_instances db)"
  shows "live_count now p db = length (filter p (filter (\<lambda>r. \<not> stale now r) (sd_instances db)))"
proof -
  have "filter (\<lambda>r. p r \<and> sql_live now r) (sd_instances db) =
      filter p (filter (\<lambda>r. \<not> stale now r) (sd_instances db))"
    unfolding filter_filter using assms
    by (intro filter_cong) (auto simp: list_all_iff stale_def sql_live_def window_eq)
  then show ?thesis by (simp add: live_count_def)
qed


lemma entry_tables_there:
  assumes "queue_storage_schema_ready s db"
  shows "sd_table db s ''queue_ring_state'' \<noteq> None" "sd_table db s ''ready_entries'' \<noteq> None"
    "sd_table db s ''leases'' \<noteq> None"
  using assms by (simp_all add: queue_storage_schema_ready_def required_tables_def)

lemma count_canonical:
  "(case map_of (count_capabilities rs []) ''canonical'' of None \<Rightarrow> 0 | Some n \<Rightarrow> n) =
    length (filter (\<lambda>i. ri_capability i = CapCanonical) rs)"
  by (simp add: map_of_count_capabilities Let_def)

lemma status_report_row:
  assumes "status_report now db = Inr rep"
  obtains r where "sd_transition db = Some r" "sr_status rep = \<lparr>ss_row = r, ss_active_engine = engine_of r\<rparr>"
    "sr_prepared_schema rep = queue_storage_schema_from_status (sr_status rep)"
  using assms by (cases "sd_transition db") (auto simp: status_report_def storage_status_def Let_def)

lemma report_can_finalize:
  assumes "status_report now db = Inr rep" "sd_transition db = Some r"
    and "list_all (\<lambda>i. whole_interval (ri_interval i)) (sd_instances db)"
  shows "sr_can_finalize rep \<longleftrightarrow> ts_state r = InMixedTransition \<and> ts_prepared_engine r = Some ''queue_storage'' \<and>
      canonical_live_backlog db = 0 \<and> live_count now (\<lambda>i. ri_capability i = CapCanonical) db = 0"
  unfolding live_count_stale [OF assms(3)] using assms(1,2)
  by (clarsimp simp: status_report_def storage_status_def Let_def count_canonical)

lemma report_can_enter:
  assumes "status_report now db = Inr rep" "sd_transition db = Some r"
    and "list_all (\<lambda>i. whole_interval (ri_interval i)) (sd_instances db)"
  shows "sr_can_enter_mixed_transition rep \<longleftrightarrow> ts_state r = InPrepared \<and> ts_prepared_engine r = Some ''queue_storage'' \<and>
      queue_storage_schema_ready (or_schema ''awa'' (details_schema_str (ts_details r))) db \<and>
      live_count now (\<lambda>i. ri_capability i = CapCanonical) db = 0 \<and>
      live_count now (\<lambda>i. ri_role i = RoleQueueStorageTarget \<and> ri_capability i = CapQueueStorage) db \<noteq> 0"
proof (cases "ts_prepared_engine r = Some ''queue_storage''")
  case True
  then show ?thesis unfolding live_count_stale [OF assms(3)] using assms(1,2)
    by (clarsimp simp: status_report_def storage_status_def Let_def count_canonical queue_storage_schema_from_status_def)
next
  case False
  then show ?thesis using assms(1,2) by (clarsimp simp: status_report_def storage_status_def Let_def)
qed




subsection \<open>Workers and routing\<close>

lemma auto_finalize_routed:
  "storage_auto_finalize_if_fresh now s db = (Inr True, db') \<Longrightarrow>
    map_sum id routed_to_queue_storage (storage_status db') = Inr True"
  by (auto simp: storage_auto_finalize_if_fresh_def storage_status_def routed_to_queue_storage_def engine_of_def
      Let_def split: option.splits if_splits)

lemma auto_promote_routed:
  assumes "auto_promote env s db = (Inr b, db')"
  shows "map_sum id routed_to_queue_storage (storage_status db') = Inr b"
  using assms auto_finalize_routed
  by (auto simp: auto_promote_def Let_def split: prod.splits sum.splits bool.splits if_splits)

lemma probe_schema_transition:
  assumes "\<And>d. sd_transition (rv_migrated env d) = sd_transition d" "probe_schema env ex db = (ready, v, db')"
  shows "sd_transition db' = sd_transition db"
  using assms by (auto simp: probe_schema_def Let_def split: option.splits if_splits)

text \<open>
  a worker that follows the transition state runs where jobs are routed: when an auto-role
  runtime that is configured for queue storage resolves its storage, it runs on queue storage exactly
  if the state it leaves routes jobs there, also when it promotes a fresh database itself or another
  worker does so in the meantime.
\<close>

theorem auto_role_follows_routing:
  assumes "resolve_effective_storage env RoleAuto (QueueStorageRuntime s) db = (Inr storage, db')"
    and "\<And>d. sd_transition (rv_migrated env d) = sd_transition d"
  shows "\<exists>st. storage_status db' = Inr st \<and>
    storage = (if routed_to_queue_storage st then QueueStorageRuntime s else CanonicalRuntime)"
proof -
  obtain st ex where st: "storage_status db = Inr st" and ex: "expected_queue_storage_schema st = Inr ex"
    using assms(1) by (auto simp: resolve_effective_storage_def res_bind_def split: sum.splits)
  obtain ready v d where probe: "probe_schema env ex db = (ready, v, d)" by (cases "probe_schema env ex db")
  have same: "storage_status d = Inr st"
    using probe_schema_transition [OF assms(2) probe] st by (simp add: storage_status_def)
  show ?thesis
  proof (cases "ts_state (ss_row st) = InCanonical \<and> ts_prepared_engine (ss_row st) = None")
    case True
    then have "\<not> routed_to_queue_storage st" by (simp add: routed_to_queue_storage_def)
    with True obtain b where b: "auto_promote env s d = (Inr b, db')"
        "storage = (if b then QueueStorageRuntime s else CanonicalRuntime)"
      using assms(1) st ex probe
      by (auto simp: resolve_effective_storage_def split: if_splits prod.splits sum.splits)
    from auto_promote_routed [OF b(1)] obtain st' where
      "storage_status db' = Inr st'" "routed_to_queue_storage st' = b"
      by (cases "storage_status db'") auto
    with b(2) show ?thesis by auto
  next
    case False
    then have "db' = d" "storage = (if routed_to_queue_storage st then QueueStorageRuntime s else CanonicalRuntime)"
      using assms(1) st ex probe by (auto simp: resolve_effective_storage_def split: if_splits)
    with same show ?thesis by blast
  qed
qed

subsection \<open>The bounded retry of the flip\<close>

lemma sqlstate_deadlock [simp]: "is_deadlock (sqlstate c) \<longleftrightarrow> c = ''40P01''"
  by (simp add: sqlstate_def)

lemma bigint_Inl: "bigint n = Inl e \<Longrightarrow> \<not> is_deadlock e"
  by (auto simp: bigint_def split: if_splits)

lemma res_bind_Inl: "res_bind m f = Inl e \<longleftrightarrow> m = Inl e \<or> (\<exists>a. m = Inr a \<and> f a = Inl e)"
  by (cases m) auto

lemma semver_rank_Inl: "semver_rank v = Inl e \<Longrightarrow> \<not> is_deadlock e"
  by (auto simp: semver_rank_def Let_def res_bind_Inl dest: bigint_Inl split: prod.splits if_splits)

lemma flip_aware_Inl: "flip_aware r = Inl e \<Longrightarrow> \<not> is_deadlock e"
  by (auto simp: flip_aware_def res_bind_Inl dest: semver_rank_Inl split: option.splits)


lemma authority_status_Inl: "ring_authority_status now w is db = Inl e \<Longrightarrow> \<not> is_deadlock e"
  by (auto simp: ring_authority_status_def res_bind_Inl dest!: res_map_Inl dest: flip_aware_Inl)

lemma flip_ring_Inl: "flip_ring now st = Inl e \<Longrightarrow> \<not> is_deadlock e"
  by (auto simp: flip_ring_def Let_def prerequisite_error_def split: if_splits)

lemma flip_ring_authority_result:
  assumes "flip_ring_authority now force n db = (res, db')"
  shows "case res of Inl e \<Rightarrow> \<not> is_deadlock e | Inr a \<Rightarrow> a = ''ledger'' \<and> db_authority db' = ''ledger''"
  using assms
  by (auto simp: flip_ring_authority_def prerequisite_error_def dest: flip_ring_Inl split: if_splits sum.splits)

lemma flip_call_result:
  assumes "flip_call now force w is rings = (res, rings')"
  shows "case res of Inl e \<Rightarrow> \<not> is_deadlock e
    | Inr a \<Rightarrow> a = ''ledger'' \<and> map_option db_authority rings' = Some ''ledger''"
proof (cases rings)
  case None
  then show ?thesis using assms by (auto simp: flip_call_def)
next
  case (Some db)
  show ?thesis
  proof (cases "if db_authority db = ''ledger'' \<or> force then Inr 0
      else map_sum id ra_blocking_instances (ring_authority_status now w is db)")
    case (Inl e)
    then obtain e' where "ring_authority_status now w is db = Inl e'" "e = e'"
      by (cases "ring_authority_status now w is db") (auto split: if_splits)
    with Inl Some assms show ?thesis using authority_status_Inl by (auto simp: flip_call_def)
  next
    case (Inr n)
    obtain res' db' where f: "flip_ring_authority now force n db = (res', db')" by fastforce
    with Inr Some assms flip_ring_authority_result [OF f] show ?thesis
      by (auto simp: flip_call_def split: sum.splits)
  qed
qed

definition deadlock_at :: "flip_env \<Rightarrow> nat \<Rightarrow> bool" where
  "deadlock_at env k \<longleftrightarrow> (case fl_failure env k of None \<Rightarrow> False | Some e \<Rightarrow> is_deadlock (Database e))"

lemma flip_attempt_result:
  assumes "flip_attempt env force k rings = (res, rings')"
  shows "case res of Inl e \<Rightarrow> is_deadlock e \<longleftrightarrow> deadlock_at env k
    | Inr a \<Rightarrow> a = ''ledger'' \<and> map_option db_authority rings' = Some ''ledger''"
proof (cases "fl_failure env k")
  case None
  with assms have "flip_call (fl_now env k) force 90000 (fl_instances env k) (fl_traffic env k rings) = (res, rings')"
    by (simp add: flip_attempt_def)
  from flip_call_result [OF this] None show ?thesis by (auto simp: deadlock_at_def split: sum.splits)
qed (use assms in \<open>auto simp: flip_attempt_def deadlock_at_def\<close>)

lemma flip_retrying_trace:
  assumes "flip_retrying env force retry rings = (res, ds, rings')" "retry \<le> 5"
  shows "ds = map (\<lambda>k. 50 * 2 ^ k) [retry..<retry + length ds] \<and> retry + length ds \<le> 5 \<and>
    (\<forall>k. retry \<le> k \<and> k < retry + length ds \<longrightarrow> deadlock_at env k) \<and>
    (case res of
       Inr a \<Rightarrow> a = ''ledger'' \<and> map_option db_authority rings' = Some ''ledger''
     | Inl e \<Rightarrow> is_deadlock e \<longrightarrow> retry + length ds = 5 \<and> deadlock_at env 5)"
  using assms
proof (induction env force retry rings arbitrary: ds rule: flip_retrying.induct)
  case (1 env force retry rings)
  obtain r1 x where at: "flip_attempt env force retry rings = (r1, x)" by fastforce
  note res = flip_attempt_result [OF at]
  show ?case
  proof (cases "\<exists>e. r1 = Inl e \<and> is_deadlock e \<and> retry < FLIP_DEADLOCK_RETRIES")
    case False
    then have "ds = []" "res = r1" "rings' = x"
      using 1(2) at by (auto simp: flip_retrying.simps [of env force retry] split: sum.splits if_splits)
    then show ?thesis using False res 1(3) by (auto simp: FLIP_DEADLOCK_RETRIES_def not_less split: sum.splits)
  next
    case True
    then obtain e where e: "r1 = Inl e" "is_deadlock e" "retry < FLIP_DEADLOCK_RETRIES" by blast
    obtain ds' where rec: "flip_retrying env force (retry + 1) x = (res, ds', rings')" "ds = 50 * 2 ^ retry # ds'"
      using 1(2) at e by (auto simp: flip_retrying.simps [of env force retry] split: prod.splits)
    have "retry + 1 \<le> 5" using e(3) by (simp add: FLIP_DEADLOCK_RETRIES_def)
    with 1(1) [OF at [symmetric] e(1) _ rec(1)] e(2,3)
    have ih: "ds' = map (\<lambda>k. 50 * 2 ^ k) [Suc retry..<Suc retry + length ds']" "retry + length ds \<le> 5"
      "\<forall>k. Suc retry \<le> k \<and> k < retry + length ds \<longrightarrow> deadlock_at env k"
      "case res of
         Inr a \<Rightarrow> a = ''ledger'' \<and> map_option db_authority rings' = Some ''ledger''
       | Inl e \<Rightarrow> is_deadlock e \<longrightarrow> retry + length ds = 5 \<and> deadlock_at env 5"
      by (simp_all add: rec(2) split: sum.splits)
    have "deadlock_at env k" if "retry \<le> k" "k < retry + length ds" for k
    proof (cases "k = retry")
      case True
      then show ?thesis using res e(1,2) by simp
    next
      case False
      then show ?thesis using ih(3) that by simp
    qed
    moreover have "ds = map (\<lambda>k. 50 * 2 ^ k) [retry..<retry + length ds]"
    proof -
      have "[retry..<retry + length ds] = retry # [Suc retry..<Suc retry + length ds']"
        by (simp add: rec(2) upt_conv_Cons del: upt_Suc)
      with ih(1) show ?thesis by (metis list.simps(9) rec(2))
    qed
    ultimately show ?thesis using ih(2,4) by blast
  qed
qed

text \<open>
  C29: the flip with its retries always returns, after at most six calls: the delays are 50, 100, 200,
  400 and 800 milliseconds, as many as there were deadlocks before the last call, at most 1550
  milliseconds in all; a success means that the ledger is authoritative, and a deadlock is reported
  only when all six calls lost one.
\<close>

theorem flip_retry_bounded:
  "case flip_retrying env force 0 rings of (res, delays, rings') \<Rightarrow>
     delays = take (length delays) [50, 100, 200, 400, 800] \<and> sum_list delays \<le> 1550 \<and>
     (\<forall>k. k < length delays \<longrightarrow> deadlock_at env k) \<and>
     (case res of
        Inr a \<Rightarrow> a = ''ledger'' \<and> map_option db_authority rings' = Some ''ledger''
      | Inl e \<Rightarrow> is_deadlock e \<longrightarrow> (\<forall>k. k \<le> 5 \<longrightarrow> deadlock_at env k))"
proof -
  obtain res ds rings' where eq: "flip_retrying env force 0 rings = (res, ds, rings')" by (rule prod_cases3)
  note tr = flip_retrying_trace [OF eq, simplified]
  have "ds = take (length ds) (map (\<lambda>k. 50 * 2 ^ k) [0..<5])"
    using tr by (simp add: take_map)
  then have delays: "ds = take (length ds) [50, 100, 200, 400, 800]" by (simp add: upt_rec)
  have "sum_list (take n [50, 100, 200, 400, 800]) \<le> (1550 :: int)" for n
    by (simp add: take_Cons')
  from this [of "length ds"] delays have "sum_list ds \<le> 1550" by simp
  moreover have "case res of Inr a \<Rightarrow> a = ''ledger'' \<and> map_option db_authority rings' = Some ''ledger''
      | Inl e \<Rightarrow> is_deadlock e \<longrightarrow> (\<forall>k. k \<le> 5 \<longrightarrow> deadlock_at env k)"
    using tr by (auto simp: le_less split: sum.splits)
  ultimately show ?thesis unfolding eq prod.case using delays tr by blast
qed


subsection \<open>Sample databases\<close>

definition fresh_db :: storage_db where
  "fresh_db =
    \<lparr>sd_transition = Some (initial_transition 0), sd_backend = None, sd_instances = [], sd_jobs_hot = [],
     sd_scheduled = 0, sd_table = (\<lambda>s t. if s = ''awa'' then Some 0 else None),
     sd_columns = (\<lambda>s t. [''receipt_ranges'', ''ready_segment_slot'', ''ready_segment_generation'', ''ready_segment_next_lane_seq'']),
     sd_claim_result = (\<lambda>s. Some ''receipt_id, claim_batch_id, claim_batch_index''),
     sd_schema_versions = Some [52]\<rparr>"

definition no_escape :: "char \<Rightarrow> string" where "no_escape c = []"
definition plain_text :: "json \<Rightarrow> string" where "plain_text j = []"

definition prepared_db :: storage_db where
  "prepared_db = snd (storage_prepare 10 ''queue_storage'' None fresh_db)"

definition mixed_db :: storage_db where
  "mixed_db = snd (enter_mixed_transition_quiesced no_escape 20 20 prepared_db)"

definition final_db :: storage_db where
  "final_db = snd (storage_finalize 30 mixed_db)"

lemma fresh_schema_ready: "queue_storage_schema_ready ''awa'' fresh_db"
  by code_simp

lemmas sample_defs = final_db_def mixed_db_def prepared_db_def fresh_db_def initial_transition_def

lemma mixed_db_state:
  "map_option ts_state (sd_transition mixed_db) = Some InMixedTransition \<and> sd_backend mixed_db = Some (''awa'', 20)"
  by code_simp

lemma final_db_state:
  "map_option ts_state (sd_transition final_db) = Some InActive \<and> epoch_of final_db = 3"
  by code_simp

lemma sample_steps:
  "rtranclp (storage_step plain_text no_escape) fresh_db mixed_db"
  "rtranclp (storage_step plain_text no_escape) mixed_db final_db"
proof -
  have "storage_step plain_text no_escape fresh_db prepared_db"
    by (rule st_prepare [of None 10 "''queue_storage''"]) (simp, simp add: prepared_db_def prod_eq_iff)
  moreover have "storage_step plain_text no_escape prepared_db mixed_db"
    by (rule st_quiesced [of _ 20 20]) (simp add: mixed_db_def prod_eq_iff)
  ultimately show "rtranclp (storage_step plain_text no_escape) fresh_db mixed_db" by auto
  have "storage_step plain_text no_escape mixed_db final_db"
    by (rule st_finalize [of 30]) (simp add: final_db_def prod_eq_iff)
  then show "rtranclp (storage_step plain_text no_escape) mixed_db final_db" by auto
qed

theorem routing_consistent_witness:
  "rtranclp (storage_step plain_text no_escape) fresh_db mixed_db \<and>
   active_queue_storage_schema plain_text mixed_db = Some ''awa''"
proof -
  have "sd_transition fresh_db = Some (initial_transition 0)" "sd_backend fresh_db = None"
    by (simp_all add: fresh_db_def)
  from routing_consistent [OF this sample_steps(1)] mixed_db_state sample_steps(1) show ?thesis by auto
qed

theorem epoch_identifies_configuration_witness:
  "epoch_of mixed_db \<le> epoch_of final_db \<and>
   map_option ts_state (sd_transition final_db) = Some InActive"
proof -
  have "sd_transition fresh_db = Some (initial_transition 0)" "sd_backend fresh_db = None"
    by (simp_all add: fresh_db_def)
  from epoch_identifies_configuration [OF this sample_steps] final_db_state show ?thesis by auto
qed

definition worker_row :: runtime_instance where
  "worker_row = \<lparr>ri_capability = CapQueueStorage, ri_role = RoleQueueStorageTarget, ri_last_seen = 0,
     ri_interval = 10000, ri_binary_version = Some ''0.7.1''\<rparr>"


definition quiet_env :: resolve_env where
  "quiet_env = \<lparr>rv_now = 5, rv_migrated = id, rv_prepare_schema = (\<lambda>_ db. (Inr (), db)), rv_others = id\<rparr>"

theorem auto_role_follows_routing_witness:
  "\<exists>db' st. resolve_effective_storage quiet_env RoleAuto (QueueStorageRuntime ''awa'') fresh_db =
      (Inr (QueueStorageRuntime ''awa''), db') \<and> storage_status db' = Inr st \<and> routed_to_queue_storage st"
proof -
  have "fst (resolve_effective_storage quiet_env RoleAuto (QueueStorageRuntime ''awa'') fresh_db) =
      Inr (QueueStorageRuntime ''awa'')"
    by code_simp
  then obtain db' where eq: "resolve_effective_storage quiet_env RoleAuto (QueueStorageRuntime ''awa'') fresh_db =
      (Inr (QueueStorageRuntime ''awa''), db')"
    by (cases "resolve_effective_storage quiet_env RoleAuto (QueueStorageRuntime ''awa'') fresh_db") auto
  have "sd_transition (rv_migrated quiet_env d) = sd_transition d" for d by (simp add: quiet_env_def)
  from auto_role_follows_routing [OF eq this] eq show ?thesis by (auto split: if_splits)
qed

definition busy_env :: flip_env where
  "busy_env = \<lparr>fl_now = (\<lambda>k. 5), fl_instances = (\<lambda>k. [worker_row]), fl_traffic = (\<lambda>k rings. rings),
     fl_failure = (\<lambda>k. if k < 2 then Some (DbError (Some ''40P01'') None) else None)\<rparr>"

theorem flip_retry_bounded_witness:
  "(case flip_retrying busy_env False 0 (Some (small_db ''columns'')) of (res, delays, rings') \<Rightarrow>
      res = Inr ''ledger'' \<and> delays = [50, 100] \<and> map_option db_authority rings' = Some ''ledger'')"
proof -
  have "case flip_retrying busy_env False 0 (Some (small_db ''columns'')) of (res, delays, _) \<Rightarrow>
      res = Inr ''ledger'' \<and> delays = [50, 100]"
    by code_simp
  with flip_retry_bounded [of busy_env False "Some (small_db ''columns'')"] show ?thesis
    by (auto split: prod.splits)
qed


subsection \<open>Where the transition falls short\<close>

text \<open>
  An abort in the state \<^verbatim>\<open>active\<close> raises no error and leaves the row alone, but it unregisters the
  backend: SQL routing still names the schema, the Rust store finds none.
\<close>

lemma abort_unregisters_active_backend:
  "case storage_abort plain_text 40 final_db of (res, db') \<Rightarrow>
     map_sum id (\<lambda>st. ts_state (ss_row st)) res = Inr InActive \<and>
     active_queue_storage_schema plain_text db' = Some ''awa'' \<and>
     active_schema no_escape final_db = Inr (Some ''awa'') \<and> active_schema no_escape db' = Inr None"
  by code_simp

text \<open>
  Without a schema in the details, entry uses \<^verbatim>\<open>awa\<close> and abort counts the rows of
  \<^verbatim>\<open>awa_exp\<close>: an abort of a mixed transition with jobs in queue storage succeeds.
\<close>

lemma abort_overlooks_default_schema:
  "case storage_abort plain_text 40
      (mixed_db\<lparr>sd_table := (\<lambda>s t. if s = ''awa'' \<and> t = ''ready_entries'' then Some 7 else sd_table mixed_db s t)\<rparr>)
   of (res, db') \<Rightarrow>
     map_sum id (\<lambda>st. ts_state (ss_row st)) res = Inr InCanonical \<and>
     active_queue_storage_schema plain_text db' = None \<and> sd_table db' ''awa'' ''ready_entries'' = Some 7"
  by code_simp

text \<open>A live runtime whose version cannot be parsed is neither flip-aware nor blocking, so the flip goes ahead.\<close>

lemma unparseable_version_passes_gate:
  "map_sum id (\<lambda>st. (ra_live_instances st, ra_flip_aware_instances st, ra_blocking_instances st))
     (ring_authority_status 5 90000 [worker_row\<lparr>ri_binary_version := Some ''dev''\<rparr>] (small_db ''columns'')) =
     Inr (1, 0, 0) \<and>
   fst (flip_call 5 False 90000 [worker_row\<lparr>ri_binary_version := Some ''dev''\<rparr>] (Some (small_db ''columns''))) =
     Inr ''ledger''"
  by code_simp

text \<open>
  When another worker promotes the database for its own schema in the meantime, a worker starts on
  the schema it was configured for, not on the one jobs are routed to.
\<close>

definition racing_env :: resolve_env where
  "racing_env = quiet_env\<lparr>rv_others := (\<lambda>db. snd (storage_auto_finalize_if_fresh 4 ''other'' db))\<rparr>"

lemma promotion_race_ignores_schema:
  "case resolve_effective_storage racing_env RoleAuto (QueueStorageRuntime ''awa'') fresh_db of (res, db') \<Rightarrow>
     res = Inr (QueueStorageRuntime ''awa'') \<and> active_queue_storage_schema plain_text db' = Some ''other''"
  by code_simp

end
