(* ===== verification/Spec2Isabelle.thy ===== *)
theory Spec2Isabelle
  imports Awa_Prelude Awa_Job Awa_Insert Awa_Routing Awa_Payload Awa_Rows Awa_Ring Awa_Lanes Awa_Store Awa_Enqueue Awa_Terminal Awa_Attempts Awa_Lifecycle Awa_Completion Awa_Callbacks Awa_Claim Awa_Claimers Awa_Rescue Awa_Storage
begin

section \<open>The Awa job queue\<close>

text \<open>
  Awa is a job queue on Postgres.  Producers insert jobs, workers claim, run and complete them, and a
  maintenance leader promotes, rescues, rotates and prunes.  This development models the queue-storage
  engine of \<^verbatim>\<open>src/awa-model/src/queue_storage.rs\<close>, the data and insert layers it builds on, and
  the transition that moves a database onto it, and proves what makes them correct.

  \<^bold>\<open>Parts and theories.\<close>

  \<^item> \<open>Awa_Prelude\<close>: ordered maps (\<^verbatim>\<open>BTreeMap\<close>), decimal text, saturating integers, fallible loops.

  \<^item> \<open>Awa_Job\<close>: \<^verbatim>\<open>job.rs\<close>, \<^verbatim>\<open>kind.rs\<close>, \<^verbatim>\<open>unique.rs\<close>, \<^verbatim>\<open>error.rs\<close>: JSON values, job states and rows,
  kind derivation, the bytes of a unique key, errors.  The kind derivation is correct and unique keys
  are injective in what they are made of.

  \<^item> \<open>Awa_Insert\<close>: \<^verbatim>\<open>insert.rs\<close>, \<^verbatim>\<open>output.rs\<close>, \<^verbatim>\<open>trace.rs\<close>: validation and preparation of an insert and the
  staging text sent by \<^verbatim>\<open>COPY\<close>, with readers for the Postgres formats: staging loses nothing.

  \<^item> \<open>Awa_Routing\<close>: \<^verbatim>\<open>partitioned_queue.rs\<close> and the routing functions of the store: ordering-key hash
  (64-bit, against the SQL version), shard rotor, stripes, partitioned queues, configuration checks.

  \<^item> \<open>Awa_Payload\<close>, \<open>Awa_Rows\<close>: the payload envelope and the row types with every conversion between
  them.  No conversion changes the identity of a job; narrow terminal rows read back.

  \<^item> \<open>Awa_Ring\<close>: the queue, lease and claim rings: cursors in columns and in the append-only ledger,
  rotation with its cadence, the flip of the authority, pruning.  Every reachable ring state is well
  formed, a rotation opens an empty slot, pruning removes only closed claims.

  \<^item> \<open>Awa_Lanes\<close>: grouping of rows by lane, ready segments, claim-cursor catch-up, output budgets.

  \<^item> \<open>Awa_Store\<close>: the tables as one record and the transaction monad: a computation returns a result or
  an error with the store it leaves; \<open>in_tx\<close> rolls back on an error.

  \<^item> \<open>Awa_Enqueue\<close>: unique claims, lane heads, ready and deferred inserts by statement and by
  \<^verbatim>\<open>COPY\<close>, whole batches: a batch is stored whole, on consecutive positions, or not at all.

  \<^item> \<open>Awa_Terminal\<close>: terminal inserts with their counters, folds, rollups and the pruning of queue
  partitions: the counters stay exact and pruning keeps the history.

  \<^item> \<open>Awa_Attempts\<close>: receipts, leases and the taking of a running attempt: at most one caller takes it.

  \<^item> \<open>Awa_Lifecycle\<close>: retry, snooze, failure, cancellation, dead letters, settling of rescued attempts,
  promotion of deferred jobs.

  \<^item> \<open>Awa_Completion\<close>: the compact and the general completion: an attempt completes at most once.

  \<^item> \<open>Awa_Callbacks\<close>: external callbacks: registration, waiting, polling, resolution and timeouts, and the
  lookup of a job over all its tables.  A callback is resolved at most once and a resumed payload reaches its poller.

  \<^item> \<open>Awa_Claim\<close>: the claim functions of the schema (\<^verbatim>\<open>v023_install_queue_storage_substrate.sql\<close>) and the claim paths
  above them: no row is claimed twice, a waiting job is reached by repeated claims, and when a claim fails.

  \<^item> \<open>Awa_Claimers\<close>: the leases by which worker instances share a queue, their target and the gated claim: at most
  one instance owns a slot at an epoch.

  \<^item> \<open>Awa_Rescue\<close>: the scans for stale and expired attempts and the rescue operations: a scan closes exactly what
  it returns, no stale claim starves behind a cursor, a rescued attempt is out of its worker's hands.

  \<^item> \<open>Awa_Storage\<close>: the storage transition (\<^verbatim>\<open>storage.rs\<close>, its SQL functions, the worker's choice of storage)
  and the retried flip of the ring authority.

  \<^bold>\<open>How the code corresponds.\<close>  A struct is a record with its fields (prefixed where two structs share
  a name), an enum a datatype, a function a definition of the same name with a suffix where a name is
  taken.  A SQL statement inside a function is the corresponding change of the tables of
  \<open>store\<close>; the rows of a table are a list, and \<^verbatim>\<open>ON CONFLICT\<close>, \<^verbatim>\<open>RETURNING\<close>, anti-joins and ordering are
  written out.  Every early return and error of the source is a branch.  Timestamps and durations are
  integers in milliseconds; ids, sequence numbers and generations are unbounded integers (the columns
  are 64 bits wide), the hash and the counters of the rotor have their machine width.

  \<^bold>\<open>Interfaces.\<close>  The locale \<open>tx_relation\<close> lifts a relation between stores from the statements to
  every computation built from them; it is interpreted for the lane heads, the growth of an enqueue, the
  claims, the closing of claims and the settling of rescued attempts.  The locale \<open>ring_provider\<close> states what a ring promises of its cursor; it
  is interpreted on the ledger, on the columns and on the authority between them.  The locale \<open>counter_view\<close> relates
  counters to the rows they count; it is interpreted by bucket and by lane.  The locale \<open>epoch_machine\<close> lifts the steps of a machine with an
  epoch to its runs; it is interpreted on the storage transition.

  \<^bold>\<open>Parameters.\<close>  What comes from outside the source is an argument: the BLAKE3 digest, the JSON
  serializer, the rendering of times and durations, random draws, clocks, the outcome of lock and
  truncate statements, and what concurrent sessions do between two statements.

  \<^bold>\<open>Termination and bounds.\<close>  All definitions are total.  No definition uses fuel; the retry loop of the
  authority flip has a termination proof with the measure of the retries that are left.

  \<^bold>\<open>Not modelled.\<close>  Row locks and scan orders of concurrent sessions beyond the arguments named above; the
  canonical engine's SQL; administrative moves, listing and statistics queries; cron evaluation, which a
  third-party crate does; the worker's asynchronous tasks, metrics, servers, bindings, CLI and user
  interface, which are input and output around the modelled operations.
\<close>

end
